(* ===== verification/Vault_Prelude.thy ===== *)
theory Vault_Prelude
  imports Main "HOL-Library.Word" "HOL-Library.List_Lexorder"
begin

text \<open>
  What every component of the store shares: byte strings and Go slices, the error values that
  \<^verbatim>\<open>fmt.Errorf\<close> builds, the little-endian integer encoding of \<^verbatim>\<open>encoding/binary\<close>, the order
  of \<^verbatim>\<open>bytes.Compare\<close>, sub-slices and \<^verbatim>\<open>copy\<close>, sorted association lists as the abstract
  value of a table, and the locale of length-framed record sequences that the write-ahead log,
  the data blocks and the index block of an SSTable all are.
\<close>

unbundle bit_operations_syntax

named_theorems slice_simps \<open>sub-slices of concatenations\<close>
named_theorems le_simps \<open>little-endian encodings\<close>

subsection \<open>Types\<close>

type_synonym byte = "8 word"
type_synonym bytes = "byte list"
type_synonym u16 = "16 word"
type_synonym u32 = "32 word"
type_synonym u64 = "64 word"

text \<open>A Go \<^verbatim>\<open>[]byte\<close> that may be \<^verbatim>\<open>nil\<close>: \<open>None\<close> is \<^verbatim>\<open>nil\<close>, which the code
  distinguishes from the empty slice \<open>Some []\<close> where it compares with \<^verbatim>\<open>nil\<close>.\<close>

type_synonym slice = "bytes option"

definition slice_bytes :: "slice \<Rightarrow> bytes" where
  "slice_bytes s = (case s of None \<Rightarrow> [] | Some b \<Rightarrow> b)"

lemma slice_bytes_simps [simp]: "slice_bytes None = []" "slice_bytes (Some b) = b"
  by (simp_all add: slice_bytes_def)

text \<open>Errors: a run-time panic, an error built by \<^verbatim>\<open>fmt.Errorf\<close> or by the standard library, and an
  error wrapped with \<^verbatim>\<open>%w\<close> (the string is the format's fixed prefix).\<close>

datatype error = Panic | Err string | Wrap string error

subsection \<open>Sub-slices and copy\<close>

definition sub :: "'a list \<Rightarrow> nat \<Rightarrow> nat \<Rightarrow> 'a list" where
  "sub xs i n = take n (drop i xs)"

lemma sub_append_right [slice_simps]: "length pre \<le> i \<Longrightarrow> sub (pre @ xs) i n = sub xs (i - length pre) n"
  by (simp add: sub_def)

lemma sub_append_left [slice_simps]: "i + n \<le> length xs \<Longrightarrow> sub (xs @ ys) i n = sub xs i n"
  by (simp add: sub_def)

lemma sub_all [slice_simps]: "n = length xs \<Longrightarrow> sub xs 0 n = xs"
  by (simp add: sub_def)

lemma sub_prefix [slice_simps]: "n = length xs \<Longrightarrow> sub (xs @ ys) 0 n = xs"
  by (simp add: sub_def)

lemma sub_Cons_Suc [slice_simps]: "sub (x # xs) (Suc i) n = sub xs i n"
  by (simp add: sub_def)

lemma length_sub: "length (sub xs i n) = min n (length xs - i)"
  by (simp add: sub_def)

lemma length_sub_in [simp]: "i + n \<le> length xs \<Longrightarrow> length (sub xs i n) = n"
  by (simp add: length_sub)

text \<open>Go's \<^verbatim>\<open>copy(dst[off:], src)\<close> for \<^verbatim>\<open>off <= len(dst)\<close>: it stops at the shorter of the two.\<close>

definition copy_at :: "'a list \<Rightarrow> nat \<Rightarrow> 'a list \<Rightarrow> 'a list" where
  "copy_at dst off src = take off dst @ take (length dst - off) src @ drop (off + length src) dst"

lemma length_copy_at [simp]: "off \<le> length dst \<Longrightarrow> length (copy_at dst off src) = length dst"
  by (simp add: copy_at_def min_def)

lemma copy_at_skip [slice_simps]:
  "length a \<le> off \<Longrightarrow> copy_at (a @ b) off src = a @ copy_at b (off - length a) src"
  by (simp add: copy_at_def add.commute)

lemma copy_at_Cons [slice_simps]:
  "copy_at (x # b) 0 [y] = y # b" "0 < off \<Longrightarrow> copy_at (x # b) off src = x # copy_at b (off - 1) src"
  by (cases off; simp add: copy_at_def)+

lemma copy_at_front [slice_simps]: "length src = length a \<Longrightarrow> copy_at (a @ b) 0 src = src @ b"
  by (simp add: copy_at_def)

lemma copy_at_whole [slice_simps]: "length src = length a \<Longrightarrow> copy_at a 0 src = src"
  by (simp add: copy_at_def)

subsection \<open>Little-endian integers\<close>

definition put_le :: "nat \<Rightarrow> 'a::len word \<Rightarrow> bytes" where
  "put_le n w = map (\<lambda>i. ucast (drop_bit (8 * i) w)) [0..<n]"

fun get_le :: "bytes \<Rightarrow> 'a::len word" where
  "get_le [] = 0"
| "get_le (b # bs) = ucast b OR push_bit 8 (get_le bs)"

abbreviation PutUint16 :: "u16 \<Rightarrow> bytes" where "PutUint16 \<equiv> put_le 2"
abbreviation PutUint32 :: "u32 \<Rightarrow> bytes" where "PutUint32 \<equiv> put_le 4"
abbreviation PutUint64 :: "u64 \<Rightarrow> bytes" where "PutUint64 \<equiv> put_le 8"
abbreviation Uint16 :: "bytes \<Rightarrow> u16" where "Uint16 \<equiv> get_le"
abbreviation Uint32 :: "bytes \<Rightarrow> u32" where "Uint32 \<equiv> get_le"
abbreviation Uint64 :: "bytes \<Rightarrow> u64" where "Uint64 \<equiv> get_le"

lemma length_put_le [simp, le_simps]: "length (put_le n w) = n"
  by (simp add: put_le_def)

lemma bit_get_le:
  "bit (get_le bs :: 'a::len word) i \<longleftrightarrow>
     i < LENGTH('a) \<and> i div 8 < length bs \<and> bit (bs ! (i div 8)) (i mod 8)"
proof (induction bs arbitrary: i)
  case Nil
  then show ?case by simp
next
  case (Cons b bs)
  show ?case
  proof (cases "i < 8")
    case True
    then show ?thesis by (auto simp: bit_or_iff bit_ucast_iff bit_push_bit_iff)
  next
    case False
    then have i: "i div 8 = Suc ((i - 8) div 8)" "(i - 8) mod 8 = i mod 8"
      by (simp_all add: le_div_geq le_mod_geq)
    have "\<not> bit b i" using False bit_imp_le_length [of b i] by auto
    with False i show ?thesis
      by (auto simp: bit_or_iff bit_ucast_iff bit_push_bit_iff Cons.IH)
  qed
qed

lemma get_put_le:
  assumes "LENGTH('a) = 8 * n"
  shows "get_le (put_le n w) = (w :: 'a::len word)"
proof (rule bit_eqI)
  fix i assume "possible_bit TYPE('a word) i"
  then have i: "i < LENGTH('a)" by (simp add: possible_bit_word)
  with assms have "i div 8 < n" by (simp add: div_less_iff_less_mult mult.commute)
  moreover have "8 * (i div 8) + i mod 8 = i" by simp
  ultimately show "bit (get_le (put_le n w) :: 'a word) i = bit w i"
    using i by (simp add: bit_get_le put_le_def bit_ucast_iff bit_drop_bit_eq add.commute
        del: numeral_nat)
qed

lemma put_get_le:
  assumes "LENGTH('a) = 8 * n" "length bs = n"
  shows "put_le n (get_le bs :: 'a::len word) = bs"
proof (rule nth_equalityI)
  show "length (put_le n (get_le bs :: 'a word)) = length bs" using assms by simp
next
  fix j assume "j < length (put_le n (get_le bs :: 'a word))"
  then have j: "j < n" by simp
  show "put_le n (get_le bs :: 'a word) ! j = bs ! j"
  proof (rule bit_eqI)
    fix i assume "possible_bit TYPE(byte) i"
    then have i: "i < 8" by (simp add: possible_bit_word)
    with j have "8 * j + i < 8 * n" by linarith
    moreover have "(8 * j + i) div 8 = j" "(8 * j + i) mod 8 = i" using i by simp_all
    ultimately show "bit (put_le n (get_le bs :: 'a word) ! j) i = bit (bs ! j) i"
      using assms i j by (simp add: put_le_def bit_ucast_iff bit_drop_bit_eq bit_get_le)
  qed
qed

lemma Uint_Put [simp, le_simps]:
  "Uint16 (PutUint16 a) = a" "Uint32 (PutUint32 b) = b" "Uint64 (PutUint64 c) = c"
  by (simp_all add: get_put_le)

lemma Put_Uint32 [le_simps]: "length bs = 4 \<Longrightarrow> PutUint32 (Uint32 bs) = bs"
  by (simp add: put_get_le)

lemma unat_of_nat_u32 [le_simps]: "n < 2 ^ 32 \<Longrightarrow> unat (of_nat n :: u32) = n"
  by (simp add: unat_of_nat take_bit_nat_eq_self)

lemma unat_of_nat_u64 [le_simps]: "n < 2 ^ 64 \<Longrightarrow> unat (of_nat n :: u64) = n"
  by (simp add: unat_of_nat take_bit_nat_eq_self)

subsection \<open>The order of bytes.Compare\<close>

fun bytes_Compare :: "bytes \<Rightarrow> bytes \<Rightarrow> int" where
  "bytes_Compare [] [] = 0"
| "bytes_Compare [] (_ # _) = -1"
| "bytes_Compare (_ # _) [] = 1"
| "bytes_Compare (a # as) (b # bs) =
     (if a < b then -1 else if b < a then 1 else bytes_Compare as bs)"

lemma bytes_Compare_eq_iff [simp]: "bytes_Compare a b = 0 \<longleftrightarrow> a = b"
  by (induction a b rule: bytes_Compare.induct) auto

lemma bytes_Compare_less_iff [simp]: "bytes_Compare a b < 0 \<longleftrightarrow> a < b"
  by (induction a b rule: bytes_Compare.induct) auto

lemma bytes_Compare_le_iff [simp]: "bytes_Compare a b \<le> 0 \<longleftrightarrow> a \<le> b"
  by (metis bytes_Compare_eq_iff bytes_Compare_less_iff order_le_less)

lemma bytes_Compare_greater_iff [simp]: "0 < bytes_Compare a b \<longleftrightarrow> b < a"
  by (metis bytes_Compare_le_iff not_le)

subsection \<open>Tables: sorted association lists\<close>

text \<open>What a table says of a key: a tombstone, or a value (a slice, so that a \<^verbatim>\<open>nil\<close> value
  stays distinguishable from an empty one).\<close>

datatype cell = Tomb | Val slice

type_synonym table = "(bytes \<times> cell) list"

abbreviation sorted_table :: "(bytes \<times> 'v) list \<Rightarrow> bool" where
  "sorted_table t \<equiv> sorted_wrt (<) (map fst t)"

definition table_upd :: "bytes \<Rightarrow> 'v \<Rightarrow> (bytes \<times> 'v) list \<Rightarrow> (bytes \<times> 'v) list" where
  "table_upd k c t = takeWhile (\<lambda>p. fst p < k) t @ (k, c) # dropWhile (\<lambda>p. fst p \<le> k) t"

lemma table_upd_Nil [simp]: "table_upd k c [] = [(k, c)]"
  by (simp add: table_upd_def)

lemma table_upd_Cons [simp]:
  "table_upd k c (p # t) =
     (if fst p < k then p # table_upd k c t
      else if fst p = k then (k, c) # dropWhile (\<lambda>p. fst p \<le> k) t
      else (k, c) # p # t)"
  by (auto simp: table_upd_def)

lemma sorted_table_distinct: "sorted_table t \<Longrightarrow> distinct (map fst t)"
  by (simp add: strict_sorted_iff)

lemma map_of_dropWhile_le:
  "sorted_table t \<Longrightarrow> map_of (dropWhile (\<lambda>p. fst p \<le> k) t) x = (if k < x then map_of t x else None)"
proof (induction t)
  case Nil
  then show ?case by simp
next
  case (Cons p t)
  have "map_of t x = None" if "x \<le> fst p"
    using Cons.prems that by (fastforce simp: map_of_eq_None_iff)
  with Cons show ?case by (cases p) auto
qed

lemma map_of_table_upd: "sorted_table t \<Longrightarrow> map_of (table_upd k c t) = (map_of t)(k \<mapsto> c)"
proof (induction t)
  case Nil
  then show ?case by auto
next
  case (Cons p t)
  have "map_of t x = None" if "x \<le> fst p" for x
    using Cons.prems that by (fastforce simp: map_of_eq_None_iff)
  with Cons show ?case
    by (cases p) (auto simp: fun_eq_iff map_of_dropWhile_le)
qed

lemma fst_table_upd: "sorted_table t \<Longrightarrow> fst ` set (table_upd k c t) = insert k (fst ` set t)"
  by (simp add: dom_map_of_conv_image_fst [symmetric] map_of_table_upd)

lemma sorted_table_dropWhile: "sorted_table t \<Longrightarrow> sorted_table (dropWhile P t)"
  by (simp add: sorted_wrt_map sorted_wrt_dropWhile)

lemma dropWhile_le_greater:
  "sorted_table t \<Longrightarrow> x \<in> set (dropWhile (\<lambda>p. fst p \<le> k) t) \<Longrightarrow> k < fst x"
  by (induction t) (auto split: if_splits)

lemma sorted_table_upd: "sorted_table t \<Longrightarrow> sorted_table (table_upd k c t)"
proof (induction t)
  case Nil
  then show ?case by simp
next
  case (Cons p t)
  then have p: "\<forall>x \<in> fst ` set t. fst p < x" and t: "sorted_table t" by auto
  consider "fst p < k" | "fst p = k" | "k < fst p" by fastforce
  then show ?case
  proof cases
    case 1
    with p have "\<forall>x \<in> fst ` set (table_upd k c t). fst p < x"
      by (simp add: fst_table_upd [OF t])
    with 1 Cons.IH [OF t] show ?thesis by simp
  next
    case 2
    with dropWhile_le_greater [OF t] sorted_table_dropWhile [OF t] show ?thesis by auto
  next
    case 3
    with p have "\<forall>x \<in> fst ` set t. k < x" by (meson order_less_trans)
    with 3 Cons.prems show ?thesis by auto
  qed
qed

subsection \<open>Length-framed sequences\<close>

text \<open>
  The log, the data blocks and the index block are each a concatenation of framed records that
  a loop reads back one record at a time from a running byte offset.  A client of the locale gives
  the encoder of one record, the records it encodes faithfully, the loop as a function of the
  whole buffer and the offset, and what one turn of the loop adds to the rest of the run.
\<close>

locale framed_scan =
  fixes enc :: "'a \<Rightarrow> bytes"
    and ok :: "'a \<Rightarrow> bool"
    and scan :: "bytes \<Rightarrow> nat \<Rightarrow> 'r"
    and turn :: "'a \<Rightarrow> 'r \<Rightarrow> 'r"
  assumes scan_turn: "ok x \<Longrightarrow> scan (pre @ enc x @ rest) (length pre) =
      turn x (scan (pre @ enc x @ rest) (length pre + length (enc x)))"
begin

lemma scan_records:
  "list_all ok xs \<Longrightarrow> scan (pre @ concat (map enc xs) @ rest) (length pre) =
     foldr turn xs (scan (pre @ concat (map enc xs) @ rest)
        (length pre + length (concat (map enc xs))))"
proof (induction xs arbitrary: pre)
  case Nil
  then show ?case by simp
next
  case (Cons x xs)
  have "scan (pre @ concat (map enc (x # xs)) @ rest) (length pre) =
      turn x (scan ((pre @ enc x) @ concat (map enc xs) @ rest) (length (pre @ enc x)))"
    using Cons.prems scan_turn [of x pre "concat (map enc xs) @ rest"] by simp
  with Cons.prems Cons.IH [of "pre @ enc x"] show ?case by (simp add: add.assoc)
qed

lemma scan_from_start:
  "list_all ok xs \<Longrightarrow> scan (concat (map enc xs) @ rest) 0 =
     foldr turn xs (scan (concat (map enc xs) @ rest) (length (concat (map enc xs))))"
  using scan_records [of xs "[]" rest] by simp

end

end
