(* ===== verification/Go_Float.thy ===== *)
theory Go_Float
  imports Vault_Prelude
begin

text \<open>
  The little of \<^verbatim>\<open>float64\<close> that the store computes with: the size of a Bloom filter is
  \<^verbatim>\<open>math.Ceil(float64(n) * bitsPerKey)\<close> and the tiers of the compaction engine compare
  \<^verbatim>\<open>float64(a) / float64(b)\<close> with 2.  Only finite non-negative values occur, none near the
  ends of the exponent range, so a value is a natural mantissa times a power of two, and every
  operation rounds its exact result to 53 significant bits, ties to even.
\<close>

datatype f64 = F64 (mant: int) (expo: int)

function bitlen :: "int \<Rightarrow> nat" where
  "bitlen n = (if n \<le> 0 then 0 else Suc (bitlen (n div 2)))"
  by pat_completeness auto
termination
  by (relation "measure nat") auto

declare bitlen.simps [simp del]

text \<open>Round the exact value \<open>m * 2^e\<close> to 53 bits, to nearest, ties to even.\<close>

definition round53 :: "int \<Rightarrow> int \<Rightarrow> f64" where
  "round53 m e = (let k = bitlen m - 53; q = m div 2 ^ k; r = m mod 2 ^ k in
     if k = 0 then F64 m e
     else F64 (if 2 * r > 2 ^ k \<or> (2 * r = 2 ^ k \<and> odd q) then q + 1 else q) (e + int k))"

definition f64_of_int :: "int \<Rightarrow> f64" where
  "f64_of_int n = round53 n 0"

definition f64_mul :: "f64 \<Rightarrow> f64 \<Rightarrow> f64" where
  "f64_mul a b = round53 (mant a * mant b) (expo a + expo b)"

text \<open>\<^verbatim>\<open>math.Ceil\<close>, as an integer.\<close>

definition f64_ceil :: "f64 \<Rightarrow> int" where
  "f64_ceil a = (if 0 \<le> expo a then mant a * 2 ^ nat (expo a)
     else (mant a + 2 ^ nat (- expo a) - 1) div 2 ^ nat (- expo a))"

text \<open>Division by a positive value: the quotient is computed to more than 53 bits and a last sticky bit
  tells whether it is exact, so that rounding it is rounding the exact quotient.\<close>

definition f64_div :: "f64 \<Rightarrow> f64 \<Rightarrow> f64" where
  "f64_div a b = (let k = 55 + bitlen (mant b); n = mant a * 2 ^ k; q = n div mant b in
     round53 (2 * q + (if n mod mant b = 0 then 0 else 1)) (expo a - expo b - int k - 1))"

definition f64_less :: "f64 \<Rightarrow> f64 \<Rightarrow> bool" where
  "f64_less a b = (if expo a \<le> expo b then mant a < mant b * 2 ^ nat (expo b - expo a)
     else mant a * 2 ^ nat (expo a - expo b) < mant b)"

subsection \<open>Bit lengths\<close>

lemma bitlen_0 [simp]: "n \<le> 0 \<Longrightarrow> bitlen n = 0"
  by (simp add: bitlen.simps)

lemma bitlen_pos: "0 < n \<Longrightarrow> bitlen n = Suc (bitlen (n div 2))"
  by (subst bitlen.simps) simp

lemma bitlen_le_iff: "0 \<le> n \<Longrightarrow> bitlen n \<le> k \<longleftrightarrow> n < 2 ^ k"
proof (induction n arbitrary: k rule: bitlen.induct)
  case (1 n)
  show ?case
  proof (cases "n = 0")
    case False
    with 1 have IH: "\<And>k. bitlen (n div 2) \<le> k \<longleftrightarrow> n div 2 < 2 ^ k" by simp
    show ?thesis
    proof (cases k)
      case 0
      with False "1.prems" show ?thesis by (simp add: bitlen_pos)
    next
      case (Suc j)
      with False "1.prems" IH [of j] show ?thesis by (simp add: bitlen_pos) linarith
    qed
  qed simp
qed

subsection \<open>Rounding error\<close>

text \<open>The rounded mantissa, brought back to the exponent of the exact value, is off by at most half
  a unit of its last place.\<close>

lemma expo_round53: "expo (round53 m e) = e + int (bitlen m - 53)"
  by (simp add: round53_def Let_def)

lemma round53_error:
  assumes "0 \<le> m"
  defines "u \<equiv> 2 ^ (bitlen m - 53)"
  shows "\<bar>2 * (mant (round53 m e) * u - m)\<bar> \<le> u"
proof -
  define q r where "q = m div u" and "r = m mod u"
  have m: "m = q * u + r" unfolding q_def r_def by (rule div_mult_mod_eq [symmetric])
  have r: "0 \<le> r" "r < u" by (simp_all add: r_def u_def)
  have "mant (round53 m e) = (if 2 * r > u \<or> (2 * r = u \<and> odd q) then q + 1 else q)
      \<or> (u = 1 \<and> mant (round53 m e) = m)"
    by (simp add: round53_def Let_def q_def r_def u_def)
  then show ?thesis using r by (auto simp: m algebra_simps)
qed

lemma mant_round53_nonneg: "0 \<le> m \<Longrightarrow> 0 \<le> mant (round53 m e)"
  by (simp add: round53_def Let_def pos_imp_zdiv_nonneg_iff add_nonneg_nonneg)

lemma f64_of_int_exact: "0 \<le> n \<Longrightarrow> n < 2 ^ 53 \<Longrightarrow> f64_of_int n = F64 n 0"
  using bitlen_le_iff [of n 53] by (simp add: f64_of_int_def round53_def Let_def)

subsection \<open>Comparing a quotient with two\<close>

lemma int_le_div:
  assumes "0 < (b::int)" "x * b \<le> n"
  shows "x \<le> n div b"
  using zdiv_mono1 [OF assms(2,1)] assms(1) by simp

lemma bitlen_lower: "0 < n \<Longrightarrow> 2 ^ (bitlen n - 1) \<le> n"
  using bitlen_le_iff [of n "bitlen n - 1"] bitlen_pos [of n] by auto

text \<open>A value that is at least a power of two stays so when it is rounded, and one that is well below
  it stays below.\<close>

lemma round53_ge_power:
  assumes "2 ^ t \<le> m"
  shows "2 ^ t \<le> mant (round53 m e) * 2 ^ (bitlen m - 53)"
proof -
  let ?s = "bitlen m - 53"
  have pos: "0 < m" using assms by (meson order_less_le_trans zero_less_numeral zero_less_power)
  have "t < bitlen m" using bitlen_le_iff [of m t] assms pos by linarith
  then have "(2::int) ^ t \<le> 2 ^ (bitlen m - 1)" by (intro power_increasing) auto
  also have "\<dots> \<le> (m div 2 ^ ?s) * 2 ^ ?s"
  proof (cases "?s = 0")
    case True
    then show ?thesis using bitlen_lower [OF pos] by simp
  next
    case False
    then have "bitlen m - 1 = 52 + ?s" by simp
    then have "(2::int) ^ (bitlen m - 1) = 2 ^ 52 * 2 ^ ?s" by (simp only: power_add)
    with bitlen_lower [OF pos] have "2 ^ 52 \<le> m div 2 ^ ?s"
      by (intro int_le_div) simp_all
    then show ?thesis using \<open>(2::int) ^ (bitlen m - 1) = 2 ^ 52 * 2 ^ ?s\<close> by simp
  qed
  also have "\<dots> \<le> mant (round53 m e) * 2 ^ ?s"
    by (intro mult_right_mono) (auto simp: round53_def Let_def)
  finally show ?thesis .
qed

lemma round53_less_power:
  assumes "0 \<le> m" "m + 2 ^ t < 2 ^ (t + 54)"
  shows "mant (round53 m e) * 2 ^ (bitlen m - 53) < 2 ^ (t + 54)"
proof -
  have "m < 2 ^ (t + 54)" using assms(2) zero_less_power [of "2::int" t] by linarith
  then have "bitlen m \<le> t + 54" using bitlen_le_iff [of m "t + 54"] assms(1) by simp
  then have "(2::int) ^ (bitlen m - 53) \<le> 2 ^ (t + 1)" by (intro power_increasing) auto
  then have "2 * (mant (round53 m e) * 2 ^ (bitlen m - 53)) \<le> 2 * m + 2 ^ (t + 1)"
    using round53_error [OF assms(1), of e] by (simp add: abs_le_iff algebra_simps)
  with assms(2) show ?thesis by simp
qed

text \<open>The quotient of two sizes is below 2 in floating point exactly when it is.\<close>

lemma f64_quotient_less_two:
  assumes a: "0 \<le> a" "a < 2 ^ 53" and b: "0 < b" "b < 2 ^ 52"
  shows "f64_less (f64_div (f64_of_int a) (f64_of_int b)) (F64 2 0) \<longleftrightarrow> a < 2 * b"
proof -
  define l where "l = bitlen b"
  define k where "k = 55 + l"
  define q where "q = a * 2 ^ k div b"
  define m where "m = 2 * q + (if a * 2 ^ k mod b = 0 then 0 else 1)"
  have l: "l \<le> 52" "b < 2 ^ l"
    using b bitlen_le_iff [of b 52] bitlen_le_iff [of b l] by (simp_all add: l_def)
  have r: "0 \<le> a * 2 ^ k mod b" "a * 2 ^ k mod b < b" using b by simp_all
  have "q * b + a * 2 ^ k mod b = a * 2 ^ k" unfolding q_def by (rule div_mult_mod_eq)
  with r have q: "q * b \<le> a * 2 ^ k" by linarith
  have q0: "0 \<le> q" using a b by (simp add: q_def pos_imp_zdiv_nonneg_iff)
  have m: "2 * q \<le> m" "m \<le> 2 * q + 1" "0 \<le> m" using q0 by (simp_all add: m_def)
  have div: "f64_div (f64_of_int a) (f64_of_int b) = round53 m (- int k - 1)"
    using a b by (simp add: f64_div_def f64_of_int_exact Let_def k_def l_def q_def m_def)
  let ?s = "bitlen m - 53"
  have s: "?s \<le> k + 1"
  proof -
    have "q * b \<le> a * 2 ^ k * b" using q a b by (smt (verit) mult_le_cancel_left1 mult_nonneg_nonneg zero_le_power)
    then have "q \<le> a * 2 ^ k" using b by simp
    also have "\<dots> < 2 ^ 53 * 2 ^ k" using a by simp
    finally have "m < 2 ^ (54 + k)" using m by (simp add: power_add)
    then show ?thesis using bitlen_le_iff [OF m(3), of "54 + k"] by simp
  qed
  then have "f64_less (round53 m (- int k - 1)) (F64 2 0) \<longleftrightarrow> mant (round53 m (- int k - 1)) < 2 * 2 ^ (k + 1 - ?s)"
    by (simp add: f64_less_def expo_round53 nat_diff_distrib nat_add_distrib algebra_simps)
  also have "\<dots> \<longleftrightarrow> mant (round53 m (- int k - 1)) * 2 ^ ?s < 2 * 2 ^ (k + 1 - ?s) * 2 ^ ?s"
    by simp
  also have "(2::int) * 2 ^ (k + 1 - ?s) * 2 ^ ?s = 2 ^ (k + 2)"
    using s by (simp add: power_add [symmetric] mult.assoc del: power_Suc flip: power_Suc)
  also have "mant (round53 m (- int k - 1)) * 2 ^ ?s < 2 ^ (k + 2) \<longleftrightarrow> a < 2 * b"
  proof
    assume "a < 2 * b"
    then have "a * 2 ^ k \<le> (2 * b - 1) * 2 ^ k" by (intro mult_right_mono) auto
    with q have le: "q * b \<le> 2 * b * 2 ^ k - 2 ^ k" by (simp add: algebra_simps)
    have "2 ^ 55 * b \<le> 2 ^ k" using l(2) by (simp add: k_def power_add)
    with le have "(q + 2 ^ 55) * b \<le> 2 ^ (k + 1) * b" by (simp add: algebra_simps)
    then have "q + 2 ^ 55 \<le> 2 ^ (k + 1)" using b(1) by (simp only: mult_le_cancel_right_pos)
    then have "m + 2 ^ 55 < 2 ^ (k + 2)" using m(2) by simp
    moreover have "(2::int) ^ (k - 52) \<le> 2 ^ 55" using l(1) by (intro power_increasing) (simp_all add: k_def)
    moreover have "k - 52 + 54 = k + 2" by (simp add: k_def)
    ultimately have "m + 2 ^ (k - 52) < 2 ^ (k - 52 + 54)" by simp
    from round53_less_power [OF m(3) this, of "- int k - 1"] \<open>k - 52 + 54 = k + 2\<close>
    show "mant (round53 m (- int k - 1)) * 2 ^ ?s < 2 ^ (k + 2)" by simp
  next
    assume *: "mant (round53 m (- int k - 1)) * 2 ^ ?s < 2 ^ (k + 2)"
    show "a < 2 * b"
    proof (rule ccontr)
      assume "\<not> a < 2 * b"
      then have "2 * b * 2 ^ k \<le> a * 2 ^ k" by (intro mult_right_mono) auto
      then have "2 ^ (k + 1) \<le> q" unfolding q_def using b by (intro int_le_div) (simp_all add: ac_simps)
      then have "2 ^ (k + 2) \<le> m" using m by simp
      from round53_ge_power [OF this, of "- int k - 1"] * show False by linarith
    qed
  qed
  finally show ?thesis unfolding div .
qed

end
