(* ===== verification/Options.thy ===== *)
theory Options
  imports Go_Float
begin

text \<open>
  The options of \<^verbatim>\<open>options.go\<close>: their types, the defaults and how zero fields are filled in.  A \<^verbatim>\<open>float64\<close>
  is zero when its mantissa is.
\<close>

type_synonym SyncMode = string
type_synonym CompactionStrategy = string

definition SyncFull :: SyncMode where "SyncFull = ''full''"
definition SyncBatched :: SyncMode where "SyncBatched = ''batched''"
definition SyncNone :: SyncMode where "SyncNone = ''none''"

definition SizeTiered :: CompactionStrategy where "SizeTiered = ''size-tiered''"
definition LevelBased :: CompactionStrategy where "LevelBased = ''level-based''"

record Options =
  o_Dir :: string
  o_MemTableSize :: int
  o_SyncMode :: SyncMode
  o_SyncIntervalMs :: int
  o_CompactionStrategy :: CompactionStrategy
  o_SizeTieredThreshold :: int
  o_BloomFPRate :: f64
  o_BlockSize :: int
  o_MaxOpenFiles :: int

text \<open>The constant \<^verbatim>\<open>0.01\<close> is the nearest double.\<close>

definition DefaultOptions :: Options where
  "DefaultOptions = \<lparr>o_Dir = '''', o_MemTableSize = 4 * 1024 * 1024, o_SyncMode = SyncFull, o_SyncIntervalMs = 100,
     o_CompactionStrategy = SizeTiered, o_SizeTieredThreshold = 4, o_BloomFPRate = F64 5764607523034235 (- 59),
     o_BlockSize = 4096, o_MaxOpenFiles = 500\<rparr>"

definition withDefaults :: "Options \<Rightarrow> Options" where
  "withDefaults o1 =
     (let d = DefaultOptions;
          o1 = (if o_MemTableSize o1 = 0 then o1\<lparr>o_MemTableSize := o_MemTableSize d\<rparr> else o1);
          o1 = (if o_SyncMode o1 = '''' then o1\<lparr>o_SyncMode := o_SyncMode d\<rparr> else o1);
          o1 = (if o_SyncIntervalMs o1 = 0 then o1\<lparr>o_SyncIntervalMs := o_SyncIntervalMs d\<rparr> else o1);
          o1 = (if o_CompactionStrategy o1 = '''' then o1\<lparr>o_CompactionStrategy := o_CompactionStrategy d\<rparr> else o1);
          o1 = (if o_SizeTieredThreshold o1 = 0 then o1\<lparr>o_SizeTieredThreshold := o_SizeTieredThreshold d\<rparr> else o1);
          o1 = (if mant (o_BloomFPRate o1) = 0 then o1\<lparr>o_BloomFPRate := o_BloomFPRate d\<rparr> else o1);
          o1 = (if o_BlockSize o1 = 0 then o1\<lparr>o_BlockSize := o_BlockSize d\<rparr> else o1);
          o1 = (if o_MaxOpenFiles o1 = 0 then o1\<lparr>o_MaxOpenFiles := o_MaxOpenFiles d\<rparr> else o1)
      in o1)"

subsection \<open>Filled options\<close>

text \<open>Options in which no field but the directory is zero.\<close>

definition filled :: "Options \<Rightarrow> bool" where
  "filled o1 \<longleftrightarrow> o_MemTableSize o1 \<noteq> 0 \<and> o_SyncMode o1 \<noteq> '''' \<and> o_SyncIntervalMs o1 \<noteq> 0 \<and>
     o_CompactionStrategy o1 \<noteq> '''' \<and> o_SizeTieredThreshold o1 \<noteq> 0 \<and> mant (o_BloomFPRate o1) \<noteq> 0 \<and>
     o_BlockSize o1 \<noteq> 0 \<and> o_MaxOpenFiles o1 \<noteq> 0"

lemmas default_simps = DefaultOptions_def SyncFull_def SizeTiered_def

lemma withDefaults_fields [simp]:
  "o_Dir (withDefaults o1) = o_Dir o1"
  "o_MemTableSize (withDefaults o1) = (if o_MemTableSize o1 = 0 then 4194304 else o_MemTableSize o1)"
  "o_SyncMode (withDefaults o1) = (if o_SyncMode o1 = '''' then SyncFull else o_SyncMode o1)"
  "o_SyncIntervalMs (withDefaults o1) = (if o_SyncIntervalMs o1 = 0 then 100 else o_SyncIntervalMs o1)"
  "o_CompactionStrategy (withDefaults o1) = (if o_CompactionStrategy o1 = '''' then SizeTiered else o_CompactionStrategy o1)"
  "o_SizeTieredThreshold (withDefaults o1) = (if o_SizeTieredThreshold o1 = 0 then 4 else o_SizeTieredThreshold o1)"
  "o_BloomFPRate (withDefaults o1) = (if mant (o_BloomFPRate o1) = 0 then o_BloomFPRate DefaultOptions else o_BloomFPRate o1)"
  "o_BlockSize (withDefaults o1) = (if o_BlockSize o1 = 0 then 4096 else o_BlockSize o1)"
  "o_MaxOpenFiles (withDefaults o1) = (if o_MaxOpenFiles o1 = 0 then 500 else o_MaxOpenFiles o1)"
  by (simp_all add: withDefaults_def Let_def DefaultOptions_def)

lemma withDefaults_filled: "filled (withDefaults o1)"
  by (simp add: filled_def default_simps)

lemma filled_fixed: "filled o1 \<Longrightarrow> withDefaults o1 = o1"
  by (simp add: withDefaults_def Let_def filled_def)

subsection \<open>Property\<close>

text \<open>C38. Every field by itself: filling in the defaults gives a field that was zero its default and leaves a field
  that was set as it is, whatever the other fields are; the directory is kept.  The result has no zero field, so
  that filling in the defaults again changes nothing.\<close>

theorem defaults_fill_zero_fields:
  "o_Dir (withDefaults o1) = o_Dir o1 \<and>
   o_MemTableSize (withDefaults o1) = (if o_MemTableSize o1 = 0 then 4 * 1024 * 1024 else o_MemTableSize o1) \<and>
   o_SyncMode (withDefaults o1) = (if o_SyncMode o1 = '''' then SyncFull else o_SyncMode o1) \<and>
   o_SyncIntervalMs (withDefaults o1) = (if o_SyncIntervalMs o1 = 0 then 100 else o_SyncIntervalMs o1) \<and>
   o_CompactionStrategy (withDefaults o1) = (if o_CompactionStrategy o1 = '''' then SizeTiered else o_CompactionStrategy o1) \<and>
   o_SizeTieredThreshold (withDefaults o1) = (if o_SizeTieredThreshold o1 = 0 then 4 else o_SizeTieredThreshold o1) \<and>
   o_BloomFPRate (withDefaults o1) = (if mant (o_BloomFPRate o1) = 0 then o_BloomFPRate DefaultOptions else o_BloomFPRate o1) \<and>
   o_BlockSize (withDefaults o1) = (if o_BlockSize o1 = 0 then 4096 else o_BlockSize o1) \<and>
   o_MaxOpenFiles (withDefaults o1) = (if o_MaxOpenFiles o1 = 0 then 500 else o_MaxOpenFiles o1) \<and>
   filled (withDefaults o1) \<and> withDefaults (withDefaults o1) = withDefaults o1"
  by (simp add: withDefaults_filled filled_fixed)

end
