(* ===== verification/Crc32.thy ===== *)
theory Crc32
  imports Vault_Prelude
begin

text \<open>
  The CRC-32/IEEE checksum of \<^verbatim>\<open>hash/crc32\<close>, which the log and the SSTable blocks store:
  \<^verbatim>\<open>MakeTable(IEEE)\<close>, the byte-wise update and \<^verbatim>\<open>Checksum\<close>.  The lemmas show that the
  update loses nothing (it is injective in the register and in the byte), so that two messages
  that differ in exactly one byte never have the same checksum.
\<close>

subsection \<open>The checksum\<close>

definition crc32_IEEE :: u32 where
  "crc32_IEEE = 0xedb88320"

text \<open>One of the eight bit steps of \<^verbatim>\<open>MakeTable\<close>.\<close>

definition crc_shift :: "u32 \<Rightarrow> u32" where
  "crc_shift c = (if bit c 0 then drop_bit 1 c XOR crc32_IEEE else drop_bit 1 c)"

definition crc_table :: "byte \<Rightarrow> u32" where
  "crc_table i = (crc_shift ^^ 8) (ucast i)"

definition crc_byte :: "byte \<Rightarrow> u32 \<Rightarrow> u32" where
  "crc_byte v crc = crc_table (ucast crc XOR v) XOR drop_bit 8 crc"

definition crc32_Checksum :: "bytes \<Rightarrow> u32" where
  "crc32_Checksum data = NOT (fold crc_byte data (NOT 0))"

subsection \<open>Evaluation\<close>

lemma crc_table_unfold:
  "crc_table i = crc_shift (crc_shift (crc_shift (crc_shift
     (crc_shift (crc_shift (crc_shift (crc_shift (ucast i))))))))"
  by (simp add: crc_table_def numeral_eq_Suc)

lemma crc32_Checksum_start: "crc32_Checksum data = NOT (fold crc_byte data 0xffffffff)"
proof -
  have "(NOT 0 :: u32) = 0xffffffff" by simp
  then show ?thesis by (simp only: crc32_Checksum_def)
qed

lemmas crc_eval = crc32_Checksum_start crc_byte_def crc_table_unfold crc_shift_def crc32_IEEE_def

text \<open>The check value of CRC-32/IEEE, the checksum of the ASCII digits 1 to 9.\<close>

lemma crc32_check_value:
  "crc32_Checksum [0x31, 0x32, 0x33, 0x34, 0x35, 0x36, 0x37, 0x38, 0x39] = 0xcbf43926"
  by (simp add: crc_eval)

subsection \<open>The update is injective\<close>

lemma xor_right_cancel: "a XOR c = b XOR c \<longleftrightarrow> a = (b :: 'a::len word)"
proof
  assume "a XOR c = b XOR c"
  then have "(a XOR c) XOR c = (b XOR c) XOR c" by simp
  then show "a = b" by (simp add: xor.assoc)
qed simp

lemma xor_left_cancel: "c XOR a = c XOR b \<longleftrightarrow> a = (b :: 'a::len word)"
  by (metis xor_right_cancel xor.commute)

lemma crc_shift_xor: "crc_shift (a XOR b) = crc_shift a XOR crc_shift b"
  by (rule bit_eqI) (auto simp: crc_shift_def bit_xor_iff bit_drop_bit_eq)

lemma crc_shift_pow_xor: "(crc_shift ^^ n) (a XOR b) = (crc_shift ^^ n) a XOR (crc_shift ^^ n) b"
  by (induction n) (simp_all add: crc_shift_xor)

lemma crc_shift_top: "bit (crc_shift c) 31 \<longleftrightarrow> bit c 0"
proof -
  have "bit crc32_IEEE 31" by (simp add: crc32_IEEE_def)
  moreover have "\<not> bit c 32" using bit_imp_le_length [of c 32] by auto
  ultimately show ?thesis by (auto simp: crc_shift_def bit_xor_iff bit_drop_bit_eq)
qed

lemma crc_shift_inj: "crc_shift a = crc_shift b \<Longrightarrow> a = b"
proof (rule bit_eqI)
  fix i assume eq: "crc_shift a = crc_shift b"
  from eq have b0: "bit a 0 = bit b 0" using crc_shift_top by metis
  with eq have d: "drop_bit 1 a = drop_bit 1 b"
    by (cases "bit b 0") (simp_all add: crc_shift_def xor_right_cancel)
  show "bit a i = bit b i"
  proof (cases i)
    case 0
    with b0 show ?thesis by simp
  next
    case (Suc j)
    from d have "bit (drop_bit 1 a) j = bit (drop_bit 1 b) j" by simp
    with Suc show ?thesis by (simp add: bit_drop_bit_eq)
  qed
qed

lemma crc_shift_pow_inj: "(crc_shift ^^ n) a = (crc_shift ^^ n) b \<Longrightarrow> a = b"
  by (induction n) (auto dest: crc_shift_inj)

lemma crc_shift_pow_high: "\<forall>i<n. \<not> bit c i \<Longrightarrow> (crc_shift ^^ n) c = drop_bit n c"
proof (induction n)
  case 0
  then show ?case by simp
next
  case (Suc n)
  then have "(crc_shift ^^ n) c = drop_bit n c" by simp
  with Suc.prems show ?case by (simp add: crc_shift_def [of "drop_bit n c"] bit_drop_bit_eq)
qed

lemma crc_byte_alt: "crc_byte v crc = (crc_shift ^^ 8) (crc XOR ucast v)"
proof -
  let ?low = "ucast (ucast crc :: byte) :: u32" and ?high = "push_bit 8 (drop_bit 8 crc)"
  have split: "crc = ?low XOR ?high"
    by (rule bit_eqI) (auto simp: bit_xor_iff bit_ucast_iff bit_push_bit_iff bit_drop_bit_eq)
  have low: "ucast (ucast crc XOR v :: byte) = ?low XOR (ucast v :: u32)"
    by (rule bit_eqI) (auto simp: bit_xor_iff bit_ucast_iff)
  have high: "(crc_shift ^^ 8) ?high = drop_bit 8 crc"
  proof -
    have "(crc_shift ^^ 8) ?high = drop_bit 8 ?high"
      by (rule crc_shift_pow_high) (simp add: bit_push_bit_iff)
    also have "\<dots> = drop_bit 8 crc"
      by (rule bit_eqI) (auto simp: bit_push_bit_iff bit_drop_bit_eq dest: bit_imp_le_length)
    finally show ?thesis .
  qed
  have "(crc_shift ^^ 8) (crc XOR ucast v) = (crc_shift ^^ 8) ((?low XOR ucast v) XOR ?high)"
    by (subst split) (simp add: xor.assoc xor.commute xor.left_commute)
  also have "\<dots> = (crc_shift ^^ 8) (?low XOR ucast v) XOR drop_bit 8 crc"
    by (simp only: crc_shift_pow_xor high)
  finally show ?thesis by (simp add: crc_byte_def crc_table_def low)
qed

lemma crc_byte_inj_reg: "crc_byte v a = crc_byte v b \<Longrightarrow> a = b"
  by (auto simp: crc_byte_alt xor_right_cancel dest: crc_shift_pow_inj)

lemma ucast_byte_inj: "(ucast v :: u32) = ucast w \<Longrightarrow> v = (w :: byte)"
proof (rule bit_eqI)
  fix i assume "(ucast v :: u32) = ucast w" "possible_bit TYPE(byte) i"
  then have "bit (ucast v :: u32) i = bit (ucast w :: u32) i" "i < 8"
    by (simp_all add: possible_bit_word)
  then show "bit v i = bit w i" by (simp add: bit_ucast_iff)
qed

lemma crc_byte_inj_byte: "crc_byte v a = crc_byte w a \<Longrightarrow> v = w"
  by (auto simp: crc_byte_alt xor_left_cancel dest!: crc_shift_pow_inj ucast_byte_inj)

lemma fold_crc_byte_inj: "fold crc_byte bs a = fold crc_byte bs b \<Longrightarrow> a = b"
  by (induction bs arbitrary: a b) (auto dest: crc_byte_inj_reg)

lemma crc32_detects: "v \<noteq> w \<Longrightarrow> crc32_Checksum (pre @ v # post) \<noteq> crc32_Checksum (pre @ w # post)"
  by (auto simp: crc32_Checksum_def dest!: fold_crc_byte_inj crc_byte_inj_byte)

end
