(* ===== verification/Wal.thy ===== *)
theory Wal
  imports Crc32
begin

text \<open>
  The write-ahead log of \<^verbatim>\<open>internal/wal/wal.go\<close>.  The log file is its contents and the number of
  leading bytes that an \<^verbatim>\<open>fsync\<close> has made durable; a crash keeps some prefix that contains those.
  Failures of the operating system are an argument of every operation that calls it.  The lemmas
  show that appended records are replayed in order, that a crash in the middle of an append loses no
  acknowledged record, and that a corrupted byte stops the replay at the record before it.
\<close>

subsection \<open>Files and their failures\<close>

text \<open>Which calls fail: a write after some of its bytes, the reads at some offsets, and the others.\<close>

record faults =
  open_fails :: bool
  write_stops :: "nat option"
  sync_fails :: bool
  seek_fails :: bool
  read_fails :: "nat \<Rightarrow> bool"
  trunc_fails :: bool
  close_fails :: bool

definition no_faults :: faults where
  "no_faults = \<lparr>open_fails = False, write_stops = None, sync_fails = False, seek_fails = False,
     read_fails = (\<lambda>_. False), trunc_fails = False, close_fails = False\<rparr>"

definition EIO :: error where "EIO = Err ''input/output error''"
definition ErrClosed :: error where "ErrClosed = Err ''file already closed''"
definition EOF :: error where "EOF = Err ''EOF''"

text \<open>Writes go to the end of the file (it is opened with \<^verbatim>\<open>O_APPEND\<close>) and every replay seeks to the
  start first, so the file cursor is not part of the state.  \<open>wal_synced\<close> is the number of first bytes that an \<^verbatim>\<open>fsync\<close> since
  the log was opened is known to have made durable.\<close>

record WAL =
  wal_data :: bytes
  wal_synced :: nat
  wal_closed :: bool
  wal_path :: string
  wal_SyncOnAppend :: bool

definition file_Write :: "faults \<Rightarrow> bytes \<Rightarrow> WAL \<Rightarrow> error option \<times> WAL" where
  "file_Write ft buf w =
     (if wal_closed w then (Some ErrClosed, w)
      else case write_stops ft of
          None \<Rightarrow> (None, w\<lparr>wal_data := wal_data w @ buf\<rparr>)
        | Some n \<Rightarrow> (Some EIO, w\<lparr>wal_data := wal_data w @ take n buf\<rparr>))"

definition file_Sync :: "faults \<Rightarrow> WAL \<Rightarrow> error option \<times> WAL" where
  "file_Sync ft w =
     (if wal_closed w then (Some ErrClosed, w)
      else if sync_fails ft then (Some EIO, w)
      else (None, w\<lparr>wal_synced := length (wal_data w)\<rparr>))"

definition file_Seek :: "faults \<Rightarrow> WAL \<Rightarrow> error option" where
  "file_Seek ft w =
     (if wal_closed w then Some ErrClosed else if seek_fails ft then Some EIO else None)"

definition file_Truncate :: "faults \<Rightarrow> nat \<Rightarrow> WAL \<Rightarrow> error option \<times> WAL" where
  "file_Truncate ft n w =
     (if wal_closed w then (Some ErrClosed, w)
      else if trunc_fails ft then (Some EIO, w)
      else (None, w\<lparr>wal_data := take n (wal_data w), wal_synced := min n (wal_synced w)\<rparr>))"

definition file_Close :: "faults \<Rightarrow> WAL \<Rightarrow> error option \<times> WAL" where
  "file_Close ft w =
     (if wal_closed w then (Some ErrClosed, w)
      else if close_fails ft then (Some EIO, w\<lparr>wal_closed := True\<rparr>)
      else (None, w\<lparr>wal_closed := True\<rparr>))"

text \<open>\<^verbatim>\<open>io.ReadFull\<close>: no byte read is \<^verbatim>\<open>io.EOF\<close>, some but not all is \<^verbatim>\<open>io.ErrUnexpectedEOF\<close>, and an
  empty buffer is always filled.\<close>

datatype read_result = ReadOk bytes | ReadEOF | ReadUnexpectedEOF | ReadErr error

definition ReadFull :: "faults \<Rightarrow> bytes \<Rightarrow> nat \<Rightarrow> nat \<Rightarrow> read_result" where
  "ReadFull ft data pos n =
     (if n = 0 then ReadOk []
      else if read_fails ft pos then ReadErr EIO
      else if length data \<le> pos then ReadEOF
      else if length data < pos + n then ReadUnexpectedEOF
      else ReadOk (sub data pos n))"

lemma ReadFull_length: "ReadFull ft data pos n = ReadOk b \<Longrightarrow> 0 < n \<Longrightarrow> pos + n \<le> length data"
  by (simp add: ReadFull_def split: if_splits)

subsection \<open>Records\<close>

type_synonym OpCode = byte

definition OpSet :: OpCode where "OpSet = 0x53"
definition OpDelete :: OpCode where "OpDelete = 0x44"
definition recordHeaderSize :: nat where "recordHeaderSize = 13"
definition walFileName :: string where "walFileName = ''WALFILE''"

record Record =
  rec_Op :: OpCode
  rec_Key :: bytes
  rec_Value :: slice

text \<open>The buffer that \<^verbatim>\<open>Append\<close> fills.  The lengths are 32-bit, and so is the sum \<^verbatim>\<open>13+keyLen\<close> that
  places the value.\<close>

definition encode_record :: "Record \<Rightarrow> bytes" where
  "encode_record rec =
     (let keyLen = of_nat (length (rec_Key rec)) :: u32;
          valLen = of_nat (length (slice_bytes (rec_Value rec))) :: u32;
          buf = replicate (recordHeaderSize + unat keyLen + unat valLen) 0;
          buf = copy_at buf 4 [rec_Op rec];
          buf = copy_at buf 5 (PutUint32 keyLen);
          buf = copy_at buf 9 (PutUint32 valLen);
          buf = copy_at buf 13 (rec_Key rec);
          buf = copy_at buf (unat (13 + keyLen)) (slice_bytes (rec_Value rec));
          checksum = crc32_Checksum (drop 4 buf)
      in copy_at buf 0 (PutUint32 checksum))"

subsection \<open>The log\<close>

text \<open>\<^verbatim>\<open>Open\<close> does not sync: nothing is known of how much of an existing file is durable.\<close>

definition Open :: "faults \<Rightarrow> string \<Rightarrow> bool \<Rightarrow> bytes option \<Rightarrow> error + WAL" where
  "Open ft dir syncOnAppend file =
     (if open_fails ft then Inl (Wrap ''wal: open '' EIO)
      else let data = (case file of None \<Rightarrow> [] | Some d \<Rightarrow> d) in
        Inr \<lparr>wal_data = data, wal_synced = 0, wal_closed = False,
             wal_path = dir @ ''/'' @ walFileName, wal_SyncOnAppend = syncOnAppend\<rparr>)"

definition Append :: "faults \<Rightarrow> Record \<Rightarrow> WAL \<Rightarrow> error option \<times> WAL" where
  "Append ft rec w =
     (case file_Write ft (encode_record rec) w of
        (Some e, w') \<Rightarrow> (Some (Wrap ''wal: write record: '' e), w')
      | (None, w') \<Rightarrow>
          if wal_SyncOnAppend w' then
            (case file_Sync ft w' of
               (Some e, w'') \<Rightarrow> (Some (Wrap ''wal: fsync: '' e), w'')
             | (None, w'') \<Rightarrow> (None, w''))
          else (None, w'))"

definition Sync :: "faults \<Rightarrow> WAL \<Rightarrow> error option \<times> WAL" where
  "Sync ft w =
     (case file_Sync ft w of
        (Some e, w') \<Rightarrow> (Some (Wrap ''wal: sync: '' e), w')
      | (None, w') \<Rightarrow> (None, w'))"

definition Close :: "faults \<Rightarrow> WAL \<Rightarrow> error option \<times> WAL" where
  "Close ft w =
     (case file_Sync ft w of
        (Some e, w') \<Rightarrow> (Some (Wrap ''wal: close sync: '' e), w')
      | (None, w') \<Rightarrow>
          (case file_Close ft w' of
             (Some e, w'') \<Rightarrow> (Some (Wrap ''wal: close: '' e), w'')
           | (None, w'') \<Rightarrow> (None, w'')))"

definition truncateAt :: "faults \<Rightarrow> nat \<Rightarrow> WAL \<Rightarrow> error option \<times> WAL" where
  "truncateAt ft offset w =
     (case file_Truncate ft offset w of
        (Some e, w') \<Rightarrow> (Some (Wrap ''wal: truncate at '' e), w')
      | (None, w') \<Rightarrow>
          (case file_Seek ft w' of
             Some e \<Rightarrow> (Some (Wrap ''wal: seek after truncate: '' e), w')
           | None \<Rightarrow> (None, w')))"

text \<open>The loop of \<^verbatim>\<open>Replay\<close> leaves by \<^verbatim>\<open>break\<close>, by \<^verbatim>\<open>break\<close> after a truncation at an offset, or by
  returning an error.  The callback works on a state of the caller.\<close>

datatype 's replay_end = Break 's | Truncate nat 's | Fail error 's

type_synonym 's callback = "'s \<Rightarrow> Record \<Rightarrow> error option \<times> 's"

function replay_loop :: "faults \<Rightarrow> 's callback \<Rightarrow> bytes \<Rightarrow> nat \<Rightarrow> 's \<Rightarrow> 's replay_end" where
  "replay_loop ft fn data offset s =
     (case ReadFull ft data offset recordHeaderSize of
        ReadEOF \<Rightarrow> Break s
      | ReadUnexpectedEOF \<Rightarrow> Break s
      | ReadErr e \<Rightarrow> Fail (Wrap ''wal: replay read header: '' e) s
      | ReadOk header \<Rightarrow>
          (let storedCRC = Uint32 (sub header 0 4);
               op = header ! 4;
               keyLen = Uint32 (sub header 5 4);
               valLen = Uint32 (sub header 9 4)
           in if op \<noteq> OpSet \<and> op \<noteq> OpDelete then Truncate offset s
              else
                (case ReadFull ft data (offset + recordHeaderSize) (unat keyLen + unat valLen) of
                   ReadUnexpectedEOF \<Rightarrow> Truncate offset s
                 | ReadEOF \<Rightarrow> Fail (Wrap ''wal: replay read payload: '' EOF) s
                 | ReadErr e \<Rightarrow> Fail (Wrap ''wal: replay read payload: '' e) s
                 | ReadOk payload \<Rightarrow>
                     (let checksumData = op # PutUint32 keyLen @ PutUint32 valLen @ payload
                      in if crc32_Checksum checksumData \<noteq> storedCRC then Truncate offset s
                         else
                           let rec = \<lparr>rec_Op = op, rec_Key = take (unat keyLen) payload,
                                 rec_Value = (if op = OpSet then Some (drop (unat keyLen) payload)
                                              else None)\<rparr>
                           in (case fn s rec of
                                 (Some e, s') \<Rightarrow> Fail (Wrap ''wal: replay callback: '' e) s'
                               | (None, s') \<Rightarrow>
                                   replay_loop ft fn data
                                     (offset + recordHeaderSize + unat keyLen + unat valLen) s')))))"
  by pat_completeness auto
termination
  by (relation "measure (\<lambda>(ft, fn, data, offset, s). length data - offset)")
    (auto dest: ReadFull_length simp: recordHeaderSize_def)

declare replay_loop.simps [simp del]

definition replay_finish :: "faults \<Rightarrow> WAL \<Rightarrow> 's \<Rightarrow> error option \<times> WAL \<times> 's" where
  "replay_finish ft w s =
     (case file_Seek ft w of
        Some e \<Rightarrow> (Some (Wrap ''wal: replay seek to end: '' e), w, s)
      | None \<Rightarrow> (None, w, s))"

definition Replay :: "faults \<Rightarrow> 's callback \<Rightarrow> WAL \<Rightarrow> 's \<Rightarrow> error option \<times> WAL \<times> 's" where
  "Replay ft fn w s =
     (case file_Seek ft w of
        Some e \<Rightarrow> (Some (Wrap ''wal: replay seek: '' e), w, s)
      | None \<Rightarrow>
          (case replay_loop ft fn (wal_data w) 0 s of
             Fail e s' \<Rightarrow> (Some e, w, s')
           | Break s' \<Rightarrow> replay_finish ft w s'
           | Truncate offset s' \<Rightarrow>
               (case truncateAt ft offset w of
                  (Some e, w') \<Rightarrow> (Some e, w', s')
                | (None, w') \<Rightarrow> replay_finish ft w' s')))"

subsection \<open>The bytes of a record\<close>

definition payload :: "Record \<Rightarrow> bytes" where
  "payload r = rec_Op r # PutUint32 (of_nat (length (rec_Key r)))
     @ PutUint32 (of_nat (length (slice_bytes (rec_Value r)))) @ rec_Key r @ slice_bytes (rec_Value r)"

definition wf_record :: "Record \<Rightarrow> bool" where
  "wf_record r \<longleftrightarrow> (rec_Op r = OpSet \<or> rec_Op r = OpDelete) \<and>
     length (rec_Key r) + 13 < 2 ^ 32 \<and> length (slice_bytes (rec_Value r)) < 2 ^ 32"

text \<open>The record as \<^verbatim>\<open>Replay\<close> hands it on: the value of a deletion is \<^verbatim>\<open>nil\<close>, that of a set is not.\<close>

definition replayed :: "Record \<Rightarrow> Record" where
  "replayed r = r\<lparr>rec_Value := (if rec_Op r = OpSet then Some (slice_bytes (rec_Value r)) else None)\<rparr>"

lemma replicate_header:
  "replicate (recordHeaderSize + a + b) x =
     replicate 4 x @ x # replicate 4 x @ replicate 4 x @ replicate a x @ replicate b x"
  by (simp add: recordHeaderSize_def replicate_add eval_nat_numeral)

lemma encode_record_payload:
  assumes "wf_record r"
  shows "encode_record r = PutUint32 (crc32_Checksum (payload r)) @ payload r"
proof -
  let ?k = "length (rec_Key r)" and ?v = "length (slice_bytes (rec_Value r))"
  have k: "unat (of_nat ?k :: u32) = ?k" and v: "unat (of_nat ?v :: u32) = ?v"
    using assms by (simp_all add: wf_record_def le_simps)
  have k13: "unat (13 + of_nat ?k :: u32) = 13 + ?k"
    using assms by (subst unat_add_lem [THEN iffD1]) (auto simp: k wf_record_def)
  show ?thesis
    by (simp add: encode_record_def Let_def k v k13 replicate_header slice_simps payload_def)
qed

lemma length_encode_record: "wf_record r \<Longrightarrow> length (encode_record r) =
    13 + length (rec_Key r) + length (slice_bytes (rec_Value r))"
  by (simp add: encode_record_payload payload_def)

subsection \<open>One turn of the replay loop\<close>

lemma no_faults_simps [simp]:
  "open_fails no_faults = False" "write_stops no_faults = None" "sync_fails no_faults = False"
  "seek_fails no_faults = False" "read_fails no_faults = (\<lambda>_. False)"
  "trunc_fails no_faults = False" "close_fails no_faults = False"
  by (simp_all add: no_faults_def)

lemma ReadFull_front:
  "n \<le> length xs \<Longrightarrow> ReadFull no_faults (pre @ xs @ rest) (length pre) n = ReadOk (take n xs)"
  by (auto simp: ReadFull_def sub_def)

text \<open>The loop at a well-formed header: what it does depends on the bytes that follow.\<close>

definition header :: "u32 \<Rightarrow> OpCode \<Rightarrow> u32 \<Rightarrow> u32 \<Rightarrow> bytes" where
  "header crc op kl vl = PutUint32 crc @ op # PutUint32 kl @ PutUint32 vl"

lemma length_header [simp]: "length (header crc op kl vl) = 13"
  by (simp add: header_def)

lemma encode_record_header:
  "wf_record r \<Longrightarrow> encode_record r =
     header (crc32_Checksum (payload r)) (rec_Op r) (of_nat (length (rec_Key r)))
       (of_nat (length (slice_bytes (rec_Value r)))) @ rec_Key r @ slice_bytes (rec_Value r)"
  by (simp add: encode_record_payload payload_def header_def)

lemma header_fields:
  "sub (header crc op kl vl) 0 4 = PutUint32 crc" "header crc op kl vl ! 4 = op"
  "sub (header crc op kl vl) 5 4 = PutUint32 kl" "sub (header crc op kl vl) 9 4 = PutUint32 vl"
  by (simp_all add: header_def sub_def nth_append)

lemma replay_at_header:
  fixes pre rest :: bytes and crc kl vl :: u32
  assumes "op = OpSet \<or> op = OpDelete"
  defines "data \<equiv> pre @ header crc op kl vl @ rest"
  shows "replay_loop no_faults fn data (length pre) s =
    (case ReadFull no_faults data (length pre + 13) (unat kl + unat vl) of
       ReadUnexpectedEOF \<Rightarrow> Truncate (length pre) s
     | ReadEOF \<Rightarrow> Fail (Wrap ''wal: replay read payload: '' EOF) s
     | ReadErr e \<Rightarrow> Fail (Wrap ''wal: replay read payload: '' e) s
     | ReadOk p \<Rightarrow>
         if crc32_Checksum (op # PutUint32 kl @ PutUint32 vl @ p) \<noteq> crc then Truncate (length pre) s
         else (case fn s \<lparr>rec_Op = op, rec_Key = take (unat kl) p,
                 rec_Value = (if op = OpSet then Some (drop (unat kl) p) else None)\<rparr> of
             (Some e, s') \<Rightarrow> Fail (Wrap ''wal: replay callback: '' e) s'
           | (None, s') \<Rightarrow> replay_loop no_faults fn data (length pre + 13 + unat kl + unat vl) s'))"
proof -
  have rf: "ReadFull no_faults data (length pre) 13 = ReadOk (header crc op kl vl)"
    using ReadFull_front [of 13 "header crc op kl vl" pre rest] by (simp add: data_def)
  have op: "(op \<noteq> OpSet \<and> op \<noteq> OpDelete) = False" using assms(1) by simp
  show ?thesis
    by (subst replay_loop.simps)
      (simp only: rf recordHeaderSize_def header_fields Let_def op read_result.case Uint_Put if_False)
qed

definition replay_turn :: "'s callback \<Rightarrow> Record \<Rightarrow> ('s \<Rightarrow> 's replay_end) \<Rightarrow> 's \<Rightarrow> 's replay_end" where
  "replay_turn fn r next s =
     (case fn s (replayed r) of
        (Some e, s') \<Rightarrow> Fail (Wrap ''wal: replay callback: '' e) s'
      | (None, s') \<Rightarrow> next s')"

lemma ReadFull_payload:
  assumes "wf_record r"
  shows "ReadFull no_faults (pre @ encode_record r @ rest) (length pre + 13)
      (length (rec_Key r) + length (slice_bytes (rec_Value r)))
    = ReadOk (rec_Key r @ slice_bytes (rec_Value r))"
proof -
  have "length pre + 13 = length (pre @ take 13 (encode_record r))"
    by (simp add: length_encode_record [OF assms])
  moreover have "pre @ encode_record r @ rest =
      (pre @ take 13 (encode_record r)) @ (rec_Key r @ slice_bytes (rec_Value r)) @ rest"
    by (simp add: encode_record_header [OF assms])
  ultimately show ?thesis by (metis ReadFull_front length_append order_refl take_all)
qed

lemma replay_loop_turn:
  assumes "wf_record r"
  shows "replay_loop no_faults fn (pre @ encode_record r @ rest) (length pre) =
     replay_turn fn r (replay_loop no_faults fn (pre @ encode_record r @ rest)
        (length pre + length (encode_record r)))"
proof
  fix s
  let ?k = "length (rec_Key r)" and ?v = "length (slice_bytes (rec_Value r))"
  have u: "unat (of_nat ?k :: u32) = ?k" "unat (of_nat ?v :: u32) = ?v"
    and op: "rec_Op r = OpSet \<or> rec_Op r = OpDelete"
    using assms by (simp_all add: wf_record_def le_simps)
  let ?data = "pre @ encode_record r @ rest"
  have data: "?data = pre @ header (crc32_Checksum (payload r)) (rec_Op r) (of_nat ?k) (of_nat ?v)
      @ (rec_Key r @ slice_bytes (rec_Value r) @ rest)"
    by (simp add: encode_record_header [OF assms])
  have rec: "replayed r = \<lparr>rec_Op = rec_Op r, rec_Key = rec_Key r,
      rec_Value = (if rec_Op r = OpSet then Some (slice_bytes (rec_Value r)) else None)\<rparr>"
    by (simp add: replayed_def)
  have off: "length pre + length (encode_record r) = length pre + 13 + ?k + ?v"
    by (simp add: length_encode_record [OF assms])
  have crc: "crc32_Checksum (rec_Op r # PutUint32 (of_nat ?k) @ PutUint32 (of_nat ?v) @
      rec_Key r @ slice_bytes (rec_Value r)) = crc32_Checksum (payload r)"
    by (simp add: payload_def)
  show "replay_loop no_faults fn ?data (length pre) s =
      replay_turn fn r (replay_loop no_faults fn ?data (length pre + length (encode_record r))) s"
    using replay_at_header [OF op, of fn pre "crc32_Checksum (payload r)" "of_nat ?k" "of_nat ?v"
        "rec_Key r @ slice_bytes (rec_Value r) @ rest" s]
      ReadFull_payload [OF assms, of pre rest]
    unfolding data [symmetric] u
    by (simp add: crc rec off replay_turn_def)
qed

interpretation log: framed_scan encode_record wf_record "replay_loop no_faults fn" "replay_turn fn" for fn
  by unfold_locales (rule replay_loop_turn)

subsection \<open>Runs over a whole log\<close>

text \<open>Callbacks that never fail, as the one of the store.\<close>

abbreviation pure_fn :: "('s \<Rightarrow> Record \<Rightarrow> 's) \<Rightarrow> 's callback" where
  "pure_fn g \<equiv> (\<lambda>s r. (None, g s r))"

abbreviation log_bytes :: "Record list \<Rightarrow> bytes" where
  "log_bytes recs \<equiv> concat (map encode_record recs)"

lemma foldr_replay_turn:
  "foldr (replay_turn (pure_fn g)) recs next s = next (foldl g s (map replayed recs))"
  by (induction recs arbitrary: s) (simp_all add: replay_turn_def)

lemma replay_loop_records:
  assumes "list_all wf_record recs"
  shows "replay_loop no_faults (pure_fn g) (log_bytes recs @ t) 0 s =
     replay_loop no_faults (pure_fn g) (log_bytes recs @ t) (length (log_bytes recs))
       (foldl g s (map replayed recs))"
  using log.scan_from_start [OF assms, of "pure_fn g" t] by (simp add: foldr_replay_turn)

lemma replay_loop_short: "length t < 13 \<Longrightarrow> replay_loop no_faults fn (pre @ t) (length pre) s = Break s"
  by (subst replay_loop.simps) (auto simp: ReadFull_def recordHeaderSize_def split: read_result.splits)

text \<open>A torn record: the header is complete, the payload is not.\<close>

lemma replay_loop_torn:
  assumes r: "wf_record r" and n: "13 \<le> n" "n < length (encode_record r)"
  shows "replay_loop no_faults fn (pre @ take n (encode_record r)) (length pre) s =
    (if n = 13 then Fail (Wrap ''wal: replay read payload: '' EOF) s else Truncate (length pre) s)"
proof -
  let ?k = "length (rec_Key r)" and ?v = "length (slice_bytes (rec_Value r))"
  have u: "unat (of_nat ?k :: u32) = ?k" "unat (of_nat ?v :: u32) = ?v"
    and op: "rec_Op r = OpSet \<or> rec_Op r = OpDelete"
    using r by (simp_all add: wf_record_def le_simps)
  let ?hd = "header (crc32_Checksum (payload r)) (rec_Op r) (of_nat ?k) (of_nat ?v)"
  let ?rest = "take (n - 13) (rec_Key r @ slice_bytes (rec_Value r))"
  have data: "take n (encode_record r) = ?hd @ ?rest"
    using n by (simp add: encode_record_header [OF r])
  have len: "length ?rest = n - 13" "n - 13 < ?k + ?v"
    using n by (simp_all add: length_encode_record [OF r])
  have "ReadFull no_faults (pre @ ?hd @ ?rest) (length pre + 13) (?k + ?v) =
      (if n = 13 then ReadEOF else ReadUnexpectedEOF)"
    using len n by (auto simp: ReadFull_def)
  with replay_at_header [OF op, of fn pre "crc32_Checksum (payload r)" "of_nat ?k" "of_nat ?v" ?rest s]
  show ?thesis unfolding u data by simp
qed

text \<open>A record whose checksum field disagrees with its payload.\<close>

lemma replay_loop_bad_crc:
  assumes op: "op = OpSet \<or> op = OpDelete"
    and p: "length p = unat kl + unat vl"
    and crc: "crc32_Checksum (op # PutUint32 kl @ PutUint32 vl @ p) \<noteq> crc"
  shows "replay_loop no_faults fn (pre @ header crc op kl vl @ p @ rest) (length pre) s =
      Truncate (length pre) s"
proof -
  have "ReadFull no_faults ((pre @ header crc op kl vl) @ p @ rest)
      (length (pre @ header crc op kl vl)) (unat kl + unat vl) = ReadOk p"
    by (simp only: ReadFull_front p [symmetric] order_refl take_all)
  with replay_at_header [OF op, of fn pre crc kl vl "p @ rest" s] crc show ?thesis by simp
qed

lemma replay_loop_bad_op:
  assumes "13 \<le> length t" "t ! 4 \<noteq> OpSet" "t ! 4 \<noteq> OpDelete"
  shows "replay_loop no_faults fn (pre @ t) (length pre) s = Truncate (length pre) s"
proof -
  have "ReadFull no_faults (pre @ t) (length pre) 13 = ReadOk (take 13 t)"
    using ReadFull_front [of 13 t pre "[]"] assms(1) by simp
  with assms show ?thesis
    by (subst replay_loop.simps) (simp add: recordHeaderSize_def Let_def)
qed

text \<open>The log file after the loop.\<close>

lemma Replay_open:
  assumes "\<not> wal_closed w"
  shows "Replay no_faults fn w s =
    (case replay_loop no_faults fn (wal_data w) 0 s of
       Break s' \<Rightarrow> (None, w, s')
     | Truncate n s' \<Rightarrow>
         (None, w\<lparr>wal_data := take n (wal_data w), wal_synced := min n (wal_synced w)\<rparr>, s')
     | Fail e s' \<Rightarrow> (Some e, w, s'))"
  using assms
  by (simp add: Replay_def file_Seek_def truncateAt_def file_Truncate_def replay_finish_def
      split: replay_end.split)

subsection \<open>Appending\<close>

fun append_all :: "faults \<Rightarrow> Record list \<Rightarrow> WAL \<Rightarrow> error option \<times> WAL" where
  "append_all ft [] w = (None, w)"
| "append_all ft (r # rs) w =
     (case Append ft r w of (Some e, w') \<Rightarrow> (Some e, w') | (None, w') \<Rightarrow> append_all ft rs w')"

lemma Append_no_faults:
  "\<not> wal_closed w \<Longrightarrow> Append no_faults r w = (None, w\<lparr>wal_data := wal_data w @ encode_record r,
     wal_synced := (if wal_SyncOnAppend w then length (wal_data w @ encode_record r) else wal_synced w)\<rparr>)"
  by (simp add: Append_def file_Write_def file_Sync_def)

lemma append_all_no_faults:
  "\<not> wal_closed w \<Longrightarrow> append_all no_faults rs w = (None, w\<lparr>wal_data := wal_data w @ log_bytes rs,
     wal_synced := (if wal_SyncOnAppend w \<and> rs \<noteq> [] then length (wal_data w @ log_bytes rs)
        else wal_synced w)\<rparr>)"
  by (induction rs arbitrary: w) (auto simp: Append_no_faults)

text \<open>A crash keeps a prefix of the file that contains everything an \<^verbatim>\<open>fsync\<close> covered; the log is
  then opened again.\<close>

definition survives :: "WAL \<Rightarrow> nat \<Rightarrow> bool" where
  "survives w n \<longleftrightarrow> wal_synced w \<le> n \<and> n \<le> length (wal_data w)"

definition crash :: "nat \<Rightarrow> WAL \<Rightarrow> WAL" where
  "crash n w = w\<lparr>wal_data := take n (wal_data w), wal_synced := n, wal_closed := False\<rparr>"

lemma crash_closed [simp]: "wal_closed (crash n w) = False"
  by (simp add: crash_def)

subsection \<open>Properties\<close>

text \<open>C15. Records appended to an empty log without failures are replayed: every one of them, in
  order, with nothing truncated, whatever state the callback works on.\<close>

theorem wal_roundtrip:
  assumes "list_all wf_record recs" "\<not> wal_closed w" "wal_data w = []"
  shows "\<exists>w'. append_all no_faults recs w = (None, w') \<and>
     Replay no_faults (pure_fn g) w' s = (None, w', foldl g s (map replayed recs))"
  using assms replay_loop_records [OF assms(1), of g "[]" s]
    replay_loop_short [of "[]" "pure_fn g" "log_bytes recs"]
  by (simp add: append_all_no_faults Replay_open)

definition wal_example :: WAL where
  "wal_example = \<lparr>wal_data = [], wal_synced = 0, wal_closed = False, wal_path = ''d/WALFILE'',
     wal_SyncOnAppend = True\<rparr>"

definition rec_example :: Record where
  "rec_example = \<lparr>rec_Op = OpSet, rec_Key = [0x6b], rec_Value = Some [0x76]\<rparr>"

lemma wf_rec_example: "wf_record rec_example"
  by (simp add: wf_record_def rec_example_def)

theorem wal_roundtrip_witness:
  "list_all wf_record [rec_example, rec_example] \<and> \<not> wal_closed wal_example \<and> wal_data wal_example = [] \<and>
   (\<exists>w'. append_all no_faults [rec_example, rec_example] wal_example = (None, w') \<and>
     Replay no_faults (pure_fn (\<lambda>n _. Suc n)) w' 0
       = (None, w', foldl (\<lambda>n _. Suc n) 0 (map replayed [rec_example, rec_example])))"
proof (intro conjI)
  show a: "list_all wf_record [rec_example, rec_example]" by (simp add: wf_rec_example)
  show b: "\<not> wal_closed wal_example" and c: "wal_data wal_example = []"
    by (simp_all add: wal_example_def)
  show "\<exists>w'. append_all no_faults [rec_example, rec_example] wal_example = (None, w') \<and>
     Replay no_faults (pure_fn (\<lambda>n _. Suc n)) w' 0
       = (None, w', foldl (\<lambda>n _. Suc n) 0 (map replayed [rec_example, rec_example]))"
    by (rule wal_roundtrip [OF a b c])
qed

text \<open>C12. Durability with an \<^verbatim>\<open>fsync\<close> per append.  After any records were appended and acknowledged, a
  further append is cut short after some bytes and the machine crashes, keeping any prefix of the
  file that holds the synced bytes.  Unless exactly the 13 header bytes of the torn record are left,
  the replay returns without an error and delivers every acknowledged record in order, the torn one
  only if all of it reached the disk; and if more than the header was left, the file is cut back to
  the acknowledged records.\<close>

theorem wal_durable:
  assumes recs: "list_all wf_record recs" and r: "wf_record r"
    and w: "\<not> wal_closed w" "wal_data w = []" "wal_SyncOnAppend w" "wal_synced w = 0"
    and app: "append_all no_faults recs w = (None, w1)"
    and torn: "Append (no_faults\<lparr>write_stops := Some j\<rparr>) r w1 = (e, w2)"
    and n: "survives w2 n" "n \<noteq> length (wal_data w1) + 13"
  shows "\<exists>w3. Replay no_faults (pure_fn g) (crash n w2) s =
     (None, w3, foldl g s (map replayed
        (if n = length (wal_data w1) + length (encode_record r) then recs @ [r] else recs))) \<and>
     (length (wal_data w1) + 13 < n \<and> n < length (wal_data w1) + length (encode_record r) \<longrightarrow>
        wal_data w3 = wal_data w1)"
proof -
  have d1: "wal_data w1 = log_bytes recs" "wal_synced w1 = length (log_bytes recs)" "\<not> wal_closed w1"
    using app w by (auto simp: append_all_no_faults)
  have d2: "wal_data w2 = log_bytes recs @ take j (encode_record r)"
      "wal_synced w2 = length (log_bytes recs)"
    using torn d1 by (auto simp: Append_def file_Write_def)
  define t where "t = n - length (log_bytes recs)"
  have t: "n = length (log_bytes recs) + t" "t \<le> length (encode_record r)" "t \<le> j"
    using n(1) d2 by (auto simp: t_def survives_def)
  have data: "wal_data (crash (length (log_bytes recs) + t) w2) = log_bytes recs @ take t (encode_record r)"
    using t by (simp add: crash_def d2)
  have "t \<noteq> 13" using n(2) t(1) d1(1) by simp
  then consider "t < 13" | "13 < t" "t < length (encode_record r)" | "t = length (encode_record r)"
    using t(2) by linarith
  then show ?thesis
  proof cases
    case 1
    then show ?thesis
      using replay_loop_records [OF recs, of g "take t (encode_record r)" s] d1 t
        replay_loop_short [of "take t (encode_record r)" "pure_fn g" "log_bytes recs"]
        length_encode_record [OF r]
      by (simp add: Replay_open data)
  next
    case 2
    then show ?thesis
      using replay_loop_records [OF recs, of g "take t (encode_record r)" s] d1 t
        replay_loop_torn [OF r, of t "pure_fn g" "log_bytes recs"]
      by (simp add: Replay_open data)
  next
    case 3
    then show ?thesis
      using replay_loop_records [of "recs @ [r]" g "[]" s] recs r d1 t
        replay_loop_short [of "[]" "pure_fn g" "log_bytes (recs @ [r])"]
        data [unfolded 3]
      by (simp add: Replay_open)
  qed
qed

theorem wal_durable_witness:
  "(let w1 = snd (append_all no_faults [rec_example] wal_example);
       w2 = snd (Append (no_faults\<lparr>write_stops := Some 14\<rparr>) rec_example w1);
       n = length (wal_data w1) + 14
   in survives w2 n \<and> n \<noteq> length (wal_data w1) + 13 \<and>
      (\<exists>w3. Replay no_faults (pure_fn (\<lambda>k _. Suc k)) (crash n w2) 0 =
         (None, w3, foldl (\<lambda>k _. Suc k) 0 (map replayed [rec_example])) \<and> wal_data w3 = wal_data w1))"
proof -
  define w1 where "w1 = snd (append_all no_faults [rec_example] wal_example)"
  define w2 where "w2 = snd (Append (no_faults\<lparr>write_stops := Some 14\<rparr>) rec_example w1)"
  have w: "\<not> wal_closed wal_example" "wal_data wal_example = []" "wal_SyncOnAppend wal_example"
    "wal_synced wal_example = 0" by (simp_all add: wal_example_def)
  have len: "length (encode_record rec_example) = 15"
    by (subst length_encode_record [OF wf_rec_example]) (simp add: rec_example_def)
  have app: "append_all no_faults [rec_example] wal_example = (None, w1)"
    using append_all_no_faults [OF w(1), of "[rec_example]"] by (simp only: w1_def snd_conv)
  have w1: "wal_data w1 = encode_record rec_example" "\<not> wal_closed w1" "wal_synced w1 = 15"
    using app append_all_no_faults [OF w(1), of "[rec_example]"] w by (auto simp: len)
  have torn: "Append (no_faults\<lparr>write_stops := Some 14\<rparr>) rec_example w1
      = (Some (Wrap ''wal: write record: '' EIO), w2)"
    by (simp add: w2_def Append_def file_Write_def w1)
  have n: "survives w2 (length (wal_data w1) + 14)" "length (wal_data w1) + 14 \<noteq> length (wal_data w1) + 13"
    using torn w1 by (auto simp: survives_def Append_def file_Write_def len)
  have "\<exists>w3. Replay no_faults (pure_fn (\<lambda>k _. Suc k)) (crash (length (wal_data w1) + 14) w2) 0 =
         (None, w3, foldl (\<lambda>k _. Suc k) 0 (map replayed [rec_example])) \<and> wal_data w3 = wal_data w1"
    using wal_durable [OF _ wf_rec_example w app torn n, of "\<lambda>k _. Suc k" 0]
    by (simp add: wf_rec_example w1 len)
  with n show ?thesis by (simp add: Let_def w1_def w2_def)
qed

text \<open>C17. Corruption is detected: if one byte of a record changes on disk, other than the opcode and
  the two length fields, the replay delivers the records before it, none of its own or after it,
  and cuts the file at the record's start.\<close>

theorem wal_stops_at_corrupt_record:
  assumes recs: "list_all wf_record recs" and r: "wf_record r"
    and j: "j < length (encode_record r)" "j < 4 \<or> 13 \<le> j" "b \<noteq> encode_record r ! j"
    and w: "\<not> wal_closed w" "wal_data w = log_bytes recs @ (encode_record r)[j := b] @ rest"
  shows "\<exists>w'. Replay no_faults (pure_fn g) w s = (None, w', foldl g s (map replayed recs)) \<and>
     wal_data w' = log_bytes recs"
proof -
  let ?k = "of_nat (length (rec_Key r)) :: u32"
    and ?v = "of_nat (length (slice_bytes (rec_Value r))) :: u32"
  let ?crc = "crc32_Checksum (payload r)" and ?p = "rec_Key r @ slice_bytes (rec_Value r)"
  have u: "unat ?k = length (rec_Key r)" "unat ?v = length (slice_bytes (rec_Value r))"
    and op: "rec_Op r = OpSet \<or> rec_Op r = OpDelete"
    using r by (simp_all add: wf_record_def le_simps)
  have enc: "encode_record r = PutUint32 ?crc @ rec_Op r # PutUint32 ?k @ PutUint32 ?v @ ?p"
    using encode_record_header [OF r] by (simp add: header_def)
  have pl: "payload r = rec_Op r # PutUint32 ?k @ PutUint32 ?v @ ?p" by (simp add: payload_def)
  obtain crc p where cp: "(encode_record r)[j := b] = header crc (rec_Op r) ?k ?v @ p"
      "length p = length ?p" "crc32_Checksum (rec_Op r # PutUint32 ?k @ PutUint32 ?v @ p) \<noteq> crc"
  proof (cases "j < 4")
    case True
    let ?c = "(PutUint32 ?crc)[j := b]"
    have c: "PutUint32 (Uint32 ?c) = ?c" by (simp add: le_simps)
    have "PutUint32 ?crc ! j \<noteq> b" using j(3) True by (simp add: enc nth_append)
    then have "?c \<noteq> PutUint32 ?crc" using True by (metis length_put_le nth_list_update_eq)
    with c have "Uint32 ?c \<noteq> ?crc" by metis
    with True c show thesis
      by (intro that [of "Uint32 ?c" ?p]) (simp_all add: enc header_def list_update_append pl [symmetric])
  next
    case False
    with j have j13: "13 \<le> j" by simp
    let ?i = "j - 13"
    have i: "?i < length ?p" "?p ! ?i \<noteq> b" "encode_record r ! j = ?p ! ?i"
      using j j13 length_encode_record [OF r]
      by (auto simp: encode_record_header [OF r] nth_append)
    have split: "?p = take ?i ?p @ ?p ! ?i # drop (Suc ?i) ?p" using i(1) by (rule id_take_nth_drop)
    have upd: "?p[?i := b] = take ?i ?p @ b # drop (Suc ?i) ?p" using i(1) by (rule upd_conv_take_nth_drop)
    let ?pre = "rec_Op r # PutUint32 ?k @ PutUint32 ?v @ take ?i ?p"
    have "crc32_Checksum (?pre @ b # drop (Suc ?i) ?p) \<noteq> crc32_Checksum (?pre @ ?p ! ?i # drop (Suc ?i) ?p)"
      by (rule crc32_detects) (use i in auto)
    then have ne: "crc32_Checksum (rec_Op r # PutUint32 ?k @ PutUint32 ?v @ ?p[?i := b]) \<noteq> ?crc"
      unfolding upd pl using split by simp
    have "(encode_record r)[j := b] = header ?crc (rec_Op r) ?k ?v @ ?p[?i := b]"
      using j13 by (simp add: encode_record_header [OF r] list_update_append)
    with ne show thesis by (intro that [of ?crc "?p[?i := b]"]) simp_all
  qed
  have "replay_loop no_faults (pure_fn g) (wal_data w) 0 s =
      Truncate (length (log_bytes recs)) (foldl g s (map replayed recs))"
    using replay_loop_records [OF recs, of g "(header crc (rec_Op r) ?k ?v @ p) @ rest" s]
      replay_loop_bad_crc [OF op _ cp(3), of "pure_fn g" "log_bytes recs" rest] cp(2) u
    by (simp add: w(2) cp(1))
  with w show ?thesis by (simp add: Replay_open)
qed

theorem wal_stops_at_corrupt_record_witness:
  "(let w = wal_example\<lparr>wal_data := encode_record rec_example @ (encode_record rec_example)[14 := 0]\<rparr>
    in 14 < length (encode_record rec_example) \<and> 0 \<noteq> encode_record rec_example ! 14 \<and>
       (\<exists>w'. Replay no_faults (pure_fn (\<lambda>k _. Suc k)) w 0
          = (None, w', foldl (\<lambda>k _. Suc k) 0 (map replayed [rec_example])) \<and>
        wal_data w' = log_bytes [rec_example]))"
proof -
  let ?w = "wal_example\<lparr>wal_data := encode_record rec_example @ (encode_record rec_example)[14 := 0]\<rparr>"
  have j: "14 < length (encode_record rec_example)"
    by (subst length_encode_record [OF wf_rec_example]) (simp add: rec_example_def)
  have b: "0 \<noteq> encode_record rec_example ! 14"
    by (subst encode_record_header [OF wf_rec_example]) (simp add: rec_example_def nth_append)
  have "\<exists>w'. Replay no_faults (pure_fn (\<lambda>k _. Suc k)) ?w 0
          = (None, w', foldl (\<lambda>k _. Suc k) 0 (map replayed [rec_example])) \<and>
        wal_data w' = log_bytes [rec_example]"
    by (rule wal_stops_at_corrupt_record [OF _ wf_rec_example j _ b, where rest = "[]"])
      (simp_all add: wf_rec_example, simp add: wal_example_def)
  with j b show ?thesis by (simp add: Let_def)
qed

text \<open>C40. A crash that leaves exactly the 13 header bytes of a record with a key makes the log
  unreadable: reading the payload hits \<^verbatim>\<open>io.EOF\<close>, which \<^verbatim>\<open>Replay\<close> treats as an I/O failure
  (it expects \<^verbatim>\<open>io.ErrUnexpectedEOF\<close>) and returns instead of truncating.\<close>

theorem wal_torn_at_header_end_fails:
  assumes "list_all wf_record recs" "wf_record r" "rec_Key r \<noteq> []"
    and "\<not> wal_closed w" "wal_data w = log_bytes recs @ take 13 (encode_record r)"
  shows "Replay no_faults (pure_fn g) w s =
     (Some (Wrap ''wal: replay read payload: '' EOF), w, foldl g s (map replayed recs))"
proof -
  have "13 < length (encode_record r)" using assms by (simp add: length_encode_record)
  then show ?thesis
    using replay_loop_records [OF assms(1), of g "take 13 (encode_record r)" s]
      replay_loop_torn [OF assms(2), of 13 "pure_fn g" "log_bytes recs"] assms
    by (simp add: Replay_open)
qed

theorem wal_torn_at_header_end_fails_witness:
  "(let w = wal_example\<lparr>wal_data := take 13 (encode_record rec_example)\<rparr> in
    rec_Key rec_example \<noteq> [] \<and> Replay no_faults (pure_fn (\<lambda>k _. Suc k)) w 0 =
     (Some (Wrap ''wal: replay read payload: '' EOF), w, foldl (\<lambda>k _. Suc k) 0 (map replayed [])))"
proof -
  let ?w = "wal_example\<lparr>wal_data := take 13 (encode_record rec_example)\<rparr>"
  have k: "rec_Key rec_example \<noteq> []" by (simp add: rec_example_def)
  have "Replay no_faults (pure_fn (\<lambda>k _. Suc k)) ?w 0 =
     (Some (Wrap ''wal: replay read payload: '' EOF), ?w, foldl (\<lambda>k _. Suc k) 0 (map replayed []))"
    by (rule wal_torn_at_header_end_fails [OF _ wf_rec_example k]) (simp_all, simp add: wal_example_def)
  with k show ?thesis by (simp add: Let_def)
qed

text \<open>C39. A torn byte is left in place and swallows later writes.  If a crash leaves one byte of a
  record, the replay succeeds without truncating it; a record appended and synced after that is
  acknowledged, and yet, unless the top byte of its checksum happens to be an opcode, the next replay
  reads a header that is off by one, delivers only the records before the torn byte and cuts the
  file there.\<close>

theorem wal_torn_byte_loses_later_write:
  assumes recs: "list_all wf_record recs" and r: "wf_record r"
    and w: "\<not> wal_closed w" "wal_SyncOnAppend w" "wal_data w = log_bytes recs @ [x]"
    and crc: "PutUint32 (crc32_Checksum (payload r)) ! 3 \<notin> {OpSet, OpDelete}"
  shows "Replay no_faults (pure_fn g) w s = (None, w, foldl g s (map replayed recs)) \<and>
     (\<exists>w'. Append no_faults r w = (None, w') \<and> wal_synced w' = length (wal_data w') \<and>
        (\<exists>w''. Replay no_faults (pure_fn g) w' s = (None, w'', foldl g s (map replayed recs)) \<and>
           wal_data w'' = log_bytes recs))"
proof -
  have t: "13 \<le> length (x # encode_record r)" "(x # encode_record r) ! 4 \<noteq> OpSet"
      "(x # encode_record r) ! 4 \<noteq> OpDelete"
    using crc by (simp_all add: encode_record_payload [OF r] payload_def nth_append)
  have "Replay no_faults (pure_fn g) w s = (None, w, foldl g s (map replayed recs))"
    using replay_loop_records [OF recs, of g "[x]" s] w
      replay_loop_short [of "[x]" "pure_fn g" "log_bytes recs"]
    by (simp add: Replay_open)
  moreover have "replay_loop no_faults (pure_fn g) (log_bytes recs @ x # encode_record r) 0 s =
      Truncate (length (log_bytes recs)) (foldl g s (map replayed recs))"
    using replay_loop_records [OF recs, of g "x # encode_record r" s]
      replay_loop_bad_op [OF t, of "pure_fn g" "log_bytes recs"] by simp
  ultimately show ?thesis using w by (simp add: Append_no_faults Replay_open)
qed

theorem wal_torn_byte_loses_later_write_witness:
  "(let w = wal_example\<lparr>wal_data := take 1 (encode_record rec_example)\<rparr> in
    Replay no_faults (pure_fn (\<lambda>k _. Suc k)) w 0 = (None, w, 0) \<and>
    (\<exists>w'. Append no_faults rec_example w = (None, w') \<and> wal_synced w' = length (wal_data w') \<and>
        (\<exists>w''. Replay no_faults (pure_fn (\<lambda>k _. Suc k)) w' 0 = (None, w'', 0) \<and> wal_data w'' = [])))"
proof -
  let ?w = "wal_example\<lparr>wal_data := take 1 (encode_record rec_example)\<rparr>"
  have w: "\<not> wal_closed ?w" "wal_SyncOnAppend ?w" by (simp_all add: wal_example_def)
  have ne: "encode_record rec_example \<noteq> []"
    using length_encode_record [OF wf_rec_example] by auto
  then have d: "wal_data ?w = log_bytes [] @ [hd (encode_record rec_example)]"
    by (cases "encode_record rec_example") simp_all
  have "payload rec_example = [0x53, 1, 0, 0, 0, 1, 0, 0, 0, 0x6b, 0x76]"
    by (simp add: payload_def rec_example_def OpSet_def put_le_def upt_conv_Cons)
  then have crc: "PutUint32 (crc32_Checksum (payload rec_example)) ! 3 \<notin> {OpSet, OpDelete}"
    by (simp add: crc_eval put_le_def OpSet_def OpDelete_def)
  show ?thesis
    using wal_torn_byte_loses_later_write [OF _ wf_rec_example w d crc, of "\<lambda>k _. Suc k" 0]
    by (simp add: Let_def)
qed

subsection \<open>Replaying twice\<close>

lemma ReadFull_take:
  "off + n \<le> p \<Longrightarrow> p \<le> length data \<Longrightarrow> ReadFull no_faults (take p data) off n = ReadFull no_faults data off n"
  by (auto simp: ReadFull_def sub_def min_def take_drop)

text \<open>A loop that ends with a truncation runs to the end of the truncated file.\<close>

lemma replay_truncated:
  assumes "replay_loop no_faults fn data off s = Truncate p s'" "off \<le> length data"
  shows "off \<le> p \<and> p \<le> length data \<and> replay_loop no_faults fn (take p data) off s = Break s'"
  using assms
proof (induction "length data - off" arbitrary: off s rule: less_induct)
  case less
  note step = replay_loop.simps [of no_faults fn _ off s]
  obtain hdr where hdr: "ReadFull no_faults data off recordHeaderSize = ReadOk hdr"
    using less.prems(1) by (auto simp: step split: read_result.splits)
  have end_hdr: "off + recordHeaderSize \<le> length data"
    using ReadFull_length [OF hdr] by (simp add: recordHeaderSize_def)
  define op k v where "op = hdr ! 4" and "k = Uint32 (sub hdr 5 4)" and "v = Uint32 (sub hdr 9 4)"
  let ?off = "off + recordHeaderSize + unat k + unat v"
  let ?rec = "\<lambda>pl. \<lparr>rec_Op = op, rec_Key = take (unat k) pl, rec_Value = (if op = OpSet then Some (drop (unat k) pl) else None)\<rparr>"
  note fields = op_def [symmetric] k_def [symmetric] v_def [symmetric]
  consider (here) "p = off" "s' = s"
    | (later) pl s1 where "op = OpSet \<or> op = OpDelete"
      "ReadFull no_faults data (off + recordHeaderSize) (unat k + unat v) = ReadOk pl"
      "crc32_Checksum (op # PutUint32 k @ PutUint32 v @ pl) = Uint32 (sub hdr 0 4)" "fn s (?rec pl) = (None, s1)"
      "replay_loop no_faults fn data ?off s1 = Truncate p s'"
    using less.prems(1) hdr
    by (auto simp: step Let_def fields split: read_result.splits if_splits prod.splits option.splits)
  then show ?case
  proof cases
    case here
    have "ReadFull no_faults (take off data) off recordHeaderSize = ReadEOF"
      by (simp add: ReadFull_def recordHeaderSize_def no_faults_def)
    then show ?thesis using here end_hdr by (simp add: step)
  next
    case later
    have fits: "?off \<le> length data" using ReadFull_length [OF later(2)] end_hdr by (cases "unat k + unat v = 0") auto
    have IH: "?off \<le> p \<and> p \<le> length data \<and> replay_loop no_faults fn (take p data) ?off s1 = Break s'"
      using fits end_hdr by (intro less.hyps [OF _ later(5)]) (auto simp: recordHeaderSize_def)
    then have "ReadFull no_faults (take p data) off recordHeaderSize = ReadOk hdr"
      "ReadFull no_faults (take p data) (off + recordHeaderSize) (unat k + unat v) = ReadOk pl"
      using hdr later(2) ReadFull_take by simp_all
    then show ?thesis using IH later(1,3,4) by (simp add: step Let_def fields)
  qed
qed

text \<open>C21. Replaying is idempotent on any file: whatever bytes the log holds, a replay that succeeds leaves a log of
  which the next replay makes the same callbacks, with the same result, and which it leaves as it is; and the bytes
  that are left are the first ones of what was there.\<close>

theorem wal_replay_idempotent:
  assumes "Replay no_faults fn w s = (None, w', s')"
  shows "Replay no_faults fn w' s = (None, w', s') \<and> (\<exists>n. wal_data w' = take n (wal_data w))"
proof -
  have open_w: "\<not> wal_closed w" using assms by (auto simp: Replay_def file_Seek_def)
  then have seek: "file_Seek no_faults w = None" by (simp add: file_Seek_def no_faults_def)
  consider "replay_loop no_faults fn (wal_data w) 0 s = Break s'" "w' = w"
    | p where "replay_loop no_faults fn (wal_data w) 0 s = Truncate p s'"
      "w' = w\<lparr>wal_data := take p (wal_data w), wal_synced := min p (wal_synced w)\<rparr>"
    using assms seek open_w
    by (auto simp: Replay_def replay_finish_def truncateAt_def file_Truncate_def no_faults_def file_Seek_def
        split: replay_end.splits)
  then show ?thesis
  proof cases
    case 1
    then show ?thesis using assms by (auto intro: exI [of _ "length (wal_data w)"])
  next
    case (2 p)
    have "replay_loop no_faults fn (take p (wal_data w)) 0 s = Break s'" using replay_truncated [OF 2(1)] by simp
    then show ?thesis using 2(2) open_w by (auto simp: Replay_def replay_finish_def file_Seek_def no_faults_def)
  qed
qed

theorem wal_replay_idempotent_witness:
  "\<exists>w w' s'. wal_data w = replicate 20 0 \<and> Replay no_faults (\<lambda>n r. (None, Suc n)) w 0 = (None, w', s') \<and>
    wal_data w' = [] \<and> Replay no_faults (\<lambda>n r. (None, Suc n)) w' 0 = (None, w', s')"
proof -
  define w where "w = \<lparr>wal_data = replicate 20 0, wal_synced = 20, wal_closed = False, wal_path = '''', wal_SyncOnAppend = True\<rparr>"
  have "replay_loop no_faults (\<lambda>n r. (None, Suc n)) (replicate 20 0) 0 0 = Truncate 0 0"
    by (subst replay_loop.simps) (simp add: ReadFull_def no_faults_def recordHeaderSize_def sub_def OpSet_def OpDelete_def)
  then have r: "Replay no_faults (\<lambda>n r. (None, Suc n)) w 0 = (None, w\<lparr>wal_data := [], wal_synced := 0\<rparr>, 0)"
    by (simp add: Replay_def w_def truncateAt_def file_Truncate_def file_Seek_def replay_finish_def no_faults_def)
  let ?w = "w\<lparr>wal_data := [], wal_synced := 0\<rparr>"
  have "wal_data w = replicate 20 0" "wal_data ?w = []" by (simp_all add: w_def)
  with wal_replay_idempotent [OF r] r show ?thesis by blast
qed

end
