(* ===== verification/Bloom.thy ===== *)
theory Bloom
  imports Vault_Prelude Go_Float
begin

text \<open>
  The Bloom filter of \<^verbatim>\<open>internal/bloom/bloom.go\<close>: MurmurHash3, the bit array, \<^verbatim>\<open>Build\<close>,
  \<^verbatim>\<open>MayContain\<close> and the wire format.  An index outside the bit array and a modulus of zero are
  the panics of the Go code.  The lemmas show that the filter is never wrong about a key it was
  built from, before and after a trip through \<^verbatim>\<open>Encode\<close> and \<^verbatim>\<open>Decode\<close>.
\<close>

subsection \<open>MurmurHash3\<close>

definition seed0 :: u32 where "seed0 = 0x00000000"
definition seed1 :: u32 where "seed1 = 0x9747b28c"
definition seed2 :: u32 where "seed2 = 0x5f3759df"
definition c1 :: u32 where "c1 = 0xcc9e2d51"
definition c2 :: u32 where "c2 = 0x1b873593"

definition rotl32 :: "u32 \<Rightarrow> nat \<Rightarrow> u32" where
  "rotl32 x r = push_bit r x OR drop_bit (32 - r) x"

definition fmix32 :: "u32 \<Rightarrow> u32" where
  "fmix32 h0 =
     (let h = h0 XOR drop_bit 16 h0;
          h = h * 0x85ebca6b;
          h = h XOR drop_bit 13 h;
          h = h * 0xc2b2ae35
      in h XOR drop_bit 16 h)"

text \<open>The mixing of one 32-bit block, shared by the block loop and the tail.\<close>

definition murmur_scramble :: "u32 \<Rightarrow> u32" where
  "murmur_scramble k = rotl32 (k * c1) 15 * c2"

text \<open>The loop over the 4-byte blocks, then the \<^verbatim>\<open>switch\<close> on the length of the tail.\<close>

fun murmur_blocks :: "bytes \<Rightarrow> u32 \<Rightarrow> u32 \<times> bytes" where
  "murmur_blocks (a # b # c # d # rest) h =
     (let k = murmur_scramble (Uint32 [a, b, c, d]);
          h = rotl32 (h XOR k) 13
      in murmur_blocks rest (h * 5 + 0xe6546b64))"
| "murmur_blocks tail h = (h, tail)"

definition murmur_tail :: "bytes \<Rightarrow> u32 \<Rightarrow> u32" where
  "murmur_tail tail h =
     (let k = (if length tail = 3 then push_bit 16 (ucast (tail ! 2)) else 0);
          k = (if 2 \<le> length tail then k XOR push_bit 8 (ucast (tail ! 1)) else k)
      in if 1 \<le> length tail then h XOR murmur_scramble (k XOR ucast (tail ! 0)) else h)"

definition murmurHash3 :: "bytes \<Rightarrow> u32 \<Rightarrow> u32" where
  "murmurHash3 key seed =
     (let (h, tail) = murmur_blocks key seed
      in fmix32 (murmur_tail tail h XOR of_nat (length key)))"

subsection \<open>Bits\<close>

definition setBit :: "bytes \<Rightarrow> u32 \<Rightarrow> error + bytes" where
  "setBit bits pos =
     (let i = unat (pos div 8) in
      if i < length bits then Inr (bits[i := bits ! i OR push_bit (unat (pos mod 8)) 1])
      else Inl Panic)"

definition getBit :: "bytes \<Rightarrow> u32 \<Rightarrow> error + bool" where
  "getBit bits pos =
     (let i = unat (pos div 8) in
      if i < length bits then Inr (bits ! i AND push_bit (unat (pos mod 8)) 1 \<noteq> 0)
      else Inl Panic)"

subsection \<open>The filter\<close>

record Filter =
  fl_bits :: bytes
  fl_m :: u32
  fl_k :: byte

definition numHashFunctions :: byte where
  "numHashFunctions = 3"

text \<open>\<^verbatim>\<open>uint32(f)\<close> of a float: the language leaves values of 2^32 and above to the implementation;
  the model keeps the low 32 bits, as amd64 does.\<close>

definition filter_bits :: "nat \<Rightarrow> f64 \<Rightarrow> u32" where
  "filter_bits n bitsPerKey =
     (let m = of_int (f64_ceil (f64_mul (f64_of_int (int n)) bitsPerKey)) :: u32
      in ((m + 7) div 8) * 8)"

fun set_hashes :: "u32 \<Rightarrow> u32 list \<Rightarrow> bytes \<Rightarrow> error + bytes" where
  "set_hashes m [] bs = Inr bs"
| "set_hashes m (h # hs) bs =
     (if m = 0 then Inl Panic
      else case setBit bs (h mod m) of Inl e \<Rightarrow> Inl e | Inr bs' \<Rightarrow> set_hashes m hs bs')"

definition hashes :: "bytes \<Rightarrow> u32 list" where
  "hashes key = [murmurHash3 key seed0, murmurHash3 key seed1, murmurHash3 key seed2]"

fun insert_keys :: "u32 \<Rightarrow> bytes list \<Rightarrow> bytes \<Rightarrow> error + bytes" where
  "insert_keys m [] bs = Inr bs"
| "insert_keys m (key # keys) bs =
     (case set_hashes m (hashes key) bs of Inl e \<Rightarrow> Inl e | Inr bs' \<Rightarrow> insert_keys m keys bs')"

definition Build :: "bytes list \<Rightarrow> f64 \<Rightarrow> error + Filter" where
  "Build keys bitsPerKey =
     (if keys = [] then Inr \<lparr>fl_bits = [], fl_m = 0, fl_k = numHashFunctions\<rparr>
      else let m = filter_bits (length keys) bitsPerKey in
        case insert_keys m keys (replicate (unat (m div 8)) 0) of
          Inl e \<Rightarrow> Inl e
        | Inr bs \<Rightarrow> Inr \<lparr>fl_bits = bs, fl_m = m, fl_k = numHashFunctions\<rparr>)"

text \<open>The three lookups joined by \<^verbatim>\<open>&&\<close>, which stops at the first unset bit.\<close>

fun get_hashes :: "u32 \<Rightarrow> u32 list \<Rightarrow> bytes \<Rightarrow> error + bool" where
  "get_hashes m [] bs = Inr True"
| "get_hashes m (h # hs) bs =
     (case getBit bs (h mod m) of
        Inl e \<Rightarrow> Inl e
      | Inr b \<Rightarrow> if b then get_hashes m hs bs else Inr False)"

definition MayContain :: "Filter \<Rightarrow> bytes \<Rightarrow> error + bool" where
  "MayContain f key = (if fl_m f = 0 then Inr False else get_hashes (fl_m f) (hashes key) (fl_bits f))"

definition Encode :: "Filter \<Rightarrow> bytes" where
  "Encode f = fl_k f # PutUint32 (fl_m f) @ fl_bits f"

definition Decode :: "bytes \<Rightarrow> Filter" where
  "Decode data =
     (if length data < 5 then \<lparr>fl_bits = [], fl_m = 0, fl_k = 0\<rparr>
      else \<lparr>fl_bits = drop 5 data, fl_m = Uint32 (sub data 1 4), fl_k = data ! 0\<rparr>)"

definition BitCount :: "Filter \<Rightarrow> u32" where
  "BitCount f = fl_m f"

definition ByteSize :: "Filter \<Rightarrow> nat" where
  "ByteSize f = length (fl_bits f)"

text \<open>\<^verbatim>\<open>bitsPerKey = 9.6\<close> of the SSTable writer, as the nearest float64.\<close>

definition bitsPerKey :: f64 where
  "bitsPerKey = F64 5404319552844595 (-49)"

subsection \<open>Bits read back\<close>

definition bit_at :: "bytes \<Rightarrow> u32 \<Rightarrow> bool" where
  "bit_at bs pos \<longleftrightarrow> bit (bs ! (unat pos div 8)) (unat pos mod 8)"

lemma unat_div8 [simp]: "unat (pos div 8 :: u32) = unat pos div 8" "unat (pos mod 8 :: u32) = unat pos mod 8"
  by (simp_all add: unat_div unat_mod)

lemma getBit_in: "unat pos < 8 * length bs \<Longrightarrow> getBit bs pos = Inr (bit_at bs pos)"
  by (simp add: getBit_def bit_at_def Let_def bit_iff_and_push_bit_not_eq_0 div_less_iff_less_mult
      mult.commute)

lemma setBit_in:
  assumes "unat pos < 8 * length bs"
  obtains bs' where "setBit bs pos = Inr bs'" "length bs' = length bs"
    "\<And>q. unat q < 8 * length bs \<Longrightarrow> bit_at bs' q \<longleftrightarrow> q = pos \<or> bit_at bs q"
proof
  let ?i = "unat pos div 8"
  let ?bs = "bs[?i := bs ! ?i OR push_bit (unat pos mod 8) 1]"
  have i: "?i < length bs" using assms by (simp add: div_less_iff_less_mult mult.commute)
  then show "setBit bs pos = Inr ?bs" by (simp add: setBit_def Let_def)
  show "length ?bs = length bs" by simp
  fix q :: u32 assume "unat q < 8 * length bs"
  have "q = pos \<longleftrightarrow> unat q div 8 = ?i \<and> unat q mod 8 = unat pos mod 8"
    by (metis div_mult_mod_eq unsigned_word_eqI word_unat_eq_iff)
  moreover have "unat q mod 8 < 8" by simp
  ultimately show "bit_at ?bs q \<longleftrightarrow> q = pos \<or> bit_at bs q"
    using i by (auto simp: bit_at_def nth_list_update bit_or_iff push_bit_of_1 bit_exp_iff)
qed

subsection \<open>No false negatives\<close>

text \<open>A modulus that fits a bit array: positive and exactly its number of bits.\<close>

definition fits :: "u32 \<Rightarrow> bytes \<Rightarrow> bool" where
  "fits m bs \<longleftrightarrow> m \<noteq> 0 \<and> unat m = 8 * length bs"

lemma fits_mod: "fits m bs \<Longrightarrow> unat (h mod m) < 8 * length bs"
  unfolding fits_def by (metis mod_less_divisor unat_gt_0 unat_mod)

lemma fits_length: "fits m bs \<Longrightarrow> length bs' = length bs \<Longrightarrow> fits m bs'"
  by (simp add: fits_def)

lemma set_hashes_in:
  "fits m bs \<Longrightarrow> \<exists>bs'. set_hashes m hs bs = Inr bs' \<and> length bs' = length bs \<and>
     (\<forall>q. unat q < 8 * length bs \<longrightarrow> bit_at bs' q = (bit_at bs q \<or> (\<exists>h \<in> set hs. q = h mod m)))"
proof (induction hs arbitrary: bs)
  case Nil
  then show ?case by simp
next
  case (Cons h hs)
  obtain b where b: "setBit bs (h mod m) = Inr b" "length b = length bs"
    "\<And>q. unat q < 8 * length bs \<Longrightarrow> bit_at b q \<longleftrightarrow> q = h mod m \<or> bit_at bs q"
    using setBit_in [OF fits_mod [OF Cons.prems]] by metis
  with Cons.IH [OF fits_length [OF Cons.prems b(2)]] Cons.prems show ?case
    by (auto simp: fits_def)
qed

lemma insert_keys_in:
  "fits m bs \<Longrightarrow> \<exists>bs'. insert_keys m keys bs = Inr bs' \<and> length bs' = length bs \<and>
     (\<forall>q. unat q < 8 * length bs \<longrightarrow>
        bit_at bs' q = (bit_at bs q \<or> (\<exists>key \<in> set keys. \<exists>h \<in> set (hashes key). q = h mod m)))"
proof (induction keys arbitrary: bs)
  case Nil
  then show ?case by simp
next
  case (Cons key keys)
  obtain b where b: "set_hashes m (hashes key) bs = Inr b" "length b = length bs"
    "\<forall>q. unat q < 8 * length bs \<longrightarrow> bit_at b q = (bit_at bs q \<or> (\<exists>h \<in> set (hashes key). q = h mod m))"
    using set_hashes_in [OF Cons.prems] by metis
  with Cons.IH [OF fits_length [OF Cons.prems b(2)]] show ?case by auto
qed

lemma get_hashes_in:
  "fits m bs \<Longrightarrow> get_hashes m hs bs = Inr (\<forall>h \<in> set hs. bit_at bs (h mod m))"
  by (induction hs) (simp_all add: getBit_in fits_mod)

text \<open>What \<open>Build\<close> promises when its bit count is a positive multiple of 8: it returns a filter
  whose answers are exactly the membership test of the bits of all keys.\<close>

lemma Build_fits:
  assumes "keys \<noteq> []" and m: "filter_bits (length keys) b = mm" "mm \<noteq> 0" "8 dvd unat mm"
  obtains f where "Build keys b = Inr f" "fl_m f = mm" "fl_k f = 3" "fits mm (fl_bits f)"
    "\<And>q. unat q < unat mm \<Longrightarrow>
       bit_at (fl_bits f) q \<longleftrightarrow> (\<exists>key \<in> set keys. \<exists>h \<in> set (hashes key). q = h mod mm)"
proof -
  let ?z = "replicate (unat mm div 8) 0 :: bytes"
  have z: "fits mm ?z" using m by (simp add: fits_def)
  have nz: "\<not> bit_at ?z q" if "unat q < unat mm" for q
    using that m(3) by (simp add: bit_at_def div_less_iff_less_mult less_mult_imp_div_less)
  obtain bs where bs: "insert_keys mm keys ?z = Inr bs" "length bs = length ?z"
    "\<forall>q. unat q < 8 * length ?z \<longrightarrow>
        bit_at bs q = (bit_at ?z q \<or> (\<exists>key \<in> set keys. \<exists>h \<in> set (hashes key). q = h mod mm))"
    using insert_keys_in [OF z] by blast
  have "8 * length ?z = unat mm" using m by simp
  with bs nz have q: "\<And>q. unat q < unat mm \<Longrightarrow>
      bit_at bs q \<longleftrightarrow> (\<exists>key \<in> set keys. \<exists>h \<in> set (hashes key). q = h mod mm)"
    by simp
  show thesis
  proof (rule that)
    show "Build keys b = Inr \<lparr>fl_bits = bs, fl_m = mm, fl_k = 3\<rparr>"
      using assms bs(1) by (simp add: Build_def Let_def numHashFunctions_def)
  qed (use fits_length [OF z bs(2)] q in simp_all)
qed

lemma MayContain_fits:
  "fits (fl_m f) (fl_bits f) \<Longrightarrow>
     MayContain f key = Inr (\<forall>h \<in> set (hashes key). bit_at (fl_bits f) (h mod fl_m f))"
  by (auto simp: MayContain_def get_hashes_in fits_def)

lemma Decode_Encode: "Decode (Encode f) = f"
  by (simp add: Decode_def Encode_def slice_simps sub_def)

subsection \<open>The size of the bit array\<close>

text \<open>The rounded product is the exact one: 9.6 bits for each key, rounded up.\<close>

lemma ceil_bitsPerKey:
  assumes "1 \<le> n" "n \<le> 400000000"
  defines "c \<equiv> f64_ceil (f64_mul (f64_of_int n) bitsPerKey)"
  shows "96 * n \<le> 10 * c" "10 * c \<le> 96 * n + 10"
proof -
  define P where "P = n * 5404319552844595"
  define j where "j = bitlen P - 53"
  define M where "M = mant (round53 P (-49))"
  define D where "D = (2::int) ^ (49 - j)"
  have P: "5404319552844595 \<le> P" "P \<le> 2161727821137838000000000" using assms by (auto simp: P_def)
  have "bitlen P \<le> 82" using P by (subst bitlen_le_iff) auto
  then have j: "j \<le> 29" by (simp add: j_def)
  have f: "f64_mul (f64_of_int n) bitsPerKey = round53 P (-49)"
    using assms by (simp add: f64_of_int_exact f64_mul_def bitsPerKey_def P_def)
  have u: "(2::int) ^ j \<le> 2 ^ 29" using j by (rule power_increasing) simp
  have err: "\<bar>2 * (M * 2 ^ j - P)\<bar> \<le> 2 ^ j" using round53_error [of P "-49"] P by (simp add: M_def j_def)
  have D: "0 < D" "D * 2 ^ j = 2 ^ 49" using j by (simp_all add: D_def power_add [symmetric])
  have "c = (M + D - 1) div D"
    using j by (simp add: c_def f f64_ceil_def expo_round53 j_def [symmetric] M_def D_def nat_diff_distrib')
  then have "c * D + (M + D - 1) mod D = M + D - 1" by (simp only: div_mult_mod_eq)
  moreover have "0 \<le> (M + D - 1) mod D" "(M + D - 1) mod D < D" using D(1) by simp_all
  ultimately have "M \<le> c * D" "c * D \<le> M + D" by linarith+
  then have "M * 2 ^ j \<le> c * (D * 2 ^ j)" "c * (D * 2 ^ j) \<le> M * 2 ^ j + D * 2 ^ j"
    by (simp_all add: mult.assoc [symmetric] distrib_right [symmetric])
  then have "M * 2 ^ j \<le> c * 2 ^ 49" "c * 2 ^ 49 \<le> M * 2 ^ j + 2 ^ 49" by (simp_all only: D(2))
  with err u assms(1,2) show "96 * n \<le> 10 * c" "10 * c \<le> 96 * n + 10" by (simp_all add: P_def)
qed

lemma round_up_to_8:
  assumes "0 \<le> c" "c \<le> (3840000001::int)"
  shows "int (unat (((of_int c + 7) div 8) * 8 :: u32)) = (c + 7) div 8 * 8"
proof -
  have c: "unat (of_int c :: u32) = nat c"
    using assms by (simp add: unat_eq_nat_uint uint_word_of_int)
  have c7: "unat (of_int c + 7 :: u32) = nat c + 7"
    using assms by (subst unat_add_lem [THEN iffD1]) (auto simp: c)
  have "(nat c + 7) div 8 * 8 < 2 ^ 32" using assms by auto
  then have "unat (((of_int c + 7) div 8) * 8 :: u32) = (nat c + 7) div 8 * 8"
    by (subst unat_mult_lem [THEN iffD1]) (auto simp: unat_div c7)
  then show ?thesis using assms(1) by (simp add: zdiv_int)
qed

lemma filter_bits_size:
  assumes "0 < n" "n \<le> 400000000"
  shows "8 dvd unat (filter_bits n bitsPerKey)" "96 * n \<le> 10 * unat (filter_bits n bitsPerKey)"
    "10 * unat (filter_bits n bitsPerKey) \<le> 96 * n + 80"
proof -
  define c where "c = f64_ceil (f64_mul (f64_of_int (int n)) bitsPerKey)"
  have c: "96 * int n \<le> 10 * c" "10 * c \<le> 96 * int n + 10"
    using ceil_bitsPerKey [of "int n"] assms by (simp_all add: c_def)
  then have m: "int (unat (filter_bits n bitsPerKey)) = (c + 7) div 8 * 8"
    using round_up_to_8 [of c] assms by (simp add: filter_bits_def c_def)
  then have "8 dvd int (unat (filter_bits n bitsPerKey))" by simp
  then show "8 dvd unat (filter_bits n bitsPerKey)" by presburger
  have "c \<le> (c + 7) div 8 * 8" "(c + 7) div 8 * 8 \<le> c + 7" by linarith+
  with c m show "96 * n \<le> 10 * unat (filter_bits n bitsPerKey)" "10 * unat (filter_bits n bitsPerKey) \<le> 96 * n + 80"
    by linarith+
qed

lemma filter_bits_bitsPerKey:
  assumes "0 < n" "n \<le> 400000000"
  shows "filter_bits n bitsPerKey \<noteq> 0" "8 dvd unat (filter_bits n bitsPerKey)"
  using filter_bits_size [OF assms] assms(1) by auto

lemma Build_bitsPerKey:
  assumes "keys \<noteq> []" "length keys \<le> 400000000"
  obtains f where "Build keys bitsPerKey = Inr f" "fits (fl_m f) (fl_bits f)"
    "\<And>q. unat q < unat (fl_m f) \<Longrightarrow>
       bit_at (fl_bits f) q \<longleftrightarrow> (\<exists>key \<in> set keys. \<exists>h \<in> set (hashes key). q = h mod fl_m f)"
proof -
  have "0 < length keys" using assms by simp
  note fb = filter_bits_bitsPerKey [OF this assms(2)]
  show thesis
    by (rule Build_fits [OF assms(1) refl fb]) (use that in metis)
qed

subsection \<open>The interface of a membership filter\<close>

text \<open>What a table relies on: a filter built from its keys answers every query, never says no to
  one of its keys, and survives being written out and read back.\<close>

locale membership_filter =
  fixes build :: "bytes list \<Rightarrow> error + 'f"
    and may :: "'f \<Rightarrow> bytes \<Rightarrow> error + bool"
    and ser :: "'f \<Rightarrow> bytes"
    and deser :: "bytes \<Rightarrow> 'f"
    and capacity :: nat
  assumes build_returns: "length keys \<le> capacity \<Longrightarrow> \<exists>f. build keys = Inr f"
    and answers: "length keys \<le> capacity \<Longrightarrow> build keys = Inr f \<Longrightarrow> \<exists>b. may f key = Inr b"
    and member: "length keys \<le> capacity \<Longrightarrow> build keys = Inr f \<Longrightarrow> key \<in> set keys \<Longrightarrow>
          may f key = Inr True"
    and deser_ser: "deser (ser f) = f"
begin

lemma stored_member:
  "length keys \<le> capacity \<Longrightarrow> build keys = Inr f \<Longrightarrow> key \<in> set keys \<Longrightarrow>
     may (deser (ser f)) key = Inr True"
  by (simp add: deser_ser member)

lemma stored_answers:
  "length keys \<le> capacity \<Longrightarrow> build keys = Inr f \<Longrightarrow> \<exists>b. may (deser (ser f)) key = Inr b"
  by (simp add: deser_ser answers)

lemma no_means_absent:
  "length keys \<le> capacity \<Longrightarrow> build keys = Inr f \<Longrightarrow> may (deser (ser f)) key = Inr False \<Longrightarrow>
     key \<notin> set keys"
  using stored_member by fastforce

end

lemma Build_Nil: "Build [] b = Inr f \<Longrightarrow> MayContain f key = Inr False"
  by (auto simp: Build_def MayContain_def)

interpretation bloom: membership_filter "\<lambda>keys. Build keys bitsPerKey" MayContain Encode Decode 400000000
proof
  fix keys :: "bytes list" and f and key
  assume n: "length keys \<le> 400000000"
  show "\<exists>f. Build keys bitsPerKey = Inr f"
    by (cases "keys = []") (auto simp: Build_def intro: Build_bitsPerKey [OF _ n])
  assume f: "Build keys bitsPerKey = Inr f"
  show "\<exists>b. MayContain f key = Inr b"
  proof (cases "keys = []")
    case True
    with f Build_Nil show ?thesis by metis
  next
    case False
    from Build_bitsPerKey [OF False n] f have "fits (fl_m f) (fl_bits f)" by force
    then show ?thesis by (simp add: MayContain_fits)
  qed
  assume key: "key \<in> set keys"
  then have ne: "keys \<noteq> []" by auto
  obtain g where g: "Build keys bitsPerKey = Inr g" "fits (fl_m g) (fl_bits g)"
    "\<And>q. unat q < unat (fl_m g) \<Longrightarrow>
       bit_at (fl_bits g) q \<longleftrightarrow> (\<exists>key \<in> set keys. \<exists>h \<in> set (hashes key). q = h mod fl_m g)"
    by (rule Build_bitsPerKey [OF ne n]) blast
  moreover have "unat (h mod fl_m g) < unat (fl_m g)" for h
    using fits_mod [OF g(2)] g(2) by (simp add: fits_def)
  ultimately show "MayContain f key = Inr True"
    using f key by (auto simp: MayContain_fits)
qed (simp_all add: Decode_Encode)

subsection \<open>Properties\<close>

text \<open>C14. No false negatives: for up to 400 million keys the filter that the writer builds at 9.6
  bits per key is built without a panic, and after being encoded and decoded it answers every
  query without a panic, and \<open>true\<close> for every key it was built from.\<close>

theorem bloom_no_false_negatives:
  assumes "length keys \<le> 400000000"
  shows "\<exists>f. Build keys bitsPerKey = Inr f \<and>
     (\<forall>key. \<exists>b. MayContain (Decode (Encode f)) key = Inr b \<and> (key \<in> set keys \<longrightarrow> b))"
proof -
  obtain f where f: "Build keys bitsPerKey = Inr f" using bloom.build_returns [OF assms] by blast
  have "\<exists>b. MayContain (Decode (Encode f)) key = Inr b \<and> (key \<in> set keys \<longrightarrow> b)" for key
    using bloom.stored_answers [OF assms f] bloom.stored_member [OF assms f] by fastforce
  with f show ?thesis by blast
qed

theorem bloom_no_false_negatives_witness:
  "length [[1], [2, 3 :: byte]] \<le> (400000000::nat) \<and>
   (\<exists>f. Build [[1], [2, 3]] bitsPerKey = Inr f \<and>
     (\<forall>key. \<exists>b. MayContain (Decode (Encode f)) key = Inr b \<and> (key \<in> set [[1], [2, 3]] \<longrightarrow> b)))"
proof
  show h: "length [[1], [2, 3 :: byte]] \<le> (400000000::nat)" by simp
  show "\<exists>f. Build [[1], [2, 3]] bitsPerKey = Inr f \<and>
     (\<forall>key. \<exists>b. MayContain (Decode (Encode f)) key = Inr b \<and> (key \<in> set [[1], [2, 3]] \<longrightarrow> b))"
    by (rule bloom_no_false_negatives [OF h])
qed

text \<open>C30. The size of a filter: with the writer's 9.6 bits for each key, the floating-point computation of the number of
  bits gives at least 9.6 bits for each key and at most one byte more than that, the array of bytes holds exactly
  these bits, and the encoding adds five bytes to it.\<close>

theorem bloom_size_bounds:
  assumes "keys \<noteq> []" "length keys \<le> 400000000" "Build keys bitsPerKey = Inr f"
  shows "96 * length keys \<le> 10 * unat (BitCount f) \<and> 10 * unat (BitCount f) \<le> 96 * length keys + 80 \<and>
    8 * ByteSize f = unat (BitCount f) \<and> length (Encode f) = ByteSize f + 5"
proof -
  have n: "0 < length keys" using assms(1) by simp
  note size = filter_bits_size [OF n assms(2)] and fb = filter_bits_bitsPerKey [OF n assms(2)]
  obtain f' where f': "Build keys bitsPerKey = Inr f'" "fl_m f' = filter_bits (length keys) bitsPerKey"
    "fits (filter_bits (length keys) bitsPerKey) (fl_bits f')"
    using Build_fits [OF assms(1) refl fb] by metis
  then have f: "fl_m f = filter_bits (length keys) bitsPerKey" "fits (filter_bits (length keys) bitsPerKey) (fl_bits f)"
    using assms(3) by simp_all
  then show ?thesis using size(2,3) by (simp add: BitCount_def ByteSize_def Encode_def fits_def)
qed

theorem bloom_size_bounds_witness:
  "\<exists>f. [[1], [2, 3]] \<noteq> ([] :: bytes list) \<and> length [[1], [2, 3 :: byte]] \<le> (400000000::nat) \<and>
    Build [[1], [2, 3]] bitsPerKey = Inr f \<and>
    96 * length [[1], [2, 3 :: byte]] \<le> 10 * unat (BitCount f) \<and> 10 * unat (BitCount f) \<le> 96 * length [[1], [2, 3 :: byte]] + 80 \<and>
    8 * ByteSize f = unat (BitCount f) \<and> length (Encode f) = ByteSize f + 5"
proof -
  have h: "[[1], [2, 3]] \<noteq> ([] :: bytes list)" "length [[1], [2, 3 :: byte]] \<le> (400000000::nat)" by simp_all
  obtain f where f: "Build [[1], [2, 3]] bitsPerKey = Inr f" using bloom.build_returns [OF h(2)] by blast
  from bloom_size_bounds [OF h f] h f show ?thesis by blast
qed

end
