(* ===== verification/Skip_List.thy ===== *)
theory Skip_List
  imports Vault_Prelude "HOL-Library.Monad_Syntax"
begin

text \<open>
  The skip list of \<^verbatim>\<open>internal/memtable/skiplist.go\<close>, with its pointers.  The nodes live in a store
  (a list indexed by address, the head at address 0) and every operation follows and rewrites
  forward pointers as the Go code does.  \<open>None\<close> is a call that does not return normally: a nil
  dereference, an index out of range, or a walk that never ends.  The lemmas show that, from the
  empty list, every operation returns, keeps all levels sorted and consistent, and acts on the
  level-0 list as an update of a sorted table.
\<close>

subsection \<open>Nodes and the store\<close>

definition maxLevel :: nat where "maxLevel = 12"

type_synonym addr = nat

record node =
  n_key :: bytes
  n_value :: slice
  n_deleted :: bool
  n_forward :: "addr option list"

definition newNode :: "bytes \<Rightarrow> slice \<Rightarrow> bool \<Rightarrow> nat \<Rightarrow> node" where
  "newNode key value deleted level =
     \<lparr>n_key = key, n_value = value, n_deleted = deleted, n_forward = replicate level None\<rparr>"

text \<open>The random source is the number of draws made so far; the outcomes of the draws
  (\<^verbatim>\<open>rng.Float64() < probability\<close>) are a parameter of the operations.\<close>

record skipList =
  sl_nodes :: "node list"
  sl_level :: nat
  sl_length :: int
  sl_byteSize :: int
  sl_rng :: nat

definition newSkipList :: skipList where
  "newSkipList = \<lparr>sl_nodes = [newNode [] None False maxLevel], sl_level = 1, sl_length = 0,
     sl_byteSize = 0, sl_rng = 0\<rparr>"

definition node_at :: "skipList \<Rightarrow> addr \<Rightarrow> node option" where
  "node_at s a = (if a < length (sl_nodes s) then Some (sl_nodes s ! a) else None)"

definition forward_at :: "skipList \<Rightarrow> addr \<Rightarrow> nat \<Rightarrow> addr option option" where
  "forward_at s a i = do {
     n \<leftarrow> node_at s a;
     if i < length (n_forward n) then Some (n_forward n ! i) else None }"

subsection \<open>The search\<close>

function random_level_loop :: "(nat \<Rightarrow> bool) \<Rightarrow> nat \<Rightarrow> nat \<Rightarrow> nat \<times> nat" where
  "random_level_loop coin pos lvl =
     (if lvl < maxLevel then
        if coin pos then random_level_loop coin (Suc pos) (Suc lvl) else (lvl, Suc pos)
      else (lvl, pos))"
  by pat_completeness auto
termination
  by (relation "measure (\<lambda>(coin, pos, lvl). maxLevel - lvl)") auto

declare random_level_loop.simps [simp del]

definition randomLevel :: "(nat \<Rightarrow> bool) \<Rightarrow> skipList \<Rightarrow> nat \<times> skipList" where
  "randomLevel coin s =
     (let (lvl, pos) = random_level_loop coin (sl_rng s) 1 in (lvl, s\<lparr>sl_rng := pos\<rparr>))"

text \<open>The inner loop at level \<open>i\<close>: go right while the next key is smaller.\<close>

partial_function (option) walk :: "skipList \<Rightarrow> bytes \<Rightarrow> nat \<Rightarrow> addr \<Rightarrow> addr option" where
  "walk s key i cur = do {
     next \<leftarrow> forward_at s cur i;
     (case next of
        None \<Rightarrow> Some cur
      | Some b \<Rightarrow> do {
          n \<leftarrow> node_at s b;
          if bytes_Compare (n_key n) key < 0 then walk s key i b else Some cur }) }"

declare walk.simps [code]

text \<open>The outer loop over the levels below \<open>n\<close>, from the highest: the last node reached and
  \<^verbatim>\<open>update[0..n-1]\<close>.\<close>

fun descend :: "skipList \<Rightarrow> bytes \<Rightarrow> nat \<Rightarrow> addr \<Rightarrow> (addr \<times> addr list) option" where
  "descend s key 0 cur = Some (cur, [])"
| "descend s key (Suc i) cur = do {
     c \<leftarrow> walk s key i cur;
     (c', update) \<leftarrow> descend s key i c;
     Some (c', update @ [c]) }"

subsection \<open>Insertion\<close>

text \<open>One turn of the linking loop: \<^verbatim>\<open>n.forward[i] = update[i].forward[i]; update[i].forward[i] = n\<close>.\<close>

definition set_forward :: "addr \<Rightarrow> nat \<Rightarrow> addr option \<Rightarrow> skipList \<Rightarrow> skipList option" where
  "set_forward a i p s = do {
     n \<leftarrow> node_at s a;
     if i < length (n_forward n)
     then Some (s\<lparr>sl_nodes := (sl_nodes s)[a := n\<lparr>n_forward := (n_forward n)[i := p]\<rparr>]\<rparr>)
     else None }"

definition link_level :: "addr \<Rightarrow> addr list \<Rightarrow> nat \<Rightarrow> skipList \<Rightarrow> skipList option" where
  "link_level n update i s =
     (if i < length update then do {
        p \<leftarrow> forward_at s (update ! i) i;
        s' \<leftarrow> set_forward n i p s;
        set_forward (update ! i) i (Some n) s' }
      else None)"

fun link_levels :: "addr \<Rightarrow> addr list \<Rightarrow> nat \<Rightarrow> skipList \<Rightarrow> skipList option" where
  "link_levels n update 0 s = Some s"
| "link_levels n update (Suc i) s = do {
     s' \<leftarrow> link_levels n update i s;
     link_level n update i s' }"

text \<open>The part that \<^verbatim>\<open>set\<close> and \<^verbatim>\<open>delete\<close> share when the key is not there.\<close>

definition insert_node :: "(nat \<Rightarrow> bool) \<Rightarrow> bytes \<Rightarrow> slice \<Rightarrow> bool \<Rightarrow> addr list \<Rightarrow> skipList \<Rightarrow> skipList option" where
  "insert_node coin key value deleted update s =
     (let (lvl, s) = randomLevel coin s;
          update = (if lvl > sl_level s then update @ replicate (lvl - sl_level s) 0 else update);
          s = (if lvl > sl_level s then s\<lparr>sl_level := lvl\<rparr> else s);
          n = length (sl_nodes s);
          s = s\<lparr>sl_nodes := sl_nodes s @ [newNode key value deleted lvl]\<rparr>
      in do {
        s \<leftarrow> link_levels n update lvl s;
        Some (s\<lparr>sl_length := sl_length s + 1,
           sl_byteSize := sl_byteSize s + int (length key) + int (length (slice_bytes value))\<rparr>) })"

definition update_node :: "addr \<Rightarrow> slice \<Rightarrow> bool \<Rightarrow> skipList \<Rightarrow> skipList option" where
  "update_node a value deleted s = do {
     n \<leftarrow> node_at s a;
     Some (s\<lparr>sl_byteSize := sl_byteSize s - int (length (slice_bytes (n_value n)))
                + int (length (slice_bytes value)),
             sl_nodes := (sl_nodes s)[a := n\<lparr>n_value := value, n_deleted := deleted\<rparr>]\<rparr>) }"

subsection \<open>The operations\<close>

definition find_existing :: "skipList \<Rightarrow> addr \<Rightarrow> bytes \<Rightarrow> addr option option" where
  "find_existing s cur key = do {
     existing \<leftarrow> forward_at s cur 0;
     (case existing of
        None \<Rightarrow> Some None
      | Some e \<Rightarrow> do {
          n \<leftarrow> node_at s e;
          Some (if n_key n = key then Some e else None) }) }"

definition sl_set :: "(nat \<Rightarrow> bool) \<Rightarrow> bytes \<Rightarrow> slice \<Rightarrow> skipList \<Rightarrow> skipList option" where
  "sl_set coin key value s = do {
     (cur, update) \<leftarrow> descend s key (sl_level s) 0;
     existing \<leftarrow> find_existing s cur key;
     (case existing of
        Some e \<Rightarrow> update_node e value False s
      | None \<Rightarrow> insert_node coin key value False update s) }"

definition sl_delete :: "(nat \<Rightarrow> bool) \<Rightarrow> bytes \<Rightarrow> skipList \<Rightarrow> skipList option" where
  "sl_delete coin key s = do {
     (cur, update) \<leftarrow> descend s key (sl_level s) 0;
     existing \<leftarrow> find_existing s cur key;
     (case existing of
        Some e \<Rightarrow> update_node e None True s
      | None \<Rightarrow> insert_node coin key None True update s) }"

definition sl_get :: "bytes \<Rightarrow> skipList \<Rightarrow> (slice \<times> bool \<times> bool) option" where
  "sl_get key s = do {
     (cur, _) \<leftarrow> descend s key (sl_level s) 0;
     existing \<leftarrow> find_existing s cur key;
     (case existing of
        None \<Rightarrow> Some (None, False, False)
      | Some e \<Rightarrow> do {
          n \<leftarrow> node_at s e;
          Some (n_value n, n_deleted n, True) }) }"

subsection \<open>The iterator\<close>

text \<open>An iterator is the address of the node before its current entry.\<close>

record Iterator =
  it_curr :: addr

definition newIterator :: "skipList \<Rightarrow> Iterator" where
  "newIterator s = \<lparr>it_curr = 0\<rparr>"

definition it_Valid :: "skipList \<Rightarrow> Iterator \<Rightarrow> bool option" where
  "it_Valid s it = map_option (\<lambda>p. p \<noteq> None) (forward_at s (it_curr it) 0)"

definition it_Next :: "skipList \<Rightarrow> Iterator \<Rightarrow> Iterator option" where
  "it_Next s it = do {
     p \<leftarrow> forward_at s (it_curr it) 0;
     Some (case p of None \<Rightarrow> it | Some a \<Rightarrow> it\<lparr>it_curr := a\<rparr>) }"

definition it_node :: "skipList \<Rightarrow> Iterator \<Rightarrow> node option" where
  "it_node s it = do {
     p \<leftarrow> forward_at s (it_curr it) 0;
     (case p of None \<Rightarrow> None | Some a \<Rightarrow> node_at s a) }"

definition it_Key :: "skipList \<Rightarrow> Iterator \<Rightarrow> bytes option" where
  "it_Key s it = map_option n_key (it_node s it)"

definition it_Value :: "skipList \<Rightarrow> Iterator \<Rightarrow> slice option" where
  "it_Value s it = map_option n_value (it_node s it)"

definition it_IsDeleted :: "skipList \<Rightarrow> Iterator \<Rightarrow> bool option" where
  "it_IsDeleted s it = map_option n_deleted (it_node s it)"

text \<open>The loop \<^verbatim>\<open>for ; it.Valid(); it.Next()\<close> of the clients, collecting what it sees.\<close>

partial_function (option) drain :: "skipList \<Rightarrow> Iterator \<Rightarrow> (bytes \<times> slice \<times> bool) list option" where
  "drain s it = do {
     v \<leftarrow> it_Valid s it;
     if v then do {
       k \<leftarrow> it_Key s it;
       x \<leftarrow> it_Value s it;
       d \<leftarrow> it_IsDeleted s it;
       it' \<leftarrow> it_Next s it;
       rest \<leftarrow> drain s it';
       Some ((k, x, d) # rest) }
     else Some [] }"

declare drain.simps [code]

subsection \<open>Chains of forward pointers\<close>

abbreviation key_of :: "node list \<Rightarrow> addr \<Rightarrow> bytes" where "key_of ns a \<equiv> n_key (ns ! a)"
abbreviation height :: "node list \<Rightarrow> addr \<Rightarrow> nat" where "height ns a \<equiv> length (n_forward (ns ! a))"
abbreviation nxt :: "node list \<Rightarrow> nat \<Rightarrow> addr \<Rightarrow> addr option" where "nxt ns i a \<equiv> n_forward (ns ! a) ! i"

text \<open>\<open>linked ns i a xs\<close>: from node \<open>a\<close> the pointers of level \<open>i\<close> lead through exactly the nodes
  \<open>xs\<close> to nil.\<close>

fun linked :: "node list \<Rightarrow> nat \<Rightarrow> addr \<Rightarrow> addr list \<Rightarrow> bool" where
  "linked ns i a [] \<longleftrightarrow> a < length ns \<and> i < height ns a \<and> nxt ns i a = None"
| "linked ns i a (b # xs) \<longleftrightarrow> a < length ns \<and> i < height ns a \<and> nxt ns i a = Some b \<and> linked ns i b xs"

lemma linked_forward:
  "linked (sl_nodes s) i a xs \<Longrightarrow> forward_at s a i = Some (case xs of [] \<Rightarrow> None | b # _ \<Rightarrow> Some b)"
  by (cases xs) (auto simp: forward_at_def node_at_def)

lemma linked_node: "linked ns i a xs \<Longrightarrow> b \<in> set (a # xs) \<Longrightarrow> b < length ns \<and> i < height ns b"
  by (induction ns i a xs rule: linked.induct) auto

lemma linked_suffix: "linked ns i a (xs @ c # ys) \<Longrightarrow> linked ns i c ys"
  by (induction xs arbitrary: a) auto

lemma linked_cong:
  assumes "\<And>b. b \<in> set (a # xs) \<Longrightarrow> b < length ns' \<and> i < height ns' b \<and> nxt ns' i b = nxt ns i b"
  shows "linked ns i a xs \<Longrightarrow> linked ns' i a xs"
  using assms by (induction xs arbitrary: a) auto

text \<open>Putting a node \<open>n\<close> after the last node of a prefix.\<close>

lemma linked_insert:
  assumes "linked ns i a (xs @ ys)" "distinct (a # xs @ ys)" "n \<notin> set (a # xs @ ys)"
    and p: "p = last (a # xs)"
    and n: "n < length ns'" "i < height ns' n" "nxt ns' i n = nxt ns i p"
    and ns': "\<And>b. b \<in> set (a # xs @ ys) \<Longrightarrow>
        b < length ns' \<and> i < height ns' b \<and> nxt ns' i b = (if b = p then Some n else nxt ns i b)"
  shows "linked ns' i a (xs @ n # ys)"
  using assms
proof (induction xs arbitrary: a)
  case Nil
  then have a: "p = a" by simp
  have "linked ns' i b zs" if "linked ns i b zs" "a \<notin> set (b # zs)" "set (b # zs) \<subseteq> set ys" for b zs
    using that Nil.prems(8) a by (induction zs arbitrary: b) auto
  with Nil.prems a show ?case by (cases ys) auto
next
  case (Cons c xs)
  have "linked ns' i c (xs @ n # ys)"
    using Cons.prems by (intro Cons.IH) auto
  moreover have "p \<noteq> a" using Cons.prems(2,4) by (auto split: if_splits)
  ultimately show ?case using Cons.prems by auto
qed

subsection \<open>The walk\<close>

lemma walk_linked:
  "linked (sl_nodes s) i a xs \<Longrightarrow>
     walk s k i a = Some (last (a # takeWhile (\<lambda>b. key_of (sl_nodes s) b < k) xs))"
proof (induction xs arbitrary: a)
  case Nil
  then show ?case by (subst walk.simps) (simp add: linked_forward [OF Nil] del: linked.simps)
next
  case (Cons b xs)
  have "node_at s b = Some (sl_nodes s ! b)"
    using linked_node [OF Cons.prems] by (simp add: node_at_def)
  moreover have "linked (sl_nodes s) i b xs" using Cons.prems by simp
  ultimately show ?case
    using Cons by (subst walk.simps) (simp add: linked_forward [OF Cons.prems])
qed

subsection \<open>The representation\<close>

text \<open>The list at level \<open>i\<close>: the nodes of the level-0 list that are taller than \<open>i\<close>.\<close>

abbreviation level_list :: "node list \<Rightarrow> addr list \<Rightarrow> nat \<Rightarrow> addr list" where
  "level_list ns L i \<equiv> filter (\<lambda>a. i < height ns a) L"

definition cell_of :: "node \<Rightarrow> cell" where
  "cell_of n = (if n_deleted n then Tomb else Val (n_value n))"

definition node_size :: "node \<Rightarrow> int" where
  "node_size n = int (length (n_key n)) + int (length (slice_bytes (n_value n)))"

definition shape :: "node list \<Rightarrow> nat \<Rightarrow> addr list \<Rightarrow> bool" where
  "shape ns lvl L \<longleftrightarrow> distinct (0 # L) \<and> (\<forall>a \<in> set (0 # L). a < length ns) \<and>
     height ns 0 = maxLevel \<and> (\<forall>a \<in> set L. 1 \<le> height ns a \<and> height ns a \<le> lvl) \<and>
     1 \<le> lvl \<and> lvl \<le> maxLevel \<and> sorted_wrt (<) (map (key_of ns) L) \<and>
     (\<forall>i<maxLevel. linked ns i 0 (level_list ns L i)) \<and>
     (\<forall>a \<in> set L. n_deleted (ns ! a) \<longrightarrow> n_value (ns ! a) = None)"

definition sl_rep :: "skipList \<Rightarrow> addr list \<Rightarrow> bool" where
  "sl_rep s L \<longleftrightarrow> shape (sl_nodes s) (sl_level s) L \<and> sl_length s = int (length L) \<and>
     sl_byteSize s = (\<Sum>a\<leftarrow>L. node_size (sl_nodes s ! a))"

definition rep_table :: "skipList \<Rightarrow> addr list \<Rightarrow> table" where
  "rep_table s L = map (\<lambda>a. (n_key (sl_nodes s ! a), cell_of (sl_nodes s ! a))) L"

lemma map_fst_rep_table: "map fst (rep_table s L) = map (key_of (sl_nodes s)) L"
  by (simp add: rep_table_def)

lemma sl_rep_sorted: "sl_rep s L \<Longrightarrow> sorted_table (rep_table s L)"
  by (simp add: map_fst_rep_table sl_rep_def shape_def)

lemma newSkipList_rep: "sl_rep newSkipList []"
  by (simp add: sl_rep_def shape_def newSkipList_def newNode_def maxLevel_def)

text \<open>In a sorted list, the nodes before a key are those with smaller keys, at every level.\<close>

lemma takeWhile_filter_sorted:
  "sorted_wrt (<) (map f L) \<Longrightarrow> takeWhile (\<lambda>a. f a < (k :: 'b :: order)) (filter P L) =
     filter P (takeWhile (\<lambda>a. f a < k) L)"
proof (induction L)
  case Nil
  then show ?case by simp
next
  case (Cons a L)
  have "takeWhile (\<lambda>a. f a < k) (filter P L) = []" if "\<not> f a < k"
  proof -
    have "\<forall>b \<in> set L. \<not> f b < k" using Cons.prems that by (auto dest: order_less_trans)
    then show ?thesis by (metis filter_is_subset in_mono list.set_sel(1) takeWhile.simps(1) takeWhile_eq_Nil_iff)
  qed
  with Cons show ?case by auto
qed

lemma dropWhile_filter_sorted:
  "sorted_wrt (<) (map f L) \<Longrightarrow> dropWhile (\<lambda>a. f a < (k :: 'b :: order)) (filter P L) =
     filter P (dropWhile (\<lambda>a. f a < k) L)"
proof -
  assume "sorted_wrt (<) (map f L)"
  then have "takeWhile (\<lambda>a. f a < k) (filter P L) @ dropWhile (\<lambda>a. f a < k) (filter P L) =
      filter P (takeWhile (\<lambda>a. f a < k) L) @ filter P (dropWhile (\<lambda>a. f a < k) L)"
    by (metis filter_append takeWhile_dropWhile_id)
  with \<open>sorted_wrt (<) (map f L)\<close> show ?thesis by (simp add: takeWhile_filter_sorted)
qed

subsection \<open>The search meets its specification\<close>

text \<open>The node after which the key belongs at level \<open>i\<close>.\<close>

abbreviation before :: "node list \<Rightarrow> addr list \<Rightarrow> bytes \<Rightarrow> addr list" where
  "before ns L k \<equiv> takeWhile (\<lambda>a. key_of ns a < k) L"

definition pred :: "node list \<Rightarrow> addr list \<Rightarrow> bytes \<Rightarrow> nat \<Rightarrow> addr" where
  "pred ns L k i = last (0 # level_list ns (before ns L k) i)"

lemma shape_linked: "shape ns lvl L \<Longrightarrow> i < maxLevel \<Longrightarrow> linked ns i 0 (level_list ns L i)"
  by (simp add: shape_def)

lemma shape_takeWhile:
  "shape ns lvl L \<Longrightarrow> takeWhile (\<lambda>a. key_of ns a < k) (level_list ns L i) = level_list ns (before ns L k) i"
  unfolding shape_def by (intro takeWhile_filter_sorted) blast

text \<open>Descending one level continues from where the level above stopped.\<close>

lemma walk_from_pred:
  assumes sh: "shape (sl_nodes s) lvl L" and i: "i < maxLevel"
  shows "walk s k i (pred (sl_nodes s) L k (Suc i)) = Some (pred (sl_nodes s) L k i)"
proof -
  let ?ns = "sl_nodes s"
  let ?T = "level_list ?ns (before ?ns L k) i"
  let ?L = "level_list ?ns L i"
  have T: "takeWhile (\<lambda>a. key_of ?ns a < k) ?L = ?T" by (rule shape_takeWhile [OF sh])
  have lk: "linked ?ns i 0 ?L" by (rule shape_linked [OF sh i])
  show ?thesis
  proof (cases "level_list ?ns (before ?ns L k) (Suc i) = []")
    case True
    then have "pred ?ns L k (Suc i) = 0" by (simp add: pred_def)
    with walk_linked [OF lk, of k] show ?thesis by (simp add: T pred_def)
  next
    case False
    let ?c = "pred ?ns L k (Suc i)"
    from False have "?c \<in> set (level_list ?ns (before ?ns L k) (Suc i))"
      unfolding pred_def by (metis last_ConsR last_in_set)
    then have "?c \<in> set ?T" by auto
    then obtain xs ys where split: "?T = xs @ ?c # ys" by (meson split_list)
    define D where "D = dropWhile (\<lambda>a. key_of ?ns a < k) ?L"
    have "?L = ?T @ D"
      using takeWhile_dropWhile_id [of "\<lambda>a. key_of ?ns a < k" ?L, symmetric] by (simp only: T D_def)
    then have L: "?L = xs @ ?c # (ys @ D)" by (simp only: split append.assoc append_Cons)
    have "linked ?ns i ?c (ys @ D)" using lk unfolding L by (rule linked_suffix)
    note walk_linked [OF this, of k]
    moreover have "takeWhile (\<lambda>a. key_of ?ns a < k) (ys @ D) = ys"
    proof -
      have "\<forall>a \<in> set ?T. key_of ?ns a < k" by (auto dest: set_takeWhileD)
      then have "\<forall>a \<in> set ys. key_of ?ns a < k" by (simp add: split)
      moreover have "takeWhile (\<lambda>a. key_of ?ns a < k) D = []"
        using hd_dropWhile [of "\<lambda>a. key_of ?ns a < k" ?L]
        by (auto simp: D_def takeWhile_eq_Nil_iff simp del: dropWhile_eq_Nil_conv)
      ultimately show ?thesis by (simp add: takeWhile_append2)
    qed
    moreover have "last (?c # ys) = pred ?ns L k i" unfolding pred_def split by simp
    ultimately show ?thesis by simp
  qed
qed

lemma descend_from_pred:
  assumes sh: "shape (sl_nodes s) lvl L"
  shows "n \<le> maxLevel \<Longrightarrow> descend s k n (pred (sl_nodes s) L k n) =
     Some (pred (sl_nodes s) L k 0, map (pred (sl_nodes s) L k) [0..<n])"
proof (induction n)
  case 0
  then show ?case by simp
next
  case (Suc n)
  then show ?case by (simp add: walk_from_pred [OF sh])
qed

lemma descend_rep:
  assumes sh: "shape (sl_nodes s) (sl_level s) L"
  shows "descend s k (sl_level s) 0 =
     Some (pred (sl_nodes s) L k 0, map (pred (sl_nodes s) L k) [0..<sl_level s])"
proof -
  have "level_list (sl_nodes s) (before (sl_nodes s) L k) (sl_level s) = []"
    using sh by (fastforce simp: shape_def filter_empty_conv dest: set_takeWhileD)
  then have "pred (sl_nodes s) L k (sl_level s) = 0" by (simp add: pred_def)
  with descend_from_pred [OF sh, of "sl_level s" k] sh show ?thesis by (simp add: shape_def)
qed

text \<open>The nodes from the key on, and what the search finds at level 0.\<close>

abbreviation from_key :: "node list \<Rightarrow> addr list \<Rightarrow> bytes \<Rightarrow> addr list" where
  "from_key ns L k \<equiv> dropWhile (\<lambda>a. key_of ns a < k) L"

lemma shape_level0: "shape ns lvl L \<Longrightarrow> set M \<subseteq> set L \<Longrightarrow> level_list ns M 0 = M"
  by (rule filter_True) (fastforce simp: shape_def)

lemma forward_pred:
  assumes sh: "shape (sl_nodes s) lvl L" and i: "i < maxLevel"
  shows "forward_at s (pred (sl_nodes s) L k i) i =
     Some (case level_list (sl_nodes s) (from_key (sl_nodes s) L k) i of [] \<Rightarrow> None | b # _ \<Rightarrow> Some b)"
proof -
  let ?ns = "sl_nodes s"
  let ?T = "level_list ?ns (before ?ns L k) i" and ?D = "level_list ?ns (from_key ?ns L k) i"
  have L: "level_list ?ns L i = ?T @ ?D" by (metis filter_append takeWhile_dropWhile_id)
  have lk: "linked ?ns i 0 (?T @ ?D)" using shape_linked [OF sh i] L by simp
  have "linked ?ns i (pred ?ns L k i) ?D"
  proof (cases "?T = []")
    case True
    with lk show ?thesis by (simp add: pred_def)
  next
    case False
    then have eq: "?T = butlast ?T @ [pred ?ns L k i]" by (simp add: pred_def)
    from lk have "linked ?ns i 0 ((butlast ?T @ [pred ?ns L k i]) @ ?D)" by (simp only: eq [symmetric])
    then show ?thesis by (simp add: linked_suffix)
  qed
  then show ?thesis by (rule linked_forward)
qed

lemma find_existing_rep:
  assumes sh: "shape (sl_nodes s) lvl L"
  shows "find_existing s (pred (sl_nodes s) L k 0) k =
     Some (case from_key (sl_nodes s) L k of [] \<Rightarrow> None
           | b # _ \<Rightarrow> if key_of (sl_nodes s) b = k then Some b else None)"
proof -
  let ?D = "from_key (sl_nodes s) L k"
  have D: "level_list (sl_nodes s) ?D 0 = ?D"
    by (rule shape_level0 [OF sh]) (auto dest: set_dropWhileD)
  have "b < length (sl_nodes s)" if "?D = b # xs" for b xs
  proof -
    have "b \<in> set L" using that by (metis list.set_intros(1) set_dropWhileD)
    with sh show ?thesis by (simp add: shape_def)
  qed
  moreover have "forward_at s (pred (sl_nodes s) L k 0) 0 =
      Some (case ?D of [] \<Rightarrow> None | b # _ \<Rightarrow> Some b)"
    using forward_pred [OF sh, of 0 k] unfolding D by (simp add: maxLevel_def)
  ultimately show ?thesis
    by (cases ?D) (simp_all add: find_existing_def node_at_def del: dropWhile_eq_Nil_conv)
qed

text \<open>Where a key occurs, the search finds its node; where not, the first node past it.\<close>

lemma from_key_cases:
  assumes "sorted_wrt (<) (map (key_of ns) L)"
  obtains (found) xs e ys where "L = xs @ e # ys" "key_of ns e = k"
      "before ns L k = xs" "from_key ns L k = e # ys"
      "\<forall>a \<in> set xs. key_of ns a < k" "\<forall>a \<in> set ys. k < key_of ns a"
    | (missing) "\<forall>a \<in> set (before ns L k). key_of ns a < k"
      "\<forall>a \<in> set (from_key ns L k). k < key_of ns a"
proof -
  let ?B = "before ns L k" and ?D = "from_key ns L k"
  have L: "L = ?B @ ?D" by simp
  have B: "\<forall>a \<in> set ?B. key_of ns a < k" by (auto dest: set_takeWhileD)
  have sD: "sorted_wrt (<) (map (key_of ns) ?D)"
    using assms by (simp add: sorted_wrt_map sorted_wrt_dropWhile)
  show thesis
  proof (cases ?D)
    case Nil
    with B show thesis by (intro missing) (simp_all del: dropWhile_eq_Nil_conv)
  next
    case (Cons e ys)
    have e: "\<not> key_of ns e < k" using Cons by (metis hd_dropWhile list.sel(1) list.simps(3))
    have ys: "\<forall>a \<in> set ys. key_of ns e < key_of ns a" using sD by (simp add: Cons)
    show thesis
    proof (cases "key_of ns e = k")
      case True
      with Cons B ys show thesis by (intro found [of ?B e ys]) (auto simp flip: Cons)
    next
      case False
      with e have "k < key_of ns e" by simp
      with ys Cons B show thesis by (intro missing) (auto dest: order_less_trans)
    qed
  qed
qed

subsection \<open>Linking a new node\<close>

text \<open>\<open>rewired ns ns' F\<close>: the same nodes with their pointers given by \<open>F\<close> (level, node).\<close>

definition rewired :: "node list \<Rightarrow> node list \<Rightarrow> (nat \<Rightarrow> addr \<Rightarrow> addr option) \<Rightarrow> bool" where
  "rewired ns ns' F \<longleftrightarrow> length ns' = length ns \<and>
     (\<forall>a<length ns. n_key (ns' ! a) = n_key (ns ! a) \<and> n_value (ns' ! a) = n_value (ns ! a) \<and>
        n_deleted (ns' ! a) = n_deleted (ns ! a) \<and> height ns' a = height ns a \<and>
        (\<forall>j<height ns a. nxt ns' j a = F j a))"

lemma rewiredD:
  assumes "rewired ns ns' F" "a < length ns"
  shows "n_key (ns' ! a) = n_key (ns ! a)" "n_value (ns' ! a) = n_value (ns ! a)"
    "n_deleted (ns' ! a) = n_deleted (ns ! a)" "height ns' a = height ns a"
    "j < height ns a \<Longrightarrow> nxt ns' j a = F j a"
  using assms by (auto simp: rewired_def)

lemma set_forward_in:
  "a < length (sl_nodes s) \<Longrightarrow> i < height (sl_nodes s) a \<Longrightarrow> set_forward a i p s =
     Some (s\<lparr>sl_nodes := (sl_nodes s)[a := (sl_nodes s ! a)\<lparr>n_forward := (n_forward (sl_nodes s ! a))[i := p]\<rparr>]\<rparr>)"
  by (simp add: set_forward_def node_at_def)

text \<open>The pointers after the first \<open>k\<close> turns of the linking loop.\<close>

abbreviation wired :: "node list \<Rightarrow> addr \<Rightarrow> addr list \<Rightarrow> nat \<Rightarrow> nat \<Rightarrow> addr \<Rightarrow> addr option" where
  "wired ns n update k j a \<equiv>
     (if j < k then if a = n then nxt ns j (update ! j)
        else if a = update ! j then Some n else nxt ns j a
      else nxt ns j a)"

lemma link_levels_rewired:
  assumes n: "n < length (sl_nodes s)" "h \<le> height (sl_nodes s) n"
    and u: "h \<le> length update"
      "\<And>i. i < h \<Longrightarrow> update ! i < length (sl_nodes s) \<and> i < height (sl_nodes s) (update ! i) \<and> update ! i \<noteq> n"
  shows "k \<le> h \<Longrightarrow> \<exists>ns'. link_levels n update k s = Some (s\<lparr>sl_nodes := ns'\<rparr>) \<and>
     rewired (sl_nodes s) ns' (wired (sl_nodes s) n update k)"
proof (induction k)
  case 0
  have "rewired (sl_nodes s) (sl_nodes s) (wired (sl_nodes s) n update 0)" by (simp add: rewired_def)
  then show ?case by (intro exI [of _ "sl_nodes s"]) simp
next
  case (Suc k)
  let ?ns = "sl_nodes s" and ?u = "update ! k"
  obtain ns' where s': "link_levels n update k s = Some (s\<lparr>sl_nodes := ns'\<rparr>)"
    and rw: "rewired ?ns ns' (wired ?ns n update k)" using Suc by auto
  have uk: "?u < length ?ns" "k < height ?ns ?u" "?u \<noteq> n" using u(2) [of k] Suc.prems by auto
  have len: "length ns' = length ?ns" using rw by (simp add: rewired_def)
  have hu: "height ns' ?u = height ?ns ?u" "height ns' n = height ?ns n"
    by (rule rewiredD (4) [OF rw], use uk n in simp)+
  have pk: "nxt ns' k ?u = nxt ?ns k ?u" using rewiredD(5) [OF rw uk(1,2)] by simp
  let ?n2 = "ns'[n := (ns' ! n)\<lparr>n_forward := (n_forward (ns' ! n))[k := nxt ?ns k ?u]\<rparr>]"
  let ?n3 = "?n2[?u := (ns' ! ?u)\<lparr>n_forward := (n_forward (ns' ! ?u))[k := Some n]\<rparr>]"
  have "link_level n update k (s\<lparr>sl_nodes := ns'\<rparr>) = Some (s\<lparr>sl_nodes := ?n3\<rparr>)"
    using uk n len hu u(1) Suc.prems
    by (simp add: link_level_def forward_at_def node_at_def set_forward_in pk)
  moreover have "rewired ?ns ?n3 (wired ?ns n update (Suc k))"
    unfolding rewired_def
  proof (intro conjI allI impI)
    show "length ?n3 = length ?ns" by (simp add: len)
    fix a assume a: "a < length ?ns"
    note rwa = rewiredD [OF rw a]
    have n3: "?n3 ! a = (if a = ?u then (ns' ! ?u)\<lparr>n_forward := (n_forward (ns' ! ?u))[k := Some n]\<rparr>
        else if a = n then (ns' ! n)\<lparr>n_forward := (n_forward (ns' ! n))[k := nxt ?ns k ?u]\<rparr> else ns' ! a)"
      using a len uk(1) n(1) by (simp add: nth_list_update)
    show "n_key (?n3 ! a) = n_key (?ns ! a)" "n_value (?n3 ! a) = n_value (?ns ! a)"
      "n_deleted (?n3 ! a) = n_deleted (?ns ! a)" "height ?n3 a = height ?ns a"
      unfolding n3 using rwa(1-4) by auto
    fix j assume j: "j < height ?ns a"
    show "nxt ?n3 j a = wired ?ns n update (Suc k) j a"
      unfolding n3 using rwa(4) rwa(5) [OF j] j uk(3)
      by (cases "a = ?u"; cases "a = n"; cases "j = k") (simp_all add: less_Suc_eq)
  qed
  ultimately show ?case by (auto simp: s')
qed

lemma random_level_bounds:
  "1 \<le> lvl \<Longrightarrow> lvl \<le> maxLevel \<Longrightarrow> random_level_loop coin pos lvl = (h, pos') \<Longrightarrow> 1 \<le> h \<and> h \<le> maxLevel"
proof (induction coin pos lvl rule: random_level_loop.induct)
  case (1 coin pos lvl)
  from "1.prems"(3) have "(if lvl < maxLevel then
        if coin pos then random_level_loop coin (Suc pos) (Suc lvl) else (lvl, Suc pos)
      else (lvl, pos)) = (h, pos')" by (subst (asm) random_level_loop.simps)
  with 1 show ?case by (auto split: if_splits)
qed

lemma randomLevel_bounds: "randomLevel coin s = (h, s') \<Longrightarrow> 1 \<le> h \<and> h \<le> maxLevel \<and> (\<exists>p. s' = s\<lparr>sl_rng := p\<rparr>)"
  by (auto simp: randomLevel_def maxLevel_def split: prod.splits dest: random_level_bounds [rotated 2])

subsection \<open>Insertion keeps the representation\<close>

lemma pred_high: "shape ns lvl L \<Longrightarrow> lvl \<le> i \<Longrightarrow> pred ns L k i = 0"
proof -
  assume "shape ns lvl L" "lvl \<le> i"
  then have "level_list ns (before ns L k) i = []"
    by (fastforce simp: shape_def filter_empty_conv dest: set_takeWhileD)
  then show ?thesis by (simp add: pred_def)
qed

lemma pred_in:
  assumes "shape ns lvl L" "i < maxLevel"
  shows "pred ns L k i < length ns \<and> i < height ns (pred ns L k i) \<and> pred ns L k i \<in> set (0 # L)"
proof -
  have "pred ns L k i \<in> set (0 # level_list ns (before ns L k) i)"
    unfolding pred_def by (rule last_in_set) simp
  with assms show ?thesis by (auto simp: shape_def dest: set_takeWhileD)
qed

text \<open>The store after linking a new node of height \<open>h\<close> at the key's place.\<close>

lemma linked_new_node:
  assumes sh: "shape ns lvl L" and h: "h \<le> maxLevel"
    and nd: "length (n_forward nd) = h"
    and U: "\<And>i. i < h \<Longrightarrow> U ! i = pred ns L k i"
    and rw: "rewired (ns @ [nd]) ns' (wired (ns @ [nd]) (length ns) U h)" and i: "i < maxLevel"
  shows "linked ns' i 0 (level_list ns' (before ns L k @ length ns # from_key ns L k) i)"
proof -
  let ?n = "length ns" and ?B = "before ns L k" and ?D = "from_key ns L k"
  have in_ns: "\<And>a. a \<in> set (0 # L) \<Longrightarrow> a < ?n" using sh by (auto simp: shape_def)
  have sub: "set ?B \<subseteq> set L" "set ?D \<subseteq> set L" by (auto dest: set_takeWhileD set_dropWhileD)
  have old: "height ns' a = height ns a"
    "i < height ns a \<Longrightarrow> nxt ns' i a = (if i < h \<and> a = U ! i then Some ?n else nxt ns i a)"
    if "a < ?n" for a
    using rewiredD(4,5) [OF rw, of a] that by (auto simp: nth_append)
  have hn: "height ns' ?n = h" using rewiredD(4) [OF rw, of ?n] nd by simp
  have hB: "level_list ns' ?B i = level_list ns ?B i" "level_list ns' ?D i = level_list ns ?D i"
    using old(1) in_ns sub by (auto intro!: filter_cong)
  have LL: "level_list ns L i = level_list ns ?B i @ level_list ns ?D i"
    by (metis filter_append takeWhile_dropWhile_id)
  have lk: "linked ns i 0 (level_list ns ?B i @ level_list ns ?D i)"
    using shape_linked [OF sh i] LL by simp
  have tall: "i < height ns a" "a < ?n" if "a \<in> set (0 # level_list ns ?B i @ level_list ns ?D i)" for a
    using linked_node [OF lk that] by simp_all
  show ?thesis
  proof (cases "i < h")
    case True
    have "linked ns' i 0 (level_list ns ?B i @ ?n # level_list ns ?D i)"
    proof (rule linked_insert [OF lk, where p = "pred ns L k i"])
      have "distinct (0 # L)" using sh by (simp add: shape_def)
      then show "distinct (0 # level_list ns ?B i @ level_list ns ?D i)"
        unfolding LL [symmetric] by auto
      show "?n \<notin> set (0 # level_list ns ?B i @ level_list ns ?D i)" using tall(2) by blast
      show "pred ns L k i = last (0 # level_list ns ?B i)" by (simp add: pred_def)
      show "?n < length ns'" using rw by (simp add: rewired_def)
      show "i < height ns' ?n" using hn True by simp
      show "nxt ns' i ?n = nxt ns i (pred ns L k i)"
        using rewiredD(5) [OF rw, of ?n i] True nd pred_in [OF sh i, of k] U [OF True]
        by (simp add: nth_append)
      fix b assume "b \<in> set (0 # level_list ns ?B i @ level_list ns ?D i)"
      note tall [OF this]
      then show "b < length ns' \<and> i < height ns' b \<and>
          nxt ns' i b = (if b = pred ns L k i then Some ?n else nxt ns i b)"
        using old [of b] rw True U [OF True] by (simp add: rewired_def)
    qed
    with True hB hn show ?thesis by simp
  next
    case False
    have "linked ns' i 0 (level_list ns ?B i @ level_list ns ?D i)"
    proof (rule linked_cong [OF _ lk])
      fix b assume "b \<in> set (0 # level_list ns ?B i @ level_list ns ?D i)"
      note tall [OF this]
      then show "b < length ns' \<and> i < height ns' b \<and> nxt ns' i b = nxt ns i b"
        using old [of b] rw False by (simp add: rewired_def)
    qed
    with False hB hn show ?thesis by simp
  qed
qed

lemma shape_insert:
  assumes sh: "shape ns lvl L" and h: "1 \<le> h" "h \<le> maxLevel"
    and nd: "length (n_forward nd) = h" "n_key nd = k" "n_deleted nd \<longrightarrow> n_value nd = None"
    and miss: "\<forall>a \<in> set (before ns L k). key_of ns a < k" "\<forall>a \<in> set (from_key ns L k). k < key_of ns a"
    and U: "\<And>i. i < h \<Longrightarrow> U ! i = pred ns L k i"
    and rw: "rewired (ns @ [nd]) ns' (wired (ns @ [nd]) (length ns) U h)"
  shows "shape ns' (max lvl h) (before ns L k @ length ns # from_key ns L k)"
proof -
  let ?n = "length ns" and ?B = "before ns L k" and ?D = "from_key ns L k"
  have L: "set L = set ?B \<union> set ?D" by (metis set_append takeWhile_dropWhile_id)
  have in_ns: "\<And>a. a \<in> set L \<Longrightarrow> a < ?n" and 0: "0 < ?n" using sh by (simp_all add: shape_def)
  have BD: "\<forall>a \<in> set ?B \<union> set ?D. a < ?n" using in_ns L by blast
  have same: "n_key (ns' ! a) = n_key (ns ! a)" "height ns' a = height ns a"
    "n_value (ns' ! a) = n_value (ns ! a)" "n_deleted (ns' ! a) = n_deleted (ns ! a)"
    if "a < ?n" for a using rewiredD(1-4) [OF rw, of a] that by (simp_all add: nth_append)
  have new: "n_key (ns' ! ?n) = k" "height ns' ?n = h" "n_value (ns' ! ?n) = n_value nd"
    "n_deleted (ns' ! ?n) = n_deleted nd"
    using rewiredD(1-4) [OF rw, of ?n] nd by simp_all
  have dist: "distinct (0 # ?B @ ?D)" using sh by (simp add: shape_def)
  have srt: "sorted_wrt (<) (map (key_of ns) (?B @ ?D))" using sh by (simp add: shape_def)
  have keys: "map (key_of ns') ?B = map (key_of ns) ?B" "map (key_of ns') ?D = map (key_of ns) ?D"
    using same(1) in_ns L by auto
  have "?n \<notin> set ?B" "?n \<notin> set ?D" using in_ns L by auto
  then have d: "distinct (0 # ?B @ ?n # ?D)" using dist 0 by (auto simp del: takeWhile_dropWhile_id)
  have s: "sorted_wrt (<) (map (key_of ns') (?B @ ?n # ?D))"
    using srt miss by (auto simp: sorted_wrt_append keys new(1) simp del: takeWhile_dropWhile_id)
  have "length ns' = Suc ?n" using rw by (simp add: rewired_def)
  then have a: "\<forall>a \<in> set (0 # ?B @ ?n # ?D). a < length ns'" using BD 0 by (auto simp: less_Suc_eq)
  have hh: "\<forall>a \<in> set (?B @ ?n # ?D). 1 \<le> height ns' a \<and> height ns' a \<le> max lvl h"
    using sh h same(2) new(2) in_ns L by (auto simp: shape_def le_max_iff_disj)
  have del: "\<forall>a \<in> set (?B @ ?n # ?D). n_deleted (ns' ! a) \<longrightarrow> n_value (ns' ! a) = None"
    using sh nd same(3,4) new in_ns L by (auto simp: shape_def)
  have "height ns' 0 = maxLevel" using same(2) [OF 0] sh by (simp add: shape_def)
  moreover have "1 \<le> max lvl h" "max lvl h \<le> maxLevel" using sh h by (simp_all add: shape_def)
  ultimately show ?thesis
    unfolding shape_def using d a s hh del linked_new_node [OF sh h(2) nd(1) U rw] by blast
qed

subsection \<open>The operations refine a sorted table\<close>

lemma table_upd_missing:
  assumes "\<forall>p \<in> set xs. fst p < k" "\<forall>p \<in> set ys. k < fst p"
  shows "table_upd k c (xs @ ys) = xs @ (k, c) # ys"
proof -
  have "dropWhile (\<lambda>p. fst p \<le> k) ys = ys" "takeWhile (\<lambda>p. fst p < k) ys = []"
    using assms(2) by (cases ys; fastforce)+
  with assms(1) show ?thesis
    by (simp add: table_upd_def takeWhile_append2 dropWhile_append2 less_imp_le)
qed

lemma table_upd_found:
  assumes "\<forall>p \<in> set xs. fst p < k" "\<forall>p \<in> set ys. k < fst p"
  shows "table_upd k c (xs @ (k, d) # ys) = xs @ (k, c) # ys"
proof -
  have "dropWhile (\<lambda>p. fst p \<le> k) ys = ys" using assms(2) by (cases ys; fastforce)
  with assms(1) show ?thesis
    by (simp add: table_upd_def takeWhile_append2 dropWhile_append2 less_imp_le)
qed

lemma insert_node_rep:
  assumes rep: "sl_rep s L"
    and miss: "\<forall>a \<in> set (before (sl_nodes s) L k). key_of (sl_nodes s) a < k"
      "\<forall>a \<in> set (from_key (sl_nodes s) L k). k < key_of (sl_nodes s) a"
    and v: "del \<longrightarrow> v = None"
  defines "U \<equiv> map (pred (sl_nodes s) L k) [0..<sl_level s]"
  shows "\<exists>s' L'. insert_node coin k v del U s = Some s' \<and> sl_rep s' L' \<and>
     rep_table s' L' = table_upd k (if del then Tomb else Val v) (rep_table s L)"
proof -
  let ?ns = "sl_nodes s" and ?n = "length (sl_nodes s)"
  let ?B = "before ?ns L k" and ?D = "from_key ?ns L k"
  have sh: "shape ?ns (sl_level s) L" using rep by (simp add: sl_rep_def)
  obtain h s1 where rl: "randomLevel coin s = (h, s1)" by (cases "randomLevel coin s")
  obtain p where h: "1 \<le> h" "h \<le> maxLevel" and s1: "s1 = s\<lparr>sl_rng := p\<rparr>"
    using randomLevel_bounds [OF rl] by blast
  define nd where "nd = newNode k v del h"
  define V where "V = (if h > sl_level s then U @ replicate (h - sl_level s) 0 else U)"
  define s2 where "s2 = (if h > sl_level s then s1\<lparr>sl_level := h\<rparr> else s1)\<lparr>sl_nodes := ?ns @ [nd]\<rparr>"
  have s2: "sl_nodes s2 = ?ns @ [nd]" "sl_level s2 = max (sl_level s) h" "sl_length s2 = sl_length s"
    "sl_byteSize s2 = sl_byteSize s" by (simp_all add: s2_def s1)
  have nd: "length (n_forward nd) = h" "n_key nd = k" "n_value nd = v" "n_deleted nd = del"
    by (simp_all add: nd_def newNode_def)
  have V: "V ! i = pred ?ns L k i" if "i < h" for i
    using that pred_high [OF sh, of i k] by (auto simp: V_def U_def nth_append)
  have Vin: "V ! i < length (sl_nodes s2) \<and> i < height (sl_nodes s2) (V ! i) \<and> V ! i \<noteq> ?n" if "i < h" for i
    using pred_in [OF sh, of i k] that h V [OF that] by (auto simp: s2 nth_append)
  have Vlen: "h \<le> length V" by (simp add: V_def U_def)
  have n1: "?n < length (sl_nodes s2)" and n2: "h \<le> height (sl_nodes s2) ?n"
    by (simp_all add: s2 nd(1))
  obtain ns' where lk: "link_levels ?n V h s2 = Some (s2\<lparr>sl_nodes := ns'\<rparr>)"
    and rw: "rewired (sl_nodes s2) ns' (wired (sl_nodes s2) ?n V h)"
    using link_levels_rewired [OF n1 n2 Vlen Vin order_refl] by blast
  let ?L = "?B @ ?n # ?D"
  define s' where "s' = s2\<lparr>sl_nodes := ns', sl_length := sl_length s + 1,
     sl_byteSize := sl_byteSize s + int (length k) + int (length (slice_bytes v))\<rparr>"
  have ins: "insert_node coin k v del U s = Some s'"
    using lk by (cases "h > sl_level s")
      (simp_all add: insert_node_def rl s1 Let_def V_def nd_def [symmetric] s'_def s2_def)
  have rw': "rewired (?ns @ [nd]) ns' (wired (?ns @ [nd]) ?n V h)" using rw unfolding s2(1) .
  have shape': "shape ns' (max (sl_level s) h) ?L"
    using shape_insert [OF sh h nd(1,2) _ miss V rw'] v nd by simp
  have in_ns: "\<forall>a \<in> set ?B \<union> set ?D. a < ?n"
    using sh by (auto simp: shape_def dest: set_takeWhileD set_dropWhileD)
  have old: "n_key (ns' ! a) = n_key (?ns ! a)" "n_value (ns' ! a) = n_value (?ns ! a)"
     "n_deleted (ns' ! a) = n_deleted (?ns ! a)" if "a < ?n" for a
    using rewiredD(1-3) [OF rw', of a] that by (simp_all add: nth_append)
  have new: "n_key (ns' ! ?n) = k" "n_value (ns' ! ?n) = v" "n_deleted (ns' ! ?n) = del"
    using rewiredD(1-3) [OF rw', of ?n] nd by simp_all
  have L: "L = ?B @ ?D" by simp
  have len: "length ?L = Suc (length L)"
    using arg_cong [OF L, of length] by (simp del: takeWhile_dropWhile_id)
  have sz: "(\<Sum>a\<leftarrow>M. node_size (ns' ! a)) = (\<Sum>a\<leftarrow>M. node_size (?ns ! a))" if "set M \<subseteq> set ?B \<union> set ?D" for M
    using that in_ns old by (intro arg_cong [of _ _ sum_list] map_cong) (auto simp: node_size_def)
  have "(\<Sum>a\<leftarrow>?L. node_size (ns' ! a)) = sl_byteSize s + node_size (ns' ! ?n)"
    using rep sz [of ?B] sz [of ?D]
    by (subst (asm) sl_rep_def, subst (asm) (3) L) (simp del: takeWhile_dropWhile_id)
  then have "sl_rep s' ?L"
    using shape' rep len by (simp add: sl_rep_def s'_def s2 node_size_def new)
  moreover have "rep_table s' ?L = table_upd k (if del then Tomb else Val v) (rep_table s L)"
  proof -
    have t: "map (\<lambda>a. (n_key (ns' ! a), cell_of (ns' ! a))) M = rep_table s M" if "set M \<subseteq> set ?B \<union> set ?D" for M
      using that in_ns old by (auto simp: rep_table_def cell_of_def)
    have "rep_table s L = rep_table s ?B @ rep_table s ?D"
      by (subst L) (simp only: rep_table_def map_append)
    moreover have "table_upd k (if del then Tomb else Val v) (rep_table s ?B @ rep_table s ?D) =
        rep_table s ?B @ (k, if del then Tomb else Val v) # rep_table s ?D"
      using miss by (intro table_upd_missing) (auto simp: rep_table_def)
    ultimately show ?thesis
      using t [of ?B] t [of ?D] new by (simp add: rep_table_def s'_def s2 cell_of_def)
  qed
  ultimately show ?thesis using ins by blast
qed

lemma update_node_rep:
  assumes rep: "sl_rep s L" and L: "L = xs @ e # ys" and k: "key_of (sl_nodes s) e = k"
    and ord: "\<forall>a \<in> set xs. key_of (sl_nodes s) a < k" "\<forall>a \<in> set ys. k < key_of (sl_nodes s) a"
    and v: "del \<longrightarrow> v = None"
  shows "\<exists>s'. update_node e v del s = Some s' \<and> sl_rep s' L \<and>
     rep_table s' L = table_upd k (if del then Tomb else Val v) (rep_table s L)"
proof -
  let ?ns = "sl_nodes s"
  let ?ns' = "?ns[e := (?ns ! e)\<lparr>n_value := v, n_deleted := del\<rparr>]"
  let ?s' = "s\<lparr>sl_byteSize := sl_byteSize s - int (length (slice_bytes (n_value (?ns ! e))))
       + int (length (slice_bytes v)), sl_nodes := ?ns'\<rparr>"
  have sh: "shape ?ns (sl_level s) L" using rep by (simp add: sl_rep_def)
  have e: "e < length ?ns" "e \<notin> set xs" "e \<notin> set ys" using sh by (auto simp: shape_def L)
  have upd: "update_node e v del s = Some ?s'" using e by (simp add: update_node_def node_at_def)
  have fwd: "n_forward (?ns' ! a) = n_forward (?ns ! a)" "n_key (?ns' ! a) = n_key (?ns ! a)" for a
    using e by (cases "a = e"; simp)+
  have other: "?ns' ! a = ?ns ! a" if "a \<noteq> e" for a using that by simp
  have self: "?ns' ! e = (?ns ! e)\<lparr>n_value := v, n_deleted := del\<rparr>" using e by simp
  have lk: "linked ?ns' i 0 (level_list ?ns' L i)" if "i < maxLevel" for i
  proof -
    note l = shape_linked [OF sh that]
    have "linked ?ns' i 0 (level_list ?ns L i)"
      by (rule linked_cong [OF _ l]) (simp only: fwd length_list_update linked_node [OF l] simp_thms)
    then show ?thesis by (simp only: fwd)
  qed
  have dl: "\<forall>a \<in> set L. n_deleted (?ns' ! a) \<longrightarrow> n_value (?ns' ! a) = None"
  proof
    fix a assume "a \<in> set L"
    with sh v self show "n_deleted (?ns' ! a) \<longrightarrow> n_value (?ns' ! a) = None"
      by (cases "a = e") (auto simp: shape_def)
  qed
  have shape': "shape ?ns' (sl_level s) L"
    using sh lk dl unfolding shape_def by (simp only: fwd length_list_update) simp
  have M: "map (\<lambda>a. f (?ns' ! a)) M = map (\<lambda>a. f (?ns ! a)) M" if "e \<notin> set M" for M and f :: "node \<Rightarrow> 'b"
    using that by (intro map_cong refl arg_cong [of _ _ f] other) auto
  have "(\<Sum>a\<leftarrow>L. node_size (?ns' ! a)) = (\<Sum>a\<leftarrow>L. node_size (?ns ! a))
      - int (length (slice_bytes (n_value (?ns ! e)))) + int (length (slice_bytes v))"
    by (simp add: L M [OF e(2), of node_size] M [OF e(3), of node_size] self)
      (simp add: node_size_def)
  with shape' rep have "sl_rep ?s' L" by (simp add: sl_rep_def)
  moreover have "rep_table ?s' L = table_upd k (if del then Tomb else Val v) (rep_table s L)"
  proof -
    have "table_upd k (if del then Tomb else Val v)
        (rep_table s xs @ (k, cell_of (?ns ! e)) # rep_table s ys)
      = rep_table s xs @ (k, if del then Tomb else Val v) # rep_table s ys"
      using ord by (intro table_upd_found) (auto simp: rep_table_def)
    moreover have "rep_table ?s' L = rep_table s xs @ (k, if del then Tomb else Val v) # rep_table s ys"
      by (simp add: rep_table_def L self k M [OF e(2), of "\<lambda>n. (n_key n, cell_of n)"]
          M [OF e(3), of "\<lambda>n. (n_key n, cell_of n)"]) (simp add: cell_of_def)
    ultimately show ?thesis using k by (simp add: rep_table_def L)
  qed
  ultimately show ?thesis using upd by blast
qed

text \<open>Both writes at once: search, then update in place or insert.\<close>

lemma write_rep:
  assumes rep: "sl_rep s L" and v: "del \<longrightarrow> v = None"
  shows "\<exists>s' L'. (do { (cur, update) \<leftarrow> descend s k (sl_level s) 0;
       existing \<leftarrow> find_existing s cur k;
       (case existing of
          Some e \<Rightarrow> update_node e v del s
        | None \<Rightarrow> insert_node coin k v del update s) }) = Some s' \<and> sl_rep s' L' \<and>
     rep_table s' L' = table_upd k (if del then Tomb else Val v) (rep_table s L)"
proof -
  have sh: "shape (sl_nodes s) (sl_level s) L" using rep by (simp add: sl_rep_def)
  have srt: "sorted_wrt (<) (map (key_of (sl_nodes s)) L)" using sh by (simp add: shape_def)
  note search = descend_rep [OF sh, of k] find_existing_rep [OF sh, of k]
  from srt show ?thesis
  proof (cases rule: from_key_cases [where k = k])
    case (found xs e ys)
    with update_node_rep [OF rep found(1,2,5,6) v] search show ?thesis by auto
  next
    case missing
    have "(case from_key (sl_nodes s) L k of [] \<Rightarrow> None
           | b # _ \<Rightarrow> if key_of (sl_nodes s) b = k then Some b else None) = None"
      using missing(2) by (cases "from_key (sl_nodes s) L k") (auto simp del: dropWhile_eq_Nil_conv)
    with insert_node_rep [OF rep missing v] search show ?thesis by simp
  qed
qed

lemma sl_set_rep:
  "sl_rep s L \<Longrightarrow> \<exists>s' L'. sl_set coin k v s = Some s' \<and> sl_rep s' L' \<and>
     rep_table s' L' = table_upd k (Val v) (rep_table s L)"
  using write_rep [of s L False v k coin] by (simp add: sl_set_def)

lemma sl_delete_rep:
  "sl_rep s L \<Longrightarrow> \<exists>s' L'. sl_delete coin k s = Some s' \<and> sl_rep s' L' \<and>
     rep_table s' L' = table_upd k Tomb (rep_table s L)"
  using write_rep [of s L True None k coin] by (simp add: sl_delete_def)

text \<open>What \<^verbatim>\<open>get\<close> returns for a cell of the table.\<close>

definition get_result :: "cell option \<Rightarrow> slice \<times> bool \<times> bool" where
  "get_result c = (case c of
     None \<Rightarrow> (None, False, False) | Some Tomb \<Rightarrow> (None, True, True) | Some (Val v) \<Rightarrow> (v, False, True))"

lemma sl_get_rep:
  assumes rep: "sl_rep s L"
  shows "sl_get k s = Some (get_result (map_of (rep_table s L) k))"
proof -
  have sh: "shape (sl_nodes s) (sl_level s) L" using rep by (simp add: sl_rep_def)
  have srt: "sorted_wrt (<) (map (key_of (sl_nodes s)) L)" using sh by (simp add: shape_def)
  have dis: "distinct (map fst (rep_table s L))" using sl_rep_sorted [OF rep] by (rule sorted_table_distinct)
  note search = descend_rep [OF sh, of k] find_existing_rep [OF sh, of k]
  from srt show ?thesis
  proof (cases rule: from_key_cases [where k = k])
    case (found xs e ys)
    have "(k, cell_of (sl_nodes s ! e)) \<in> set (rep_table s L)" using found by (auto simp: rep_table_def)
    with dis have "map_of (rep_table s L) k = Some (cell_of (sl_nodes s ! e))" by simp
    moreover have "e < length (sl_nodes s)" "n_deleted (sl_nodes s ! e) \<longrightarrow> n_value (sl_nodes s ! e) = None"
      using sh found(1) by (auto simp: shape_def)
    ultimately show ?thesis
      using search found by (simp add: sl_get_def get_result_def cell_of_def node_at_def)
  next
    case missing
    have none: "(case from_key (sl_nodes s) L k of [] \<Rightarrow> None
           | b # _ \<Rightarrow> if key_of (sl_nodes s) b = k then Some b else None) = None"
      using missing(2) by (cases "from_key (sl_nodes s) L k") (auto simp del: dropWhile_eq_Nil_conv)
    have "set L = set (before (sl_nodes s) L k) \<union> set (from_key (sl_nodes s) L k)"
      by (metis set_append takeWhile_dropWhile_id)
    with missing have "map_of (rep_table s L) k = None"
      by (auto simp: map_of_eq_None_iff rep_table_def)
    with none search show ?thesis by (simp add: sl_get_def get_result_def)
  qed
qed

subsection \<open>Iteration\<close>

lemma drain_linked:
  "linked (sl_nodes s) 0 a xs \<Longrightarrow> drain s \<lparr>it_curr = a\<rparr> =
     Some (map (\<lambda>b. (key_of (sl_nodes s) b, n_value (sl_nodes s ! b), n_deleted (sl_nodes s ! b))) xs)"
proof (induction xs arbitrary: a)
  case Nil
  then show ?case
    by (subst drain.simps) (simp add: it_Valid_def linked_forward [OF Nil] del: linked.simps)
next
  case (Cons b xs)
  have n: "node_at s b = Some (sl_nodes s ! b)"
    using linked_node [OF Cons.prems] by (simp add: node_at_def)
  have "linked (sl_nodes s) 0 b xs" using Cons.prems by simp
  note IH = Cons.IH [OF this]
  show ?case
    by (subst drain.simps)
      (simp add: it_Valid_def it_Key_def it_Value_def it_IsDeleted_def it_Next_def it_node_def
        linked_forward [OF Cons.prems] n IH del: linked.simps)
qed

definition entry_cell :: "bytes \<times> slice \<times> bool \<Rightarrow> bytes \<times> cell" where
  "entry_cell = (\<lambda>(k, v, d). (k, if d then Tomb else Val v))"

lemma drain_rep:
  assumes "sl_rep s L"
  shows "\<exists>es. drain s (newIterator s) = Some es \<and> map entry_cell es = rep_table s L"
proof -
  have sh: "shape (sl_nodes s) (sl_level s) L" using assms by (simp add: sl_rep_def)
  have "linked (sl_nodes s) 0 0 L"
    using shape_linked [OF sh, of 0] shape_level0 [OF sh subset_refl] by (simp add: maxLevel_def)
  from drain_linked [OF this] show ?thesis
    by (simp add: newIterator_def rep_table_def entry_cell_def cell_of_def comp_def)
qed

text \<open>The table a skip list holds, read off by the iterator, and the invariant of the operations.\<close>

definition sl_table :: "skipList \<Rightarrow> table" where
  "sl_table s = (case drain s (newIterator s) of None \<Rightarrow> [] | Some es \<Rightarrow> map entry_cell es)"

definition sl_inv :: "skipList \<Rightarrow> bool" where
  "sl_inv s \<longleftrightarrow> (\<exists>L. sl_rep s L)"

lemma sl_table_rep: "sl_rep s L \<Longrightarrow> sl_table s = rep_table s L"
  using drain_rep [of s L] by (auto simp: sl_table_def)

subsection \<open>The interface of an ordered store\<close>

text \<open>A whole history of writes: a pair of a key and a value, or no value for a deletion, and the map
  from keys to cells it amounts to.\<close>

fun store_writes :: "(bytes \<Rightarrow> slice \<Rightarrow> 's \<Rightarrow> 's option) \<Rightarrow> (bytes \<Rightarrow> 's \<Rightarrow> 's option) \<Rightarrow>
    (bytes \<times> slice option) list \<Rightarrow> 's \<Rightarrow> 's option" where
  "store_writes put del [] s = Some s"
| "store_writes put del ((k, w) # ws) s =
     Option.bind (case w of None \<Rightarrow> del k s | Some v \<Rightarrow> put k v s) (store_writes put del ws)"

fun write_cell :: "slice option \<Rightarrow> cell" where
  "write_cell None = Tomb"
| "write_cell (Some v) = Val v"

definition map_writes :: "(bytes \<times> slice option) list \<Rightarrow> (bytes \<rightharpoonup> cell) \<Rightarrow> (bytes \<rightharpoonup> cell)" where
  "map_writes ws m = foldl (\<lambda>m (k, w). m(k \<mapsto> write_cell w)) m ws"

lemma map_writes_simps [simp]:
  "map_writes [] m = m" "map_writes ((k, w) # ws) m = map_writes ws (m(k \<mapsto> write_cell w))"
  by (simp_all add: map_writes_def)

lemma dom_map_writes: "dom (map_writes ws m) = dom m \<union> fst ` set ws"
proof (induction ws arbitrary: m)
  case (Cons kw ws)
  then show ?case by (cases kw) (simp del: fun_upd_apply)
qed simp

text \<open>What the layers above rely on: every call returns, the table stays sorted, writes update it
  and reads look it up.\<close>

locale ordered_store =
  fixes empty :: 's
    and put :: "bytes \<Rightarrow> slice \<Rightarrow> 's \<Rightarrow> 's option"
    and del :: "bytes \<Rightarrow> 's \<Rightarrow> 's option"
    and look :: "bytes \<Rightarrow> 's \<Rightarrow> (slice \<times> bool \<times> bool) option"
    and tab :: "'s \<Rightarrow> table"
    and inv :: "'s \<Rightarrow> bool"
  assumes inv_empty: "inv empty" and tab_empty: "tab empty = []"
    and tab_sorted: "inv s \<Longrightarrow> sorted_table (tab s)"
    and put_ok: "inv s \<Longrightarrow> \<exists>s'. put k v s = Some s' \<and> inv s' \<and> tab s' = table_upd k (Val v) (tab s)"
    and del_ok: "inv s \<Longrightarrow> \<exists>s'. del k s = Some s' \<and> inv s' \<and> tab s' = table_upd k Tomb (tab s)"
    and look_ok: "inv s \<Longrightarrow> look k s = Some (get_result (map_of (tab s) k))"
begin

lemma look_after_put: "inv s \<Longrightarrow> put k v s = Some s' \<Longrightarrow>
    look k' s' = (if k' = k then Some (v, False, True) else look k' s)"
  using put_ok [of s k v] tab_sorted [of s]
  by (auto simp: look_ok map_of_table_upd get_result_def)

lemma look_after_del: "inv s \<Longrightarrow> del k s = Some s' \<Longrightarrow>
    look k' s' = (if k' = k then Some (None, True, True) else look k' s)"
  using del_ok [of s k] tab_sorted [of s]
  by (auto simp: look_ok map_of_table_upd get_result_def)

lemma writes_table: "inv s \<Longrightarrow> \<exists>s'. store_writes put del ws s = Some s' \<and> inv s' \<and>
    tab s' = fold (\<lambda>(k, w). table_upd k (write_cell w)) ws (tab s)"
proof (induction ws arbitrary: s)
  case Nil
  then show ?case by simp
next
  case (Cons kw ws)
  obtain k w where kw: "kw = (k, w)" by (cases kw)
  obtain s1 where s1: "(case w of None \<Rightarrow> del k s | Some v \<Rightarrow> put k v s) = Some s1" "inv s1"
      "tab s1 = table_upd k (write_cell w) (tab s)"
    using put_ok [OF Cons.prems] del_ok [OF Cons.prems] by (cases w) fastforce+
  with Cons.IH [OF s1(2)] show ?case by (simp add: kw)
qed

lemma fold_table_upd:
  "sorted_table t \<Longrightarrow> map_of (fold (\<lambda>(k, w). table_upd k (write_cell w)) ws t) = map_writes ws (map_of t)"
proof (induction ws arbitrary: t)
  case (Cons kw ws)
  from Cons.IH [OF sorted_table_upd [OF Cons.prems]] show ?case
    by (cases kw) (simp add: map_of_table_upd [OF Cons.prems] del: fun_upd_apply)
qed simp

lemma writes_ok: "inv s \<Longrightarrow> \<exists>s'. store_writes put del ws s = Some s' \<and> inv s' \<and>
    map_of (tab s') = map_writes ws (map_of (tab s))"
  using writes_table [of s ws] fold_table_upd [OF tab_sorted] by auto

end

interpretation skip: ordered_store newSkipList "sl_set coin" "sl_delete coin" sl_get sl_table sl_inv for coin
proof
  show "sl_inv newSkipList" "sl_table newSkipList = []"
    using newSkipList_rep sl_table_rep by (auto simp: sl_inv_def rep_table_def)
  fix s k v assume inv: "sl_inv s"
  then obtain L where L: "sl_rep s L" by (auto simp: sl_inv_def)
  show "sorted_table (sl_table s)" using sl_rep_sorted [OF L] sl_table_rep [OF L] by simp
  show "\<exists>s'. sl_set coin k v s = Some s' \<and> sl_inv s' \<and> sl_table s' = table_upd k (Val v) (sl_table s)"
    using sl_set_rep [OF L] sl_table_rep L unfolding sl_inv_def by metis
  show "\<exists>s'. sl_delete coin k s = Some s' \<and> sl_inv s' \<and> sl_table s' = table_upd k Tomb (sl_table s)"
    using sl_delete_rep [OF L] sl_table_rep L unfolding sl_inv_def by metis
  show "sl_get k s = Some (get_result (map_of (sl_table s) k))"
    using sl_get_rep [OF L] sl_table_rep [OF L] by simp
qed

subsection \<open>The size counters\<close>

definition cell_bytes :: "cell \<Rightarrow> int" where
  "cell_bytes c = (case c of Tomb \<Rightarrow> 0 | Val v \<Rightarrow> int (length (slice_bytes v)))"

definition table_bytes :: "table \<Rightarrow> int" where
  "table_bytes t = (\<Sum>(k, c)\<leftarrow>t. int (length k) + cell_bytes c)"

lemma sl_inv_sizes:
  assumes "sl_inv s"
  shows "sl_length s = int (length (sl_table s))" "sl_byteSize s = table_bytes (sl_table s)"
proof -
  obtain L where L: "sl_rep s L" using assms by (auto simp: sl_inv_def)
  show "sl_length s = int (length (sl_table s))"
    using L by (simp add: sl_table_rep [OF L] sl_rep_def rep_table_def)
  have "node_size (sl_nodes s ! a) = int (length (key_of (sl_nodes s) a)) + cell_bytes (cell_of (sl_nodes s ! a))"
    if "a \<in> set L" for a
    using L that by (auto simp: sl_rep_def shape_def node_size_def cell_bytes_def cell_of_def)
  then have "map (\<lambda>a. node_size (sl_nodes s ! a)) L = map (\<lambda>(k, c). int (length k) + cell_bytes c) (rep_table s L)"
    by (simp add: rep_table_def)
  with L show "sl_byteSize s = table_bytes (sl_table s)"
    by (simp add: sl_table_rep [OF L] sl_rep_def table_bytes_def)
qed

lemma drain_table: "sl_inv s \<Longrightarrow> \<exists>es. drain s (newIterator s) = Some es \<and> map entry_cell es = sl_table s"
  using drain_rep by (fastforce simp: sl_inv_def sl_table_def)

end
