(* ===== verification/Mem_Table.thy ===== *)
theory Mem_Table
  imports Skip_List
begin

text \<open>
  The MemTable of \<^verbatim>\<open>internal/memtable/memtable.go\<close>: a skip list behind a lock.  Every method holds the
  lock for its whole body, so each is one atomic operation.  The properties say what any history of
  writes does: it returns, and reads, iteration and the size counters agree with a finite map.
\<close>

record Entry =
  e_Key :: bytes
  e_Value :: slice
  e_Deleted :: bool

record MemTable =
  mt_list :: skipList

definition New :: MemTable where
  "New = \<lparr>mt_list = newSkipList\<rparr>"

definition mt_Set :: "(nat \<Rightarrow> bool) \<Rightarrow> bytes \<Rightarrow> slice \<Rightarrow> MemTable \<Rightarrow> MemTable option" where
  "mt_Set coin key value mt = map_option (\<lambda>l. mt\<lparr>mt_list := l\<rparr>) (sl_set coin key value (mt_list mt))"

definition mt_Delete :: "(nat \<Rightarrow> bool) \<Rightarrow> bytes \<Rightarrow> MemTable \<Rightarrow> MemTable option" where
  "mt_Delete coin key mt = map_option (\<lambda>l. mt\<lparr>mt_list := l\<rparr>) (sl_delete coin key (mt_list mt))"

definition mt_Get :: "bytes \<Rightarrow> MemTable \<Rightarrow> (Entry \<times> bool) option" where
  "mt_Get key mt = do {
     (value, deleted, found) \<leftarrow> sl_get key (mt_list mt);
     Some (if \<not> found then (\<lparr>e_Key = [], e_Value = None, e_Deleted = False\<rparr>, False)
           else (\<lparr>e_Key = key, e_Value = value, e_Deleted = deleted\<rparr>, True)) }"

definition mt_NewIterator :: "MemTable \<Rightarrow> Iterator" where
  "mt_NewIterator mt = newIterator (mt_list mt)"

definition mt_ByteSize :: "MemTable \<Rightarrow> int" where
  "mt_ByteSize mt = sl_byteSize (mt_list mt)"

definition mt_Len :: "MemTable \<Rightarrow> int" where
  "mt_Len mt = sl_length (mt_list mt)"

subsection \<open>The MemTable is an ordered store\<close>

definition mt_table :: "MemTable \<Rightarrow> table" where
  "mt_table mt = sl_table (mt_list mt)"

definition mt_inv :: "MemTable \<Rightarrow> bool" where
  "mt_inv mt \<longleftrightarrow> sl_inv (mt_list mt)"

definition mt_look :: "bytes \<Rightarrow> MemTable \<Rightarrow> (slice \<times> bool \<times> bool) option" where
  "mt_look key mt = map_option (\<lambda>(e, found). (e_Value e, e_Deleted e, found)) (mt_Get key mt)"

lemma mt_Get_table:
  assumes "mt_inv mt"
  shows "mt_Get key mt = Some (case map_of (mt_table mt) key of
      None \<Rightarrow> (\<lparr>e_Key = [], e_Value = None, e_Deleted = False\<rparr>, False)
    | Some Tomb \<Rightarrow> (\<lparr>e_Key = key, e_Value = None, e_Deleted = True\<rparr>, True)
    | Some (Val v) \<Rightarrow> (\<lparr>e_Key = key, e_Value = v, e_Deleted = False\<rparr>, True))"
  using assms skip.look_ok [of "mt_list mt" key]
  by (simp add: mt_Get_def mt_inv_def mt_table_def get_result_def split: option.split cell.split)

interpretation mem: ordered_store New "mt_Set coin" "mt_Delete coin" mt_look mt_table mt_inv for coin
proof
  show "mt_inv New" "mt_table New = []"
    using skip.inv_empty skip.tab_empty by (simp_all add: New_def mt_inv_def mt_table_def)
  fix s k v assume inv: "mt_inv s"
  then have sl: "sl_inv (mt_list s)" by (simp add: mt_inv_def)
  show "sorted_table (mt_table s)" using skip.tab_sorted [OF sl] by (simp add: mt_table_def)
  show "\<exists>s'. mt_Set coin k v s = Some s' \<and> mt_inv s' \<and> mt_table s' = table_upd k (Val v) (mt_table s)"
    using skip.put_ok [OF sl, of coin k v] by (auto simp: mt_Set_def mt_inv_def mt_table_def)
  show "\<exists>s'. mt_Delete coin k s = Some s' \<and> mt_inv s' \<and> mt_table s' = table_upd k Tomb (mt_table s)"
    using skip.del_ok [OF sl, of coin k] by (auto simp: mt_Delete_def mt_inv_def mt_table_def)
  show "mt_look k s = Some (get_result (map_of (mt_table s) k))"
    by (simp add: mt_look_def mt_Get_table [OF inv] get_result_def split: option.split cell.split)
qed

lemma mt_sizes:
  "mt_inv mt \<Longrightarrow> mt_Len mt = int (length (mt_table mt))"
  "mt_inv mt \<Longrightarrow> mt_ByteSize mt = table_bytes (mt_table mt)"
  by (simp_all add: mt_Len_def mt_ByteSize_def mt_table_def mt_inv_def sl_inv_sizes)

lemma mt_drain:
  "mt_inv mt \<Longrightarrow> \<exists>es. drain (mt_list mt) (mt_NewIterator mt) = Some es \<and> map entry_cell es = mt_table mt"
  by (simp add: mt_inv_def mt_table_def mt_NewIterator_def drain_table)

subsection \<open>Properties\<close>

text \<open>C13. Any history of sets and deletes on a new MemTable returns, for any outcomes of the random
  source, and a read then gives for every key the last write: its value, a tombstone, or not found
  if the key was never written.\<close>

theorem memtable_reads_last_write:
  "\<exists>mt. store_writes (mt_Set coin) (mt_Delete coin) ws New = Some mt \<and>
     (\<forall>key. mt_Get key mt = Some (case map_writes ws Map.empty key of
        None \<Rightarrow> (\<lparr>e_Key = [], e_Value = None, e_Deleted = False\<rparr>, False)
      | Some Tomb \<Rightarrow> (\<lparr>e_Key = key, e_Value = None, e_Deleted = True\<rparr>, True)
      | Some (Val v) \<Rightarrow> (\<lparr>e_Key = key, e_Value = v, e_Deleted = False\<rparr>, True)))"
proof -
  obtain mt where "store_writes (mt_Set coin) (mt_Delete coin) ws New = Some mt" "mt_inv mt"
      "map_of (mt_table mt) = map_writes ws (map_of (mt_table New))"
    using mem.writes_ok [OF mem.inv_empty] by blast
  then show ?thesis by (simp add: mt_Get_table mem.tab_empty)
qed

text \<open>C16. After any history of writes the iterator loop ends and visits the keys that were written
  exactly once each, in strictly increasing order, each with its last write.\<close>

theorem memtable_iterates_sorted:
  "\<exists>mt es. store_writes (mt_Set coin) (mt_Delete coin) ws New = Some mt \<and>
     drain (mt_list mt) (mt_NewIterator mt) = Some es \<and> sorted_wrt (<) (map fst es) \<and>
     map_of (map entry_cell es) = map_writes ws Map.empty"
proof -
  obtain mt where mt: "store_writes (mt_Set coin) (mt_Delete coin) ws New = Some mt" "mt_inv mt"
      "map_of (mt_table mt) = map_writes ws (map_of (mt_table New))"
    using mem.writes_ok [OF mem.inv_empty] by blast
  obtain es where es: "drain (mt_list mt) (mt_NewIterator mt) = Some es" "map entry_cell es = mt_table mt"
    using mt_drain [OF mt(2)] by blast
  have "map fst es = map fst (map entry_cell es)" by (auto simp: entry_cell_def)
  with es mem.tab_sorted [OF mt(2)] have "sorted_wrt (<) (map fst es)" by simp
  with mt es show ?thesis by (auto simp: mem.tab_empty)
qed

text \<open>C18. The counters are exact: after any history of writes \<^verbatim>\<open>Len\<close> is the number of distinct keys
  written, tombstones included, and \<^verbatim>\<open>ByteSize\<close> is the sum of the lengths of those keys and of the
  values that their last writes left.\<close>

theorem memtable_counters_exact:
  "\<exists>mt. store_writes (mt_Set coin) (mt_Delete coin) ws New = Some mt \<and>
     mt_Len mt = int (card (fst ` set ws)) \<and>
     mt_ByteSize mt = (\<Sum>key \<in> fst ` set ws. int (length key) + cell_bytes (the (map_writes ws Map.empty key)))"
proof -
  obtain mt where mt: "store_writes (mt_Set coin) (mt_Delete coin) ws New = Some mt" "mt_inv mt"
      "map_of (mt_table mt) = map_writes ws (map_of (mt_table New))"
    using mem.writes_ok [OF mem.inv_empty] by blast
  let ?t = "mt_table mt"
  have m: "map_of ?t = map_writes ws Map.empty" using mt(3) by (simp add: mem.tab_empty)
  have keys: "fst ` set ?t = fst ` set ws"
    using dom_map_writes [of ws Map.empty] by (simp add: m [symmetric] dom_map_of_conv_image_fst)
  have d: "distinct (map fst ?t)" using mem.tab_sorted [OF mt(2)] by (rule sorted_table_distinct)
  have "length ?t = card (fst ` set ws)" by (metis d distinct_card keys length_map list.set_map)
  moreover have "table_bytes ?t = (\<Sum>key \<in> fst ` set ws. int (length key) + cell_bytes (the (map_of ?t key)))"
  proof -
    have "table_bytes ?t = (\<Sum>key\<leftarrow>map fst ?t. int (length key) + cell_bytes (the (map_of ?t key)))"
      using d by (auto simp: table_bytes_def comp_def intro!: arg_cong [of _ _ sum_list])
    also have "\<dots> = (\<Sum>key \<in> set (map fst ?t). int (length key) + cell_bytes (the (map_of ?t key)))"
      by (rule sum_list_distinct_conv_sum_set [OF d])
    finally show ?thesis by (simp add: keys)
  qed
  ultimately show ?thesis using mt m by (auto simp: mt_sizes)
qed

end
