(* ===== verification/SSTable_Writer.thy ===== *)
theory SSTable_Writer
  imports Crc32 Bloom Mem_Table
begin

text \<open>
  The SSTable writer of \<^verbatim>\<open>internal/sstable/writer.go\<close>: entries are collected into blocks, a full
  block is written with a checksum trailer and an index entry, and \<^verbatim>\<open>Finish\<close> adds the index block,
  the Bloom filter and the footer.  The lemmas give the layout of the file as a function of the
  blocks the entries were cut into.
\<close>

subsection \<open>Constants and types\<close>

definition magic :: u64 where "magic = 0x5661756C744B5600"
definition version :: u16 where "version = 1"
definition footerSize :: nat where "footerSize = 48"
definition defaultBlockSize :: int where "defaultBlockSize = 4096"
definition entryHeaderSize :: nat where "entryHeaderSize = 9"
definition indexEntryHeaderSize :: nat where "indexEntryHeaderSize = 16"
definition flagNormal :: byte where "flagNormal = 0x00"
definition flagTombstone :: byte where "flagTombstone = 0x01"

record indexEntry =
  ie_firstKey :: bytes
  ie_blockOffset :: u64
  ie_blockLen :: u32

text \<open>Which calls of the file fail: \<^verbatim>\<open>os.Create\<close>, the buffered write that starts at some offset of the
  output, and the calls that end the file.\<close>

record wfaults =
  wf_create :: bool
  wf_write :: "nat \<Rightarrow> bool"
  wf_flush :: bool
  wf_sync :: bool
  wf_close :: bool

definition no_wfaults :: wfaults where
  "no_wfaults = \<lparr>wf_create = False, wf_write = (\<lambda>_. False), wf_flush = False, wf_sync = False,
     wf_close = False\<rparr>"

definition wio :: error where "wio = Err ''input/output error''"

text \<open>The writer: \<open>w_out\<close> is what went to the buffered file so far.\<close>

record Writer =
  w_out :: bytes
  w_offset :: u64
  w_blockBuf :: bytes
  w_blockStart :: u64
  w_blockSize :: int
  w_index :: "indexEntry list"
  w_allKeys :: "bytes list"
  w_numEntries :: u64
  w_firstKey :: bytes

subsection \<open>Operations\<close>

definition NewWriter :: "wfaults \<Rightarrow> int \<Rightarrow> error + Writer" where
  "NewWriter ft blockSize =
     (let blockSize = (if blockSize \<le> 0 then defaultBlockSize else blockSize) in
      if wf_create ft then Inl (Wrap ''sstable writer: create '' wio)
      else Inr \<lparr>w_out = [], w_offset = 0, w_blockBuf = [], w_blockStart = 0, w_blockSize = blockSize,
             w_index = [], w_allKeys = [], w_numEntries = 0, w_firstKey = []\<rparr>)"

definition buf_Write :: "wfaults \<Rightarrow> bytes \<Rightarrow> Writer \<Rightarrow> error option \<times> Writer" where
  "buf_Write ft bs w =
     (if wf_write ft (length (w_out w)) then (Some wio, w)
      else (None, w\<lparr>w_out := w_out w @ bs\<rparr>))"

definition flushBlock :: "wfaults \<Rightarrow> Writer \<Rightarrow> error option \<times> Writer" where
  "flushBlock ft w =
     (if w_blockBuf w = [] then (None, w)
      else
        let checksum = crc32_Checksum (w_blockBuf w) in
        case buf_Write ft (w_blockBuf w) w of
          (Some e, w) \<Rightarrow> (Some (Wrap ''sstable writer: write block data: '' e), w)
        | (None, w) \<Rightarrow>
            let w = w\<lparr>w_offset := w_offset w + of_nat (length (w_blockBuf w))\<rparr> in
            (case buf_Write ft (PutUint32 checksum) w of
               (Some e, w) \<Rightarrow> (Some (Wrap ''sstable writer: write block trailer: '' e), w)
             | (None, w) \<Rightarrow>
                 let w = w\<lparr>w_offset := w_offset w + 4\<rparr>;
                     blockLen = of_nat (length (w_blockBuf w) + 4);
                     ie = \<lparr>ie_firstKey = w_firstKey w, ie_blockOffset = w_blockStart w, ie_blockLen = blockLen\<rparr>
                 in (None, w\<lparr>w_index := w_index w @ [ie], w_blockBuf := [], w_firstKey := []\<rparr>)))"

definition encode_entry :: "bytes \<Rightarrow> slice \<Rightarrow> bool \<Rightarrow> bytes" where
  "encode_entry key value isDeleted =
     (let valLen = (if isDeleted then 0 else of_nat (length (slice_bytes value))) :: u32;
          value = (if isDeleted then [] else slice_bytes value);
          flags = (if isDeleted then flagTombstone else flagNormal)
      in PutUint32 (of_nat (length key)) @ PutUint32 valLen @ flags # key @ take (unat valLen) value)"

definition Add :: "wfaults \<Rightarrow> bytes \<Rightarrow> slice \<Rightarrow> bool \<Rightarrow> Writer \<Rightarrow> error option \<times> Writer" where
  "Add ft key value isDeleted w =
     (if key = [] then (Some (Err ''sstable writer: empty key not allowed''), w)
      else
        let w = (if w_blockBuf w = [] then w\<lparr>w_firstKey := key, w_blockStart := w_offset w\<rparr> else w);
            w = w\<lparr>w_blockBuf := w_blockBuf w @ encode_entry key value isDeleted,
                  w_allKeys := w_allKeys w @ [key], w_numEntries := w_numEntries w + 1\<rparr>
        in if int (length (w_blockBuf w)) \<ge> w_blockSize w then flushBlock ft w else (None, w))"

text \<open>An index entry.  The slice bounds are 32-bit sums, so a first key of nearly 4 GiB makes them
  wrap around and the slice expression panics.\<close>

definition encode_index_entry :: "indexEntry \<Rightarrow> error + bytes" where
  "encode_index_entry ie =
     (let keyLen = of_nat (length (ie_firstKey ie)) :: u32 in
      if uint keyLen + int indexEntryHeaderSize \<ge> 2 ^ 32 then Inl Panic
      else Inr (PutUint32 keyLen @ take (unat keyLen) (ie_firstKey ie)
              @ PutUint64 (ie_blockOffset ie) @ PutUint32 (ie_blockLen ie)))"

fun write_index :: "wfaults \<Rightarrow> indexEntry list \<Rightarrow> Writer \<Rightarrow> error option \<times> Writer" where
  "write_index ft [] w = (None, w)"
| "write_index ft (ie # ies) w =
     (case encode_index_entry ie of
        Inl e \<Rightarrow> (Some e, w)
      | Inr entry \<Rightarrow>
          (case buf_Write ft entry w of
             (Some e, w) \<Rightarrow> (Some (Wrap ''sstable writer: write index entry: '' e), w)
           | (None, w) \<Rightarrow> write_index ft ies (w\<lparr>w_offset := w_offset w + of_nat (length entry)\<rparr>)))"

definition encode_footer :: "u64 \<Rightarrow> u32 \<Rightarrow> u64 \<Rightarrow> u32 \<Rightarrow> u64 \<Rightarrow> bytes" where
  "encode_footer indexOffset indexLen bloomOffset bloomLen numEntries =
     PutUint64 indexOffset @ PutUint32 indexLen @ PutUint64 bloomOffset @ PutUint32 bloomLen
     @ PutUint64 numEntries @ PutUint64 magic @ PutUint16 version @ replicate 6 0"

definition end_file :: "wfaults \<Rightarrow> Writer \<Rightarrow> error option \<times> Writer" where
  "end_file ft w =
     (if wf_flush ft then (Some (Wrap ''sstable writer: flush: '' wio), w)
      else if wf_sync ft then (Some (Wrap ''sstable writer: fsync: '' wio), w)
      else if wf_close ft then (Some wio, w)
      else (None, w))"

definition Finish :: "wfaults \<Rightarrow> Writer \<Rightarrow> error option \<times> Writer" where
  "Finish ft w =
     (case flushBlock ft w of
        (Some e, w) \<Rightarrow> (Some e, w)
      | (None, w) \<Rightarrow>
          let indexOffset = w_offset w in
          (case write_index ft (w_index w) w of
             (Some e, w) \<Rightarrow> (Some e, w)
           | (None, w) \<Rightarrow>
               let indexLen = ucast (w_offset w - indexOffset) :: u32;
                   bloomOffset = w_offset w
               in case Build (w_allKeys w) bitsPerKey of
                    Inl e \<Rightarrow> (Some e, w)
                  | Inr f \<Rightarrow>
                      (case buf_Write ft (Encode f) w of
                         (Some e, w) \<Rightarrow> (Some (Wrap ''sstable writer: write bloom filter: '' e), w)
                       | (None, w) \<Rightarrow>
                           let w = w\<lparr>w_offset := w_offset w + of_nat (length (Encode f))\<rparr>;
                               bloomLen = ucast (w_offset w - bloomOffset) :: u32;
                               footer = encode_footer indexOffset indexLen bloomOffset bloomLen (w_numEntries w)
                           in case buf_Write ft footer w of
                                (Some e, w) \<Rightarrow> (Some (Wrap ''sstable writer: write footer: '' e), w)
                              | (None, w) \<Rightarrow> end_file ft w)))"

text \<open>The loop of \<^verbatim>\<open>WriteFromMemTable\<close> over what the iterator yields, and the whole function.  The
  second result is what was written of the file, \<open>None\<close> if it could not be created.  After an error
  the file on disk may hold only a prefix of it, since the writes are buffered.\<close>

fun add_all :: "wfaults \<Rightarrow> (bytes \<times> slice \<times> bool) list \<Rightarrow> Writer \<Rightarrow> error option \<times> Writer" where
  "add_all ft [] w = (None, w)"
| "add_all ft ((key, value, isDeleted) # es) w =
     (case Add ft key value isDeleted w of
        (Some e, w) \<Rightarrow> (Some e, w)
      | (None, w) \<Rightarrow> add_all ft es w)"

definition write_out :: "wfaults \<Rightarrow> (bytes \<times> slice \<times> bool) list \<Rightarrow> Writer \<Rightarrow> error option \<times> bytes option" where
  "write_out ft es w =
     (case add_all ft es w of
        (Some e, w) \<Rightarrow> (Some e, Some (w_out w))
      | (None, w) \<Rightarrow> (case Finish ft w of (e, w) \<Rightarrow> (e, Some (w_out w))))"

definition WriteFromMemTable :: "wfaults \<Rightarrow> MemTable \<Rightarrow> int \<Rightarrow> error option \<times> bytes option" where
  "WriteFromMemTable ft mt blockSize =
     (case NewWriter ft blockSize of
        Inl e \<Rightarrow> (Some e, None)
      | Inr w \<Rightarrow>
          (case drain (mt_list mt) (mt_NewIterator mt) of
             None \<Rightarrow> (Some Panic, Some (w_out w))
           | Some es \<Rightarrow> write_out ft es w))"

subsection \<open>The layout of the file\<close>

type_synonym entry = "bytes \<times> slice \<times> bool"

definition enc_entry :: "entry \<Rightarrow> bytes" where
  "enc_entry e = (case e of (key, value, isDeleted) \<Rightarrow> encode_entry key value isDeleted)"

definition entries_bytes :: "entry list \<Rightarrow> bytes" where
  "entries_bytes es = concat (map enc_entry es)"

definition block_bytes :: "entry list \<Rightarrow> bytes" where
  "block_bytes es = entries_bytes es @ PutUint32 (crc32_Checksum (entries_bytes es))"

definition data_bytes :: "entry list list \<Rightarrow> bytes" where
  "data_bytes bss = concat (map block_bytes bss)"

text \<open>The blocks that a sequence of entries is cut into, the first of them begun with \<open>cur\<close>.\<close>

fun cut :: "int \<Rightarrow> entry list \<Rightarrow> entry list \<Rightarrow> entry list list" where
  "cut bsz cur [] = (if cur = [] then [] else [cur])"
| "cut bsz cur (e # es) =
     (if bsz \<le> int (length (entries_bytes (cur @ [e]))) then (cur @ [e]) # cut bsz [] es
      else cut bsz (cur @ [e]) es)"

fun index_from :: "nat \<Rightarrow> entry list list \<Rightarrow> indexEntry list" where
  "index_from off [] = []"
| "index_from off (bl # bls) =
     \<lparr>ie_firstKey = fst (hd bl), ie_blockOffset = of_nat off, ie_blockLen = of_nat (length (block_bytes bl))\<rparr>
     # index_from (off + length (block_bytes bl)) bls"

lemma entries_bytes_simps [simp]:
  "entries_bytes [] = []" "entries_bytes (e # es) = enc_entry e @ entries_bytes es"
  "entries_bytes (es @ fs) = entries_bytes es @ entries_bytes fs"
  by (simp_all add: entries_bytes_def)

lemma data_bytes_simps [simp]:
  "data_bytes [] = []" "data_bytes (b # bs) = block_bytes b @ data_bytes bs"
  "data_bytes (bs @ cs) = data_bytes bs @ data_bytes cs"
  by (simp_all add: data_bytes_def)

lemma enc_entry_nonempty [simp]: "enc_entry e \<noteq> []"
  by (cases e) (simp add: enc_entry_def encode_entry_def Let_def)

lemma entries_bytes_eq_Nil [simp]: "entries_bytes es = [] \<longleftrightarrow> es = []"
  by (cases es) simp_all

lemma index_from_append:
  "index_from off (bs @ cs) = index_from off bs @ index_from (off + length (data_bytes bs)) cs"
  by (induction bs arbitrary: off) (simp_all add: add.assoc)

lemma length_index_from [simp]: "length (index_from off bs) = length bs"
  by (induction bs arbitrary: off) simp_all

lemma index_from_nth:
  "i < length bs \<Longrightarrow> index_from off bs ! i =
     \<lparr>ie_firstKey = fst (hd (bs ! i)), ie_blockOffset = of_nat (off + length (data_bytes (take i bs))),
      ie_blockLen = of_nat (length (block_bytes (bs ! i)))\<rparr>"
  by (induction bs arbitrary: off i) (auto simp: nth_Cons' take_Cons' add.assoc)

lemma concat_cut: "concat (cut bsz cur es) = cur @ es"
  by (induction bsz cur es rule: cut.induct) simp_all

lemma cut_nonempty: "[] \<notin> set (cut bsz cur es)"
  by (induction bsz cur es rule: cut.induct) auto

subsection \<open>The writer against the layout\<close>

text \<open>A writer that flushed the blocks \<open>bls\<close> and holds the entries \<open>cur\<close> in its block buffer.\<close>

definition writer_rep :: "entry list list \<Rightarrow> entry list \<Rightarrow> Writer \<Rightarrow> bool" where
  "writer_rep bls cur w \<longleftrightarrow>
     w_out w = data_bytes bls \<and> w_offset w = of_nat (length (data_bytes bls)) \<and>
     w_blockBuf w = entries_bytes cur \<and>
     (cur \<noteq> [] \<longrightarrow> w_firstKey w = fst (hd cur) \<and> w_blockStart w = w_offset w) \<and>
     w_index w = index_from 0 bls \<and> w_allKeys w = map fst (concat bls @ cur) \<and>
     w_numEntries w = of_nat (length (concat bls @ cur))"

lemma writer_repD:
  assumes "writer_rep bls cur w"
  shows "w_out w = data_bytes bls" "w_offset w = of_nat (length (data_bytes bls))"
    "w_blockBuf w = entries_bytes cur" "w_index w = index_from 0 bls"
    "w_allKeys w = map fst (concat bls @ cur)" "w_numEntries w = of_nat (length (concat bls @ cur))"
    "cur \<noteq> [] \<Longrightarrow> w_firstKey w = fst (hd cur)" "cur \<noteq> [] \<Longrightarrow> w_blockStart w = w_offset w"
  using assms by (simp_all add: writer_rep_def)

lemma buf_Write_ok [simp]: "buf_Write no_wfaults bs w = (None, w\<lparr>w_out := w_out w @ bs\<rparr>)"
  by (simp add: buf_Write_def no_wfaults_def)

lemma end_file_ok [simp]: "end_file no_wfaults w = (None, w)"
  by (simp add: end_file_def no_wfaults_def)

lemma NewWriter_rep:
  "\<exists>w. NewWriter no_wfaults bsz = Inr w \<and> writer_rep [] [] w \<and>
     w_blockSize w = (if bsz \<le> 0 then defaultBlockSize else bsz)"
  by (simp add: NewWriter_def no_wfaults_def writer_rep_def Let_def)

lemma flushBlock_rep:
  assumes "writer_rep bls cur w"
  obtains w' where "flushBlock no_wfaults w = (None, w')" "w_blockSize w' = w_blockSize w"
    "writer_rep (if cur = [] then bls else bls @ [cur]) [] w'"
proof (cases "cur = []")
  case True
  with assms that show ?thesis by (simp add: flushBlock_def writer_repD(3) [OF assms])
next
  case False
  with writer_repD [OF assms] that show ?thesis
    by (simp add: flushBlock_def Let_def writer_rep_def block_bytes_def index_from_append ac_simps)
qed

lemma Add_rep:
  fixes v :: slice and d :: bool
  assumes rep: "writer_rep bls cur w" and key: "key \<noteq> []"
  defines "cur' \<equiv> cur @ [(key, v, d)]"
  obtains w' where "Add no_wfaults key v d w = (None, w')" "w_blockSize w' = w_blockSize w"
    "if w_blockSize w \<le> int (length (entries_bytes cur')) then writer_rep (bls @ [cur']) [] w'
     else writer_rep bls cur' w'"
proof -
  let ?w0 = "if w_blockBuf w = [] then w\<lparr>w_firstKey := key, w_blockStart := w_offset w\<rparr> else w"
  define w1 where "w1 = ?w0\<lparr>w_blockBuf := w_blockBuf ?w0 @ encode_entry key v d,
                  w_allKeys := w_allKeys ?w0 @ [key], w_numEntries := w_numEntries ?w0 + 1\<rparr>"
  have rep1: "writer_rep bls cur' w1" and size1: "w_blockSize w1 = w_blockSize w"
    using rep by (cases "cur = []"; simp add: w1_def writer_rep_def cur'_def enc_entry_def)+
  have Add: "Add no_wfaults key v d w =
      (if w_blockSize w1 \<le> int (length (w_blockBuf w1)) then flushBlock no_wfaults w1 else (None, w1))"
    using key unfolding Add_def w1_def Let_def by (simp only: if_False)
  show thesis
  proof (cases "w_blockSize w \<le> int (length (entries_bytes cur'))")
    case True
    obtain w' where "flushBlock no_wfaults w1 = (None, w')" "w_blockSize w' = w_blockSize w1"
      "writer_rep (if cur' = [] then bls else bls @ [cur']) [] w'"
      by (rule flushBlock_rep [OF rep1])
    with True that Add size1 show ?thesis
      by (simp add: cur'_def writer_repD(3) [OF rep1])
  next
    case False
    with that Add rep1 size1 show ?thesis by (simp add: writer_repD(3) [OF rep1])
  qed
qed

lemma add_all_rep:
  assumes "writer_rep bls cur w" "list_all (\<lambda>e. fst e \<noteq> []) es"
  shows "\<exists>w' w''. add_all no_wfaults es w = (None, w') \<and> flushBlock no_wfaults w' = (None, w'') \<and>
     writer_rep (bls @ cut (w_blockSize w) cur es) [] w''"
  using assms
proof (induction es arbitrary: bls cur w)
  case Nil
  obtain w' where "flushBlock no_wfaults w = (None, w')"
    "writer_rep (if cur = [] then bls else bls @ [cur]) [] w'"
    by (rule flushBlock_rep [OF Nil.prems(1)])
  then show ?case by (cases "cur = []") simp_all
next
  case (Cons e es)
  obtain key v d where e: "e = (key, v, d)" by (cases e)
  with Cons.prems have key: "key \<noteq> []" and es: "list_all (\<lambda>e. fst e \<noteq> []) es" by simp_all
  obtain w' where w': "Add no_wfaults key v d w = (None, w')" "w_blockSize w' = w_blockSize w"
    and rep: "if w_blockSize w \<le> int (length (entries_bytes (cur @ [e]))) then writer_rep (bls @ [cur @ [e]]) [] w'
     else writer_rep bls (cur @ [e]) w'"
    by (rule Add_rep [OF Cons.prems(1) key, where v = v and d = d]) (simp add: e)
  then show ?case
    using Cons.IH [of "bls @ [cur @ [e]]" "[]" w'] Cons.IH [of bls "cur @ [e]" w'] es
    by (simp add: e split: if_splits)
qed

subsection \<open>What Finish adds\<close>

definition enc_index :: "indexEntry \<Rightarrow> bytes" where
  "enc_index ie = PutUint32 (of_nat (length (ie_firstKey ie))) @ ie_firstKey ie
     @ PutUint64 (ie_blockOffset ie) @ PutUint32 (ie_blockLen ie)"

definition index_bytes :: "indexEntry list \<Rightarrow> bytes" where
  "index_bytes ies = concat (map enc_index ies)"

definition sst_tail :: "entry list list \<Rightarrow> Filter \<Rightarrow> bytes" where
  "sst_tail bls f =
     (let index = index_bytes (index_from 0 bls) in
      index @ Encode f
      @ encode_footer (of_nat (length (data_bytes bls))) (of_nat (length index))
          (of_nat (length (data_bytes bls) + length index)) (of_nat (length (Encode f)))
          (of_nat (length (concat bls))))"

definition sst_bytes :: "entry list list \<Rightarrow> Filter \<Rightarrow> bytes" where
  "sst_bytes bls f = data_bytes bls @ sst_tail bls f"

text \<open>What a table may weigh so that every length field of its file fits its width: 16 bytes and the
  payload per entry, below 4 GiB in total.\<close>

definition entry_weight :: "entry \<Rightarrow> nat" where
  "entry_weight e = (case e of (k, v, d) \<Rightarrow> 16 + length k + (if d then 0 else length (slice_bytes v)))"

definition writable :: "entry list \<Rightarrow> bool" where
  "writable es \<longleftrightarrow> list_all (\<lambda>e. fst e \<noteq> []) es \<and> sum_list (map entry_weight es) + 4 < 2 ^ 32"

lemma index_bytes_simps [simp]:
  "index_bytes [] = []" "index_bytes (ie # ies) = enc_index ie @ index_bytes ies"
  by (simp_all add: index_bytes_def)

lemma ucast_of_nat_u64 [simp]: "ucast (of_nat n :: u64) = (of_nat n :: u32)"
  by transfer (simp add: take_bit_take_bit)

lemma encode_index_entry_ok:
  assumes "length (ie_firstKey ie) + 16 < 2 ^ 32"
  shows "encode_index_entry ie = Inr (enc_index ie)"
proof -
  have "unat (of_nat (length (ie_firstKey ie)) :: u32) = length (ie_firstKey ie)"
    using assms by (intro unat_of_nat_u32) linarith
  moreover from this have "uint (of_nat (length (ie_firstKey ie)) :: u32) + 16 < 2 ^ 32"
    using assms by (simp add: uint_nat)
  ultimately show ?thesis
    by (simp add: encode_index_entry_def enc_index_def indexEntryHeaderSize_def Let_def)
qed

lemma write_index_ok:
  "list_all (\<lambda>ie. length (ie_firstKey ie) + 16 < 2 ^ 32) ies \<Longrightarrow>
   write_index no_wfaults ies w =
     (None, w\<lparr>w_out := w_out w @ index_bytes ies, w_offset := w_offset w + of_nat (length (index_bytes ies))\<rparr>)"
  by (induction ies arbitrary: w) (simp_all add: encode_index_entry_ok ac_simps)

lemma index_from_small:
  "\<forall>bl \<in> set bls. bl \<noteq> [] \<and> length (fst (hd bl)) + 16 < 2 ^ 32 \<Longrightarrow>
   list_all (\<lambda>ie. length (ie_firstKey ie) + 16 < 2 ^ 32) (index_from off bls)"
  by (induction bls arbitrary: off) simp_all

lemma Finish_rep:
  assumes flush: "flushBlock no_wfaults w = (None, w')" and rep: "writer_rep bls [] w'"
    and small: "\<forall>bl \<in> set bls. bl \<noteq> [] \<and> length (fst (hd bl)) + 16 < 2 ^ 32"
    and f: "Build (map fst (concat bls)) bitsPerKey = Inr f"
  shows "\<exists>w''. Finish no_wfaults w = (None, w'') \<and> w_out w'' = sst_bytes bls f"
proof -
  note r = writer_repD(1,2,4-6) [OF rep]
  have "write_index no_wfaults (w_index w') w' = (None, w'\<lparr>w_out := w_out w' @ index_bytes (w_index w'),
      w_offset := w_offset w' + of_nat (length (index_bytes (w_index w')))\<rparr>)"
    unfolding r(3) by (rule write_index_ok [OF index_from_small [OF small]])
  with flush f r show ?thesis
    by (simp add: Finish_def Let_def sst_bytes_def sst_tail_def)
qed

lemma weight_member: "e \<in> set es \<Longrightarrow> entry_weight e \<le> sum_list (map entry_weight es)"
  by (simp add: member_le_sum_list)

lemma writableD:
  assumes "writable es" "e \<in> set es"
  shows "fst e \<noteq> []" "length (fst e) + 20 < 2 ^ 32"
    "\<not> snd (snd e) \<Longrightarrow> length (slice_bytes (fst (snd e))) + 20 < 2 ^ 32"
  using assms weight_member [OF assms(2)]
  by (auto simp: writable_def list_all_iff entry_weight_def split: prod.splits)

lemma writable_length:
  assumes "writable es"
  shows "length es \<le> 400000000"
proof -
  have "16 * length es \<le> sum_list (map entry_weight es)"
    by (induction es) (auto simp: entry_weight_def)
  with assms show ?thesis by (simp add: writable_def)
qed

lemma cut_member:
  assumes "bl \<in> set (cut bsz [] es)" "e \<in> set bl"
  shows "e \<in> set es"
proof -
  have "e \<in> set (concat (cut bsz [] es))" using assms by auto
  then show ?thesis by (simp add: concat_cut)
qed

lemma writable_blocks:
  assumes "writable es"
  shows "\<forall>bl \<in> set (cut bsz [] es). bl \<noteq> [] \<and> length (fst (hd bl)) + 16 < 2 ^ 32"
proof
  fix bl assume bl: "bl \<in> set (cut bsz [] es)"
  then have ne: "bl \<noteq> []" using cut_nonempty [of bsz "[]" es] by auto
  then have "hd bl \<in> set es" using cut_member [OF bl] by simp
  with ne writableD(2) [OF assms, of "hd bl"] show "bl \<noteq> [] \<and> length (fst (hd bl)) + 16 < 2 ^ 32"
    by simp
qed

text \<open>The file that a fault-free writer leaves.\<close>

definition block_size :: "int \<Rightarrow> int" where
  "block_size bsz = (if bsz \<le> 0 then defaultBlockSize else bsz)"

theorem write_out_layout:
  assumes "writable es"
  shows "\<exists>w f. NewWriter no_wfaults bsz = Inr w \<and> Build (map fst es) bitsPerKey = Inr f \<and>
     write_out no_wfaults es w = (None, Some (sst_bytes (cut (block_size bsz) [] es) f))"
proof -
  let ?bls = "cut (block_size bsz) [] es"
  obtain w where w: "NewWriter no_wfaults bsz = Inr w" "writer_rep [] [] w" "w_blockSize w = block_size bsz"
    using NewWriter_rep [of bsz] by (auto simp: block_size_def)
  obtain f where f: "Build (map fst es) bitsPerKey = Inr f"
    using bloom.build_returns [of "map fst es"] writable_length [OF assms] by auto
  obtain w1 w2 where w12: "add_all no_wfaults es w = (None, w1)" "flushBlock no_wfaults w1 = (None, w2)"
    "writer_rep ?bls [] w2"
    using add_all_rep [OF w(2), of es] assms w(3) by (auto simp: writable_def)
  have "concat ?bls = es" by (simp add: concat_cut)
  then obtain w3 where "Finish no_wfaults w1 = (None, w3)" "w_out w3 = sst_bytes ?bls f"
    using Finish_rep [OF w12(2,3) writable_blocks [OF assms]] f by auto
  with w(1) f w12(1) show ?thesis by (simp add: write_out_def)
qed

subsection \<open>Errors\<close>

text \<open>If the writer reports success, no fault was met, whatever may fail.\<close>

lemma buf_Write_split:
  "buf_Write ft bs x = (if wf_write ft (length (w_out x)) then (Some wio, x) else (None, x\<lparr>w_out := w_out x @ bs\<rparr>))"
  by (simp add: buf_Write_def)

lemma flushBlock_None: "flushBlock ft w = (None, w') \<Longrightarrow> flushBlock no_wfaults w = (None, w')"
  by (auto simp: flushBlock_def Let_def buf_Write_def no_wfaults_def split: if_splits)

lemma Add_None:
  assumes "Add ft k v d w = (None, w')"
  shows "Add no_wfaults k v d w = (None, w')"
  using assms flushBlock_None unfolding Add_def Let_def by (simp split: if_splits)

lemma write_index_None: "write_index ft ies w = (None, w') \<Longrightarrow> write_index no_wfaults ies w = (None, w')"
  by (induction ies arbitrary: w) (auto simp: buf_Write_split [of ft] split: sum.splits if_splits)

lemma Finish_None:
  assumes "Finish ft w = (None, w')"
  shows "Finish no_wfaults w = (None, w')"
proof -
  obtain w1 where w1: "flushBlock ft w = (None, w1)"
    using assms by (auto simp: Finish_def split: prod.splits option.splits)
  obtain w2 where w2: "write_index ft (w_index w1) w1 = (None, w2)"
    using assms w1 by (auto simp: Finish_def Let_def split: prod.splits option.splits)
  have "end_file ft x = (None, y) \<Longrightarrow> y = x" for x y
    by (auto simp: end_file_def split: if_splits)
  then show ?thesis
    using assms w1 w2 flushBlock_None [OF w1] write_index_None [OF w2]
    by (auto simp: Finish_def Let_def buf_Write_split [of ft] split: sum.splits if_splits)
qed

lemma add_all_None: "add_all ft es w = (None, w') \<Longrightarrow> add_all no_wfaults es w = (None, w')"
  by (induction ft es w rule: add_all.induct) (auto split: prod.splits option.splits dest: Add_None)

lemma write_out_None:
  assumes "write_out ft es w = (None, out)"
  shows "write_out no_wfaults es w = (None, out)"
proof -
  obtain w1 where w1: "add_all ft es w = (None, w1)"
    using assms by (auto simp: write_out_def split: prod.splits option.splits)
  then obtain w2 where "Finish ft w1 = (None, w2)" "out = Some (w_out w2)"
    using assms by (auto simp: write_out_def split: prod.splits)
  then show ?thesis
    using add_all_None [OF w1] Finish_None [of ft w1 w2] by (simp add: write_out_def)
qed

lemma NewWriter_Inr: "NewWriter ft bsz = Inr w \<Longrightarrow> NewWriter no_wfaults bsz = Inr w"
  by (simp add: NewWriter_def no_wfaults_def Let_def split: if_splits)

text \<open>A file that was reported as written is complete.\<close>

lemma written_layout:
  assumes "NewWriter ft bsz = Inr w" "write_out ft es w = (None, out)" "writable es"
  obtains f where "Build (map fst es) bitsPerKey = Inr f"
    "out = Some (sst_bytes (cut (block_size bsz) [] es) f)"
  using write_out_layout [OF assms(3), of bsz] NewWriter_Inr [OF assms(1)] write_out_None [OF assms(2)]
  by auto

subsection \<open>Flushing a MemTable\<close>

text \<open>A MemTable that an SSTable file can hold, by its own counters.\<close>

definition flushable :: "MemTable \<Rightarrow> bool" where
  "flushable mt \<longleftrightarrow> [] \<notin> fst ` set (mt_table mt) \<and> 16 * mt_Len mt + mt_ByteSize mt + 4 < 2 ^ 32"

lemma weight_counters:
  "int (sum_list (map entry_weight es)) = 16 * int (length es) + table_bytes (map entry_cell es)"
  by (induction es) (auto simp: entry_weight_def table_bytes_def entry_cell_def cell_bytes_def)

lemma fst_entry_cell [simp]: "fst (entry_cell e) = fst e"
  by (cases e) (simp add: entry_cell_def)

lemma flushable_writable:
  assumes inv: "mt_inv mt" and fl: "flushable mt" and es: "map entry_cell es = mt_table mt"
  shows "writable es" "sorted_table es"
proof -
  have "int (sum_list (map entry_weight es)) + 4 < 2 ^ 32"
    using fl mt_sizes [OF inv] by (simp add: weight_counters flushable_def es [symmetric])
  then have "int (sum_list (map entry_weight es) + 4) < int (2 ^ 32)" by simp
  then have "sum_list (map entry_weight es) + 4 < 2 ^ 32" by (simp only: of_nat_less_iff)
  moreover have "fst ` set es = fst ` set (mt_table mt)" by (simp add: es [symmetric] image_image)
  then have "list_all (\<lambda>e. fst e \<noteq> []) es"
    using fl unfolding flushable_def list_all_iff by (metis imageI)
  ultimately show "writable es" by (simp add: writable_def)
  have "map fst es = map fst (mt_table mt)" by (simp add: es [symmetric])
  with mem.tab_sorted [OF inv] show "sorted_table es" by simp
qed

text \<open>A flush without faults succeeds, and a flush that reports success wrote the file of the table.\<close>

lemma flush_succeeds:
  assumes "mt_inv mt" "flushable mt"
  shows "\<exists>out. WriteFromMemTable no_wfaults mt bsz = (None, out)"
proof -
  obtain es where es: "drain (mt_list mt) (mt_NewIterator mt) = Some es" "map entry_cell es = mt_table mt"
    using mt_drain [OF assms(1)] by blast
  then show ?thesis
    using write_out_layout [OF flushable_writable(1) [OF assms es(2)], of bsz]
    by (auto simp: WriteFromMemTable_def)
qed

lemma flush_layout:
  assumes "mt_inv mt" "flushable mt" "WriteFromMemTable ft mt bsz = (None, out)"
  obtains es f where "map entry_cell es = mt_table mt" "writable es" "sorted_table es"
    "Build (map fst es) bitsPerKey = Inr f" "out = Some (sst_bytes (cut (block_size bsz) [] es) f)"
proof -
  obtain es where es: "drain (mt_list mt) (mt_NewIterator mt) = Some es" "map entry_cell es = mt_table mt"
    using mt_drain [OF assms(1)] by blast
  note wr = flushable_writable [OF assms(1,2) es(2)]
  obtain w where w: "NewWriter ft bsz = Inr w" "write_out ft es w = (None, out)"
    using assms(3) es(1) by (auto simp: WriteFromMemTable_def split: sum.splits)
  obtain f where "Build (map fst es) bitsPerKey = Inr f" "out = Some (sst_bytes (cut (block_size bsz) [] es) f)"
    by (rule written_layout [OF w wr(1)])
  with es(2) wr show thesis by (rule that)
qed

end
