(* ===== verification/SSTable_Reader.thy ===== *)
theory SSTable_Reader
  imports SSTable_Writer
begin

text \<open>
  The SSTable reader and iterator of \<^verbatim>\<open>internal/sstable/reader.go\<close>: opening a file, the lookup
  through the Bloom filter, the binary search of the sparse index and the scan of one block, and the
  iterator over all blocks.  The lemmas relate them to the layout of \<open>SSTable_Writer\<close>: a written
  table is read back entry for entry, and a damaged block is refused.
\<close>

subsection \<open>Reading at an offset\<close>

text \<open>Which calls fail: opening the file, \<^verbatim>\<open>Stat\<close>, and the read of so many bytes at some offset.\<close>

record rfaults =
  rf_open :: bool
  rf_stat :: bool
  rf_read :: "int \<Rightarrow> nat \<Rightarrow> bool"

definition no_rfaults :: rfaults where
  "no_rfaults = \<lparr>rf_open = False, rf_stat = False, rf_read = (\<lambda>_ _. False)\<rparr>"

text \<open>\<^verbatim>\<open>os.File.ReadAt\<close> with a buffer of \<open>n\<close> bytes: a negative offset is an error, an empty buffer
  never is, and a read that reaches the end of the file returns \<^verbatim>\<open>io.EOF\<close>.\<close>

definition ReadAt :: "rfaults \<Rightarrow> bool \<Rightarrow> bytes \<Rightarrow> nat \<Rightarrow> int \<Rightarrow> error + bytes" where
  "ReadAt ft closed file n off =
     (if off < 0 then Inl (Err ''negative offset'')
      else if n = 0 then Inr []
      else if closed then Inl (Err ''file already closed'')
      else if rf_read ft off n then Inl (Err ''input/output error'')
      else if off + int n \<le> int (length file) then Inr (sub file (nat off) n)
      else Inl (Err ''EOF''))"

subsection \<open>The reader\<close>

record Reader =
  rd_file :: bytes
  rd_closed :: bool
  rd_fileSize :: int
  rd_index :: "indexEntry list"
  rd_filter :: Filter
  rd_numEntries :: u64

function parse_index_loop :: "bytes \<Rightarrow> nat \<Rightarrow> indexEntry list \<Rightarrow> error + indexEntry list" where
  "parse_index_loop data offset entries =
     (if offset < length data then
        if offset + 4 > length data then Inl (Err ''truncated index entry at offset '')
        else
          let keyLen = unat (Uint32 (sub data offset 4));
              offset = offset + 4
          in if offset + keyLen + 12 > length data then Inl (Err ''index entry payload exceeds buffer at offset '')
             else
               let firstKey = sub data offset keyLen;
                   offset = offset + keyLen;
                   blockOffset = Uint64 (sub data offset 8);
                   offset = offset + 8;
                   blockLen = Uint32 (sub data offset 4);
                   offset = offset + 4
               in parse_index_loop data offset
                    (entries @ [\<lparr>ie_firstKey = firstKey, ie_blockOffset = blockOffset, ie_blockLen = blockLen\<rparr>])
      else Inr entries)"
  by pat_completeness auto
termination by (relation "measure (\<lambda>(data, offset, _). length data - offset)") auto

declare parse_index_loop.simps [simp del]

definition parseIndex :: "bytes \<Rightarrow> error + indexEntry list" where
  "parseIndex data = parse_index_loop data 0 []"

text \<open>\<^verbatim>\<open>Open\<close> of the package; the file is \<open>None\<close> if the path does not exist.\<close>

definition rd_Open :: "rfaults \<Rightarrow> bytes option \<Rightarrow> error + Reader" where
  "rd_Open ft path =
     (case path of
        None \<Rightarrow> Inl (Wrap ''sstable reader: open '' (Err ''no such file or directory''))
      | Some f \<Rightarrow>
        if rf_open ft then Inl (Wrap ''sstable reader: open '' wio)
        else if rf_stat ft then Inl (Wrap ''sstable reader: stat: '' wio)
        else
          let fileSize = int (length f) in
          if fileSize < int footerSize then Inl (Err ''sstable reader: file too small'')
          else
            (case ReadAt ft False f footerSize (fileSize - int footerSize) of
               Inl e \<Rightarrow> Inl (Wrap ''sstable reader: read footer: '' e)
             | Inr footerBuf \<Rightarrow>
                 let indexOffset = Uint64 (sub footerBuf 0 8);
                     indexLen = Uint32 (sub footerBuf 8 4);
                     bloomOffset = Uint64 (sub footerBuf 12 8);
                     bloomLen = Uint32 (sub footerBuf 20 4);
                     numEntries = Uint64 (sub footerBuf 24 8);
                     fileMagic = Uint64 (sub footerBuf 32 8);
                     fileVersion = Uint16 (sub footerBuf 40 2)
                 in if fileMagic \<noteq> magic then Inl (Err ''sstable reader: invalid magic number'')
                    else if fileVersion \<noteq> version then Inl (Err ''sstable reader: unsupported version'')
                    else
                      (case ReadAt ft False f (unat indexLen) (sint indexOffset) of
                         Inl e \<Rightarrow> Inl (Wrap ''sstable reader: read index: '' e)
                       | Inr indexBuf \<Rightarrow>
                         (case parseIndex indexBuf of
                            Inl e \<Rightarrow> Inl (Wrap ''sstable reader: parse index: '' e)
                          | Inr index \<Rightarrow>
                            (case ReadAt ft False f (unat bloomLen) (sint bloomOffset) of
                               Inl e \<Rightarrow> Inl (Wrap ''sstable reader: read bloom filter: '' e)
                             | Inr bloomBuf \<Rightarrow>
                                 Inr \<lparr>rd_file = f, rd_closed = False, rd_fileSize = fileSize, rd_index = index,
                                      rd_filter = Decode bloomBuf, rd_numEntries = numEntries\<rparr>)))))"

text \<open>The binary search; \<open>mid\<close> always lies in the index when the search starts with \<open>lo = 0\<close> and
  \<open>hi = len - 1\<close> (lemma \<open>searchIndex_spec\<close> below).\<close>

function search_loop :: "indexEntry list \<Rightarrow> bytes \<Rightarrow> int \<Rightarrow> int \<Rightarrow> int \<Rightarrow> int" where
  "search_loop index key lo hi result =
     (if lo \<le> hi then
        let mid = (lo + hi) div 2 in
        if bytes_Compare (ie_firstKey (index ! nat mid)) key \<le> 0
        then search_loop index key (mid + 1) hi mid
        else search_loop index key lo (mid - 1) result
      else result)"
  by pat_completeness auto
termination by (relation "measure (\<lambda>(_, _, lo, hi, _). nat (hi - lo + 1))") auto

declare search_loop.simps [simp del]

definition searchIndex :: "indexEntry list \<Rightarrow> bytes \<Rightarrow> int" where
  "searchIndex index key = search_loop index key 0 (int (length index) - 1) (-1)"

definition readBlock :: "rfaults \<Rightarrow> Reader \<Rightarrow> u64 \<Rightarrow> u32 \<Rightarrow> error + bytes" where
  "readBlock ft r offset len =
     (case ReadAt ft (rd_closed r) (rd_file r) (unat len) (sint offset) of
        Inl e \<Rightarrow> Inl (Wrap ''sstable reader: read block at offset '' e)
      | Inr buf \<Rightarrow>
          if length buf < 4 then Inl (Err ''sstable reader: block too small'')
          else
            let storedCRC = Uint32 (drop (length buf - 4) buf);
                data = take (length buf - 4) buf;
                computedCRC = crc32_Checksum data
            in if storedCRC \<noteq> computedCRC then Inl (Err ''sstable reader: block CRC mismatch'')
               else Inr data)"

function scan_loop :: "bytes \<Rightarrow> bytes \<Rightarrow> nat \<Rightarrow> error + slice \<times> bool" where
  "scan_loop key data offset =
     (if offset < length data then
        if offset + entryHeaderSize > length data
        then Inl (Err ''sstable reader: truncated entry header at offset '')
        else
          let keyLen = unat (Uint32 (sub data offset 4));
              valLen = unat (Uint32 (sub data (offset + 4) 4));
              flags = data ! (offset + 8);
              offset = offset + entryHeaderSize
          in if offset + keyLen + valLen > length data
             then Inl (Err ''sstable reader: entry payload exceeds block at offset '')
             else
               let entryKey = sub data offset keyLen;
                   offset = offset + keyLen;
                   cmp = bytes_Compare entryKey key
               in if cmp = 0 then
                    if flags = flagTombstone then Inr (None, True)
                    else Inr (Some (sub data offset valLen), False)
                  else if cmp > 0 then Inr (None, False)
                  else scan_loop key data (offset + valLen)
      else Inr (None, False))"
  by pat_completeness auto
termination
  by (relation "measure (\<lambda>(_, data, offset). length data - offset)") (auto simp: entryHeaderSize_def)

declare scan_loop.simps [simp del]

definition scanBlock :: "bytes \<Rightarrow> bytes \<Rightarrow> error + slice \<times> bool" where
  "scanBlock data key = scan_loop key data 0"

definition rd_Get :: "rfaults \<Rightarrow> Reader \<Rightarrow> bytes \<Rightarrow> error + slice \<times> bool" where
  "rd_Get ft r key =
     (case MayContain (rd_filter r) key of
        Inl e \<Rightarrow> Inl e
      | Inr False \<Rightarrow> Inr (None, False)
      | Inr True \<Rightarrow>
          let blockIdx = searchIndex (rd_index r) key in
          if blockIdx < 0 then Inr (None, False)
          else
            let ie = rd_index r ! nat blockIdx in
            (case readBlock ft r (ie_blockOffset ie) (ie_blockLen ie) of
               Inl e \<Rightarrow> Inl e
             | Inr blockData \<Rightarrow> scanBlock blockData key))"

definition rd_NumEntries :: "Reader \<Rightarrow> u64" where
  "rd_NumEntries r = rd_numEntries r"

definition rd_Close :: "Reader \<Rightarrow> error option \<times> Reader" where
  "rd_Close r =
     (if rd_closed r then (Some (Err ''file already closed''), r) else (None, r\<lparr>rd_closed := True\<rparr>))"

subsection \<open>The iterator\<close>

record SSTableIterator =
  si_blockIndex :: nat
  si_blockData :: slice
  si_offset :: nat
  si_valid :: bool
  si_currKey :: slice
  si_currValue :: slice
  si_currDeleted :: bool

definition rd_NewIterator :: SSTableIterator where
  "rd_NewIterator = \<lparr>si_blockIndex = 0, si_blockData = None, si_offset = 0, si_valid = True,
     si_currKey = None, si_currValue = None, si_currDeleted = False\<rparr>"

text \<open>One turn of the loop of \<^verbatim>\<open>advance\<close> once a block is loaded: \<open>None\<close> is the \<^verbatim>\<open>continue\<close> at the
  end of a block, where the caller moves to the next one.\<close>

definition next_entry :: "bytes \<Rightarrow> SSTableIterator \<Rightarrow> SSTableIterator option" where
  "next_entry data it =
     (if si_offset it \<ge> length data then None
      else if si_offset it + entryHeaderSize > length data then Some (it\<lparr>si_valid := False\<rparr>)
      else
        let keyLen = unat (Uint32 (sub data (si_offset it) 4));
            valLen = unat (Uint32 (sub data (si_offset it + 4) 4));
            flags = data ! (si_offset it + 8);
            it = it\<lparr>si_offset := si_offset it + entryHeaderSize\<rparr>
        in if si_offset it + keyLen + valLen > length data then Some (it\<lparr>si_valid := False\<rparr>)
           else
             let it = it\<lparr>si_currKey := Some (sub data (si_offset it) keyLen), si_offset := si_offset it + keyLen\<rparr>;
                 it = it\<lparr>si_currDeleted := (flags = flagTombstone)\<rparr>;
                 it = it\<lparr>si_currValue := (if \<not> si_currDeleted it \<and> valLen > 0
                            then Some (sub data (si_offset it) valLen) else None)\<rparr>;
                 it = it\<lparr>si_offset := si_offset it + valLen\<rparr>
             in Some (it\<lparr>si_valid := True\<rparr>))"

function advance :: "rfaults \<Rightarrow> Reader \<Rightarrow> SSTableIterator \<Rightarrow> SSTableIterator" where
  "advance ft r it =
     (case si_blockData it of
        None \<Rightarrow>
          if si_blockIndex it \<ge> length (rd_index r) then it\<lparr>si_valid := False\<rparr>
          else
            let ie = rd_index r ! si_blockIndex it in
            (case readBlock ft r (ie_blockOffset ie) (ie_blockLen ie) of
               Inl e \<Rightarrow> it\<lparr>si_valid := False\<rparr>
             | Inr data \<Rightarrow>
                 (case next_entry data (it\<lparr>si_blockData := Some data, si_offset := 0\<rparr>) of
                    Some it' \<Rightarrow> it'
                  | None \<Rightarrow> advance ft r (it\<lparr>si_blockIndex := si_blockIndex it + 1, si_blockData := None,
                              si_offset := 0\<rparr>)))
      | Some data \<Rightarrow>
          (case next_entry data it of
             Some it' \<Rightarrow> it'
           | None \<Rightarrow> advance ft r (it\<lparr>si_blockIndex := si_blockIndex it + 1, si_blockData := None,
                       si_offset := 0\<rparr>)))"
  by pat_completeness auto
termination
  by (relation "measure (\<lambda>(_, r, it). Suc (length (rd_index r)) - si_blockIndex it
        + (if si_blockData it = None then 0 else 1))") auto

declare advance.simps [simp del]

definition si_Next :: "rfaults \<Rightarrow> Reader \<Rightarrow> SSTableIterator \<Rightarrow> SSTableIterator" where
  "si_Next ft r it = advance ft r it"

definition SeekToFirst :: "rfaults \<Rightarrow> Reader \<Rightarrow> SSTableIterator \<Rightarrow> SSTableIterator" where
  "SeekToFirst ft r it =
     advance ft r (it\<lparr>si_blockIndex := 0, si_blockData := None, si_offset := 0, si_valid := True\<rparr>)"

definition si_Close :: "SSTableIterator \<Rightarrow> SSTableIterator" where
  "si_Close it = it\<lparr>si_valid := False, si_blockData := None\<rparr>"

subsection \<open>Framed sequences\<close>

definition small_entry :: "entry \<Rightarrow> bool" where
  "small_entry e \<longleftrightarrow> length (fst e) < 2 ^ 32 \<and> (\<not> snd (snd e) \<longrightarrow> length (slice_bytes (fst (snd e))) < 2 ^ 32)"

definition small_index :: "indexEntry \<Rightarrow> bool" where
  "small_index ie \<longleftrightarrow> length (ie_firstKey ie) < 2 ^ 32"

definition entry_value :: "entry \<Rightarrow> bytes" where
  "entry_value e = (if snd (snd e) then [] else slice_bytes (fst (snd e)))"

definition entry_flags :: "entry \<Rightarrow> byte" where
  "entry_flags e = (if snd (snd e) then flagTombstone else flagNormal)"

lemma enc_entry_small:
  assumes "small_entry e"
  shows "enc_entry e = PutUint32 (of_nat (length (fst e))) @ PutUint32 (of_nat (length (entry_value e)))
     @ entry_flags e # fst e @ entry_value e"
proof -
  have "take (unat (of_nat (length (slice_bytes v)) :: u32)) (slice_bytes v) = slice_bytes v"
    if "length (slice_bytes v) < 2 ^ 32" for v
    using that by (simp add: unat_of_nat_u32)
  with assms show ?thesis
    by (cases e) (simp add: enc_entry_def encode_entry_def entry_value_def entry_flags_def small_entry_def Let_def)
qed

lemma small_lengths:
  assumes "small_entry e"
  shows "unat (of_nat (length (fst e)) :: u32) = length (fst e)"
    "unat (of_nat (length (entry_value e)) :: u32) = length (entry_value e)"
  using assms by (auto simp: small_entry_def entry_value_def unat_of_nat_u32)

text \<open>What a read at the start of an encoded entry sees.\<close>

lemma entry_at:
  assumes "small_entry e"
  shows "length (enc_entry e) = entryHeaderSize + length (fst e) + length (entry_value e)"
    "unat (Uint32 (sub (pre @ enc_entry e @ rest) (length pre) 4)) = length (fst e)"
    "unat (Uint32 (sub (pre @ enc_entry e @ rest) (length pre + 4) 4)) = length (entry_value e)"
    "(pre @ enc_entry e @ rest) ! (length pre + 8) = entry_flags e"
    "sub (pre @ enc_entry e @ rest) (length pre + entryHeaderSize) (length (fst e)) = fst e"
    "sub (pre @ enc_entry e @ rest) (length pre + entryHeaderSize + length (fst e)) (length (entry_value e))
       = entry_value e"
proof -
  let ?k = "PutUint32 (of_nat (length (fst e)))" and ?v = "PutUint32 (of_nat (length (entry_value e)))"
  let ?all = "pre @ ?k @ ?v @ [entry_flags e] @ fst e @ entry_value e @ rest"
  have eq: "pre @ enc_entry e @ rest = ?all" by (simp add: enc_entry_small [OF assms])
  show "length (enc_entry e) = entryHeaderSize + length (fst e) + length (entry_value e)"
    by (simp add: enc_entry_small [OF assms] entryHeaderSize_def)
  show "unat (Uint32 (sub (pre @ enc_entry e @ rest) (length pre) 4)) = length (fst e)"
    unfolding eq by (simp add: slice_simps small_lengths [OF assms])
  show "unat (Uint32 (sub (pre @ enc_entry e @ rest) (length pre + 4) 4)) = length (entry_value e)"
    unfolding eq by (simp add: slice_simps small_lengths [OF assms])
  show "(pre @ enc_entry e @ rest) ! (length pre + 8) = entry_flags e"
    unfolding eq by (simp add: nth_append)
  show "sub (pre @ enc_entry e @ rest) (length pre + entryHeaderSize) (length (fst e)) = fst e"
    unfolding eq by (simp add: slice_simps entryHeaderSize_def)
  show "sub (pre @ enc_entry e @ rest) (length pre + entryHeaderSize + length (fst e)) (length (entry_value e))
       = entry_value e"
    unfolding eq by (simp add: slice_simps entryHeaderSize_def)
qed

text \<open>The scan of a block as a run over its entries.\<close>

definition scan_turn :: "bytes \<Rightarrow> entry \<Rightarrow> error + slice \<times> bool \<Rightarrow> error + slice \<times> bool" where
  "scan_turn key e rest =
     (if fst e = key then (if snd (snd e) then Inr (None, True) else Inr (Some (entry_value e), False))
      else if key < fst e then Inr (None, False) else rest)"

interpretation block_scan: framed_scan enc_entry small_entry "scan_loop key" "scan_turn key" for key
proof
  fix e :: entry and pre rest
  assume e: "small_entry e"
  define data where "data = pre @ enc_entry e @ rest"
  note at = entry_at(2-) [OF e, of pre rest, folded data_def]
  have len: "length pre + entryHeaderSize + length (fst e) + length (entry_value e) \<le> length data"
    "0 < entryHeaderSize"
    by (simp_all add: data_def entry_at(1) [OF e] entryHeaderSize_def)
  then have "scan_loop key data (length pre) =
      scan_turn key e (scan_loop key data (length pre + length (enc_entry e)))"
    by (subst scan_loop.simps)
      (simp add: Let_def at entry_at(1) [OF e] scan_turn_def entry_flags_def flagNormal_def flagTombstone_def
        add.assoc [symmetric], use at(5) in auto)
  then show "scan_loop key (pre @ enc_entry e @ rest) (length pre) =
      scan_turn key e (scan_loop key (pre @ enc_entry e @ rest) (length pre + length (enc_entry e)))"
    by (simp add: data_def)
qed

definition index_turn ::
  "indexEntry \<Rightarrow> (indexEntry list \<Rightarrow> error + indexEntry list) \<Rightarrow> indexEntry list \<Rightarrow> error + indexEntry list" where
  "index_turn ie rest acc = rest (acc @ [ie])"

interpretation index_scan: framed_scan enc_index small_index parse_index_loop index_turn
proof
  fix ie :: indexEntry and pre rest
  assume ie: "small_index ie"
  let ?k = "PutUint32 (of_nat (length (ie_firstKey ie)))"
  let ?all = "pre @ ?k @ ie_firstKey ie @ PutUint64 (ie_blockOffset ie) @ PutUint32 (ie_blockLen ie) @ rest"
  have len: "unat (of_nat (length (ie_firstKey ie)) :: u32) = length (ie_firstKey ie)"
    using ie by (simp add: small_index_def unat_of_nat_u32)
  have eq: "pre @ enc_index ie @ rest = ?all" and l: "length (enc_index ie) = 16 + length (ie_firstKey ie)"
    by (simp_all add: enc_index_def)
  have "parse_index_loop ?all (length pre) acc =
      parse_index_loop ?all (length pre + (16 + length (ie_firstKey ie))) (acc @ [ie])" for acc
    by (subst parse_index_loop.simps, cases ie) (use len in \<open>simp add: Let_def slice_simps ac_simps\<close>)
  then show "parse_index_loop (pre @ enc_index ie @ rest) (length pre) =
      index_turn ie (parse_index_loop (pre @ enc_index ie @ rest) (length pre + length (enc_index ie)))"
    unfolding eq l by (simp add: index_turn_def fun_eq_iff)
qed

subsection \<open>Binary search\<close>

text \<open>The search finds the last entry whose first key is at most the key.\<close>

lemma search_loop_spec:
  assumes "sorted (map ie_firstKey index)" "0 \<le> lo" "hi < int (length index)"
    "\<forall>i < nat lo. ie_firstKey (index ! i) \<le> key"
    "\<forall>i. nat (hi + 1) \<le> i \<and> i < length index \<longrightarrow> key < ie_firstKey (index ! i)"
    "lo \<le> hi + 1" "result = lo - 1"
  shows "search_loop index key lo hi result = int (length (takeWhile (\<lambda>ie. ie_firstKey ie \<le> key) index)) - 1"
  using assms
proof (induction index key lo hi result rule: search_loop.induct)
  case (1 index key lo hi result)
  have sorted: "ie_firstKey (index ! i) \<le> ie_firstKey (index ! j)" if "i \<le> j" "j < length index" for i j
    using sorted_nth_mono [OF "1.prems"(1) that(1)] that by simp
  show ?case
  proof (cases "lo \<le> hi")
    case False
    then have lo: "lo = hi + 1" using "1.prems" by simp
    have "takeWhile (\<lambda>ie. ie_firstKey ie \<le> key) index = take (nat lo) index"
    proof (rule takeWhile_eq_take_P_nth)
      show "ie_firstKey (index ! i) \<le> key" if "i < nat lo" "i < length index" for i
        using that "1.prems"(4) by blast
      show "nat lo < length index \<Longrightarrow> \<not> ie_firstKey (index ! nat lo) \<le> key"
        using "1.prems"(5) lo by (simp add: not_le)
    qed
    moreover have "nat lo \<le> length index" using lo "1.prems"(3) by linarith
    ultimately show ?thesis
      using False "1.prems"(2,7) by (subst search_loop.simps) (simp add: min_def)
  next
    case True
    define mid where "mid = (lo + hi) div 2"
    have mid: "lo \<le> mid" "mid \<le> hi" "nat mid < length index" "0 \<le> mid"
      using True "1.prems"(2,3) by (simp_all add: mid_def)
    show ?thesis
    proof (cases "ie_firstKey (index ! nat mid) \<le> key")
      case le: True
      have "\<forall>i < nat (mid + 1). ie_firstKey (index ! i) \<le> key"
      proof (intro allI impI)
        fix i assume "i < nat (mid + 1)"
        with mid have "i \<le> nat mid" by linarith
        then show "ie_firstKey (index ! i) \<le> key"
          using sorted [of i "nat mid"] mid(3) le by (meson order_trans)
      qed
      then have "search_loop index key (mid + 1) hi mid =
          int (length (takeWhile (\<lambda>ie. ie_firstKey ie \<le> key) index)) - 1"
        using "1.IH"(1) [OF True mid_def] "1.prems" mid le by simp
      with True le show ?thesis by (subst search_loop.simps) (simp add: Let_def mid_def)
    next
      case gt: False
      have "\<forall>i. nat (mid - 1 + 1) \<le> i \<and> i < length index \<longrightarrow> key < ie_firstKey (index ! i)"
        using sorted [of "nat mid"] gt by (auto simp: not_le intro: less_le_trans)
      then have "search_loop index key lo (mid - 1) result =
          int (length (takeWhile (\<lambda>ie. ie_firstKey ie \<le> key) index)) - 1"
        using "1.IH"(2) [OF True mid_def] "1.prems" mid gt by simp
      with True gt show ?thesis by (subst search_loop.simps) (simp add: Let_def mid_def)
    qed
  qed
qed

lemma searchIndex_spec:
  assumes "sorted (map ie_firstKey index)"
  shows "searchIndex index key = int (length (takeWhile (\<lambda>ie. ie_firstKey ie \<le> key) index)) - 1"
  unfolding searchIndex_def by (rule search_loop_spec [OF assms]) auto

subsection \<open>Looking up a table\<close>

text \<open>What a lookup answers from the cell of the key.  A \<^verbatim>\<open>nil\<close> value comes back as an empty one.\<close>

fun sst_result :: "cell option \<Rightarrow> slice \<times> bool" where
  "sst_result None = (None, False)"
| "sst_result (Some Tomb) = (None, True)"
| "sst_result (Some (Val v)) = (Some (slice_bytes v), False)"

abbreviation entries_table :: "entry list \<Rightarrow> table" where
  "entries_table es \<equiv> map entry_cell es"

lemma map_fst_entries_table [simp]: "map fst (entries_table es) = map fst es"
  by simp

lemma entries_table_absent: "key \<notin> fst ` set es \<Longrightarrow> map_of (entries_table es) key = None"
  by (simp add: map_of_eq_None_iff image_image)

lemma foldr_scan_turn:
  "sorted_table (es :: entry list) \<Longrightarrow>
   foldr (scan_turn key) es (Inr (None, False)) = Inr (sst_result (map_of (entries_table es) key))"
proof (induction es)
  case Nil
  then show ?case by simp
next
  case (Cons e es)
  have "key \<notin> fst ` set es" if "key < fst e" using Cons.prems that by auto
  then have "map_of (entries_table es) key = None" if "key < fst e"
    using that entries_table_absent by blast
  with Cons show ?case
    by (cases e) (auto simp: scan_turn_def entry_cell_def entry_value_def)
qed

lemma scanBlock_entries:
  assumes "sorted_table (es :: entry list)" "list_all small_entry es"
  shows "scanBlock (entries_bytes es) key = Inr (sst_result (map_of (entries_table es) key))"
proof -
  have "scan_loop key (entries_bytes es) (length (entries_bytes es)) = Inr (None, False)"
    by (subst scan_loop.simps) simp
  then show ?thesis
    using block_scan.scan_from_start [OF assms(2), of key "[]"] foldr_scan_turn [OF assms(1)]
    by (simp add: scanBlock_def entries_bytes_def [symmetric])
qed

lemma parseIndex_entries:
  assumes "list_all small_index ies"
  shows "parseIndex (index_bytes ies) = Inr ies"
proof -
  have "foldr index_turn ies r acc = r (acc @ ies)" for r acc
    by (induction ies arbitrary: acc) (simp_all add: index_turn_def)
  moreover have "parse_index_loop (index_bytes ies) (length (index_bytes ies)) acc = Inr acc" for acc
    by (subst parse_index_loop.simps) simp
  ultimately show ?thesis
    using index_scan.scan_from_start [OF assms, of "[]"]
    by (simp add: parseIndex_def index_bytes_def [symmetric])
qed

text \<open>Which block of a table that was cut into blocks can hold a key.\<close>

abbreviation blocks_upto :: "bytes \<Rightarrow> entry list list \<Rightarrow> nat" where
  "blocks_upto key bls \<equiv> length (takeWhile (\<lambda>bl. fst (hd bl) \<le> key) bls)"

lemma map_of_entries_append:
  "key \<notin> fst ` set es \<Longrightarrow> map_of (entries_table (es @ fs)) key = map_of (entries_table fs) key"
  "key \<notin> fst ` set fs \<Longrightarrow> map_of (entries_table (es @ fs)) key = map_of (entries_table es) key"
  by (simp_all add: map_add_def entries_table_absent split: option.splits)

lemma hd_in_concat: "b \<in> set bs \<Longrightarrow> [] \<notin> set bs \<Longrightarrow> hd b \<in> set (concat bs)"
  by (metis UN_iff hd_in_set set_concat)

lemma sorted_block:
  assumes "sorted_table (concat bls :: entry list)" "i < length bls"
  shows "sorted_table (bls ! i)"
proof -
  have "concat bls = concat (take i bls) @ bls ! i @ concat (drop (Suc i) bls)"
    using id_take_nth_drop [OF assms(2)] by (metis concat.simps(2) concat_append)
  with assms(1) show ?thesis by (simp add: sorted_wrt_append)
qed

lemma last_block:
  assumes "sorted_table (concat bls :: entry list)" "[] \<notin> set bls"
  shows "(blocks_upto key bls = 0 \<longrightarrow> key \<notin> fst ` set (concat bls)) \<and>
    (0 < blocks_upto key bls \<longrightarrow> map_of (entries_table (concat bls)) key =
       map_of (entries_table (bls ! (blocks_upto key bls - 1))) key)"
  using assms
proof (induction bls)
  case Nil
  then show ?case by simp
next
  case (Cons b bs)
  have b: "b \<noteq> []" "hd b \<in> set b" using Cons.prems(2) by auto
  have sorted: "sorted_table (concat bs)"
    and cross: "\<And>x y. x \<in> set b \<Longrightarrow> y \<in> set (concat bs) \<Longrightarrow> fst x < fst y"
    using Cons.prems(1) by (auto simp: sorted_wrt_append)
  have b_first: "fst (hd b) \<le> fst x" if "x \<in> set b" for x
    using Cons.prems(1) that b(1) by (cases b) (auto simp: sorted_wrt_append less_imp_le)
  note IH = Cons.IH [OF sorted]
  show ?case
  proof (cases "fst (hd b) \<le> key")
    case False
    have "fst (hd b) \<le> fst x" if "x \<in> set b \<or> x \<in> set (concat bs)" for x
      using that b_first [of x] less_imp_le [OF cross [OF b(2), of x]] by blast
    with False show ?thesis by auto
  next
    case True
    show ?thesis
    proof (cases "blocks_upto key bs = 0")
      case zero: True
      with IH Cons.prems(2) have "key \<notin> fst ` set (concat bs)" by simp
      with map_of_entries_append(2) [OF this, of b] True zero show ?thesis by simp
    next
      case pos: False
      then obtain c cs where bs: "bs = c # cs" and c: "fst (hd c) \<le> key"
        by (cases bs) (auto split: if_splits)
      then have "hd c \<in> set (concat bs)" using Cons.prems(2) hd_in_set [of c] by auto
      with cross c have "key \<notin> fst ` set b" by fastforce
      with map_of_entries_append(1) [OF this, of "concat bs"] pos IH Cons.prems(2) True show ?thesis
        by (simp add: nth_Cons')
    qed
  qed
qed

subsection \<open>Opening a written table\<close>

text \<open>The bounds that follow from the weight of a table.\<close>

lemma length_block_bytes:
  assumes "list_all small_entry bl" "bl \<noteq> []"
  shows "length (block_bytes bl) + 3 * length bl \<le> sum_list (map entry_weight bl)"
proof -
  have "length (entries_bytes bl) + 7 * length bl = sum_list (map entry_weight bl)"
    using assms(1) by (induction bl)
      (auto simp: entry_at(1) entry_weight_def entryHeaderSize_def entry_value_def split: prod.splits)
  moreover have "1 \<le> length bl" using assms(2) by (simp add: Suc_le_eq)
  ultimately show ?thesis by (simp add: block_bytes_def del: One_nat_def)
qed

definition tidy_blocks :: "entry list list \<Rightarrow> bool" where
  "tidy_blocks bls \<longleftrightarrow> [] \<notin> set bls \<and> writable (concat bls)"

lemma writable_small: "writable es \<Longrightarrow> list_all small_entry es"
  using writableD by (fastforce simp: list_all_iff small_entry_def)

lemma tidy_blocksD:
  assumes "tidy_blocks bls" "bl \<in> set bls"
  shows "bl \<noteq> []" "list_all small_entry bl" "hd bl \<in> set (concat bls)"
proof -
  show ne: "bl \<noteq> []" using assms by (auto simp: tidy_blocks_def)
  show "list_all small_entry bl"
    using assms writable_small [of "concat bls"] unfolding tidy_blocks_def list_all_iff by auto
  show "hd bl \<in> set (concat bls)" using assms(2) hd_in_set [OF ne] by auto
qed

lemma tidy_lengths:
  assumes "[] \<notin> set bls" "list_all small_entry (concat bls)"
  shows "length (data_bytes bls) \<le> sum_list (map entry_weight (concat bls)) \<and>
    length (index_bytes (index_from off bls)) \<le> sum_list (map entry_weight (concat bls))"
  using assms
proof (induction bls arbitrary: off)
  case Nil
  show ?case by simp
next
  case (Cons b bs)
  have b: "b \<noteq> []" "list_all small_entry b" using Cons.prems by auto
  have "length (fst (hd b)) + 16 \<le> entry_weight (hd b)"
    by (simp add: entry_weight_def split: prod.splits)
  also have "\<dots> \<le> sum_list (map entry_weight b)" using b by (simp add: weight_member)
  finally have "length (enc_index \<lparr>ie_firstKey = fst (hd b), ie_blockOffset = of_nat off,
      ie_blockLen = of_nat (length (block_bytes b))\<rparr>) \<le> sum_list (map entry_weight b)"
    by (simp add: enc_index_def)
  with Cons.IH [of "off + length (block_bytes b)"] Cons.prems length_block_bytes [OF b(2,1)] show ?case
    by (simp add: add_mono)
qed

lemma u32_unat_bound: "unat (x :: u32) < 2 ^ 32"
  by (rule order_less_le_trans [OF unsigned_less]) simp

lemma length_Encode_Build:
  assumes "Build keys bitsPerKey = Inr f" "length keys \<le> 400000000"
  shows "length (Encode f) < 2 ^ 32"
proof (cases "keys = []")
  case True
  with assms show ?thesis by (auto simp: Build_def Encode_def)
next
  case False
  obtain g where "Build keys bitsPerKey = Inr g" "fits (fl_m g) (fl_bits g)"
    by (rule Build_bitsPerKey [OF False assms(2)])
  then have "8 * length (fl_bits f) < 2 ^ 32"
    using assms(1) u32_unat_bound [of "fl_m f"] by (simp add: fits_def)
  then show ?thesis by (simp add: Encode_def)
qed

lemma sint_of_nat_u64: "n < 2 ^ 63 \<Longrightarrow> sint (of_nat n :: u64) = int n"
  by (simp add: signed_of_nat signed_take_bit_int_eq_self)

text \<open>The bounds of a tidy table, in the form the reader meets them.\<close>

lemma tidy_bounds:
  assumes "tidy_blocks bls"
  shows "length (data_bytes bls) < 2 ^ 32" "length (index_bytes (index_from 0 bls)) < 2 ^ 32"
    "length (concat bls) \<le> 400000000" "list_all small_index (index_from off bls)"
proof -
  have w: "writable (concat bls)" and ne: "[] \<notin> set bls" using assms by (simp_all add: tidy_blocks_def)
  show "length (data_bytes bls) < 2 ^ 32" "length (index_bytes (index_from 0 bls)) < 2 ^ 32"
    using tidy_lengths [OF ne writable_small [OF w], of 0] w by (simp_all add: writable_def)
  show "length (concat bls) \<le> 400000000" by (rule writable_length [OF w])
  have "\<forall>bl \<in> set bls. length (fst (hd bl)) < 2 ^ 32"
    using writableD(2) [OF w tidy_blocksD(3) [OF assms]] by fastforce
  then show "list_all small_index (index_from off bls)"
    by (induction bls arbitrary: off) (simp_all add: small_index_def)
qed

lemma no_rfaults_simps [simp]: "\<not> rf_open no_rfaults" "\<not> rf_stat no_rfaults" "\<not> rf_read no_rfaults i n"
  by (simp_all add: no_rfaults_def)

lemma ReadAt_ok:
  assumes "off + n \<le> length file"
  shows "ReadAt no_rfaults False file n (int off) = Inr (sub file off n)"
  using assms by (auto simp: ReadAt_def no_rfaults_def sub_def)

lemma length_encode_footer [simp]: "length (encode_footer a b c d e) = footerSize"
  by (simp add: encode_footer_def footerSize_def)

lemma footer_fields:
  fixes a b c d e
  defines "ft \<equiv> encode_footer a b c d e"
  shows "Uint64 (sub ft 0 8) = a" "Uint32 (sub ft 8 4) = b" "Uint64 (sub ft 12 8) = c"
    "Uint32 (sub ft 20 4) = d" "Uint64 (sub ft 24 8) = e" "Uint64 (sub ft 32 8) = magic"
    "Uint16 (sub ft 40 2) = version"
  unfolding ft_def encode_footer_def by (simp_all add: slice_simps)

text \<open>The reader that opening the file of some blocks and a filter gives.\<close>

definition reader_of :: "entry list list \<Rightarrow> Filter \<Rightarrow> Reader" where
  "reader_of bls f = \<lparr>rd_file = sst_bytes bls f, rd_closed = False,
     rd_fileSize = int (length (sst_bytes bls f)), rd_index = index_from 0 bls, rd_filter = f,
     rd_numEntries = of_nat (length (concat bls))\<rparr>"

text \<open>Opening a file reads nothing of its data blocks.\<close>

lemma rd_Open_reads:
  assumes bls: "tidy_blocks bls" and f: "Build (map fst (concat bls)) bitsPerKey = Inr f"
    and d: "length d = length (data_bytes bls)"
    and ft: "\<not> rf_open ft" "\<not> rf_stat ft" "\<forall>off n. int (length d) \<le> off \<longrightarrow> \<not> rf_read ft off n"
  defines "img \<equiv> d @ sst_tail bls f"
  shows "rd_Open ft (Some img) = Inr ((reader_of bls f)\<lparr>rd_file := img\<rparr>)"
proof -
  define ix where "ix = index_bytes (index_from 0 bls)"
  define bf where "bf = Encode f"
  define foot where "foot = encode_footer (of_nat (length d)) (of_nat (length ix))
      (of_nat (length d + length ix)) (of_nat (length bf)) (of_nat (length (concat bls)))"
  have img: "img = d @ ix @ bf @ foot"
    by (simp add: img_def sst_tail_def Let_def d ix_def bf_def foot_def)
  have foot: "length foot = footerSize" by (simp add: foot_def)
  have b: "length d < 2 ^ 32" "length ix < 2 ^ 32" "length bf < 2 ^ 32"
    using tidy_bounds(1-3) [OF bls] length_Encode_Build [OF f] by (simp_all add: d ix_def bf_def)
  have offs: "sint (of_nat (length d) :: u64) = int (length d)"
    "sint (of_nat (length d + length ix) :: u64) = int (length d + length ix)"
    using b by (simp_all add: sint_of_nat_u64 del: of_nat_add)
  have lens: "unat (of_nat (length ix) :: u32) = length ix" "unat (of_nat (length bf) :: u32) = length bf"
    using b by (simp_all add: unat_of_nat_u32)
  have size: "int (length img) - int footerSize = int (length d + length ix + length bf)"
    by (simp add: img foot)
  have same: "ReadAt ft False img n (int off) = ReadAt no_rfaults False img n (int off)" if "length d \<le> off" for n off
    using ft(3) that by (simp add: ReadAt_def)
  have reads: "ReadAt ft False img footerSize (int (length d + length ix + length bf)) = Inr foot"
    "ReadAt ft False img (length ix) (int (length d)) = Inr ix"
    "ReadAt ft False img (length bf) (int (length d + length ix)) = Inr bf"
    by (subst same, simp, subst ReadAt_ok; simp add: img foot slice_simps)+
  have "parseIndex ix = Inr (index_from 0 bls)"
    unfolding ix_def by (rule parseIndex_entries [OF tidy_bounds(4) [OF bls]])
  moreover have "Decode bf = f" by (simp add: bf_def bloom.deser_ser)
  moreover have "\<not> int (length img) < int footerSize" by (simp add: img foot)
  moreover have "length (sst_bytes bls f) = length img" by (simp add: sst_bytes_def img_def d)
  ultimately show ?thesis
    by (simp add: rd_Open_def Let_def size reads footer_fields [of "of_nat (length d)" "of_nat (length ix)"
          "of_nat (length d + length ix)" "of_nat (length bf)" "of_nat (length (concat bls))", folded foot_def]
        offs lens reader_of_def ft del: of_nat_add)
qed

lemma rd_Open_tail:
  assumes "tidy_blocks bls" "Build (map fst (concat bls)) bitsPerKey = Inr f" "length d = length (data_bytes bls)"
  shows "rd_Open no_rfaults (Some (d @ sst_tail bls f)) = Inr ((reader_of bls f)\<lparr>rd_file := d @ sst_tail bls f\<rparr>)"
  by (rule rd_Open_reads [OF assms]) simp_all

lemma rd_Open_sst:
  assumes "tidy_blocks bls" "Build (map fst (concat bls)) bitsPerKey = Inr f"
  shows "rd_Open no_rfaults (Some (sst_bytes bls f)) = Inr (reader_of bls f)"
  using rd_Open_tail [OF assms refl] by (simp add: sst_bytes_def reader_of_def)

text \<open>A block is read from wherever its index entry points to, whatever the rest of the file holds.\<close>

definition crc_mismatch :: error where
  "crc_mismatch = Err ''sstable reader: block CRC mismatch''"

definition check_block :: "bytes \<Rightarrow> error + bytes" where
  "check_block blk =
     (let data = take (length blk - 4) blk in
      if Uint32 (drop (length blk - 4) blk) \<noteq> crc32_Checksum data then Inl crc_mismatch else Inr data)"

lemma block_position:
  assumes "i < length bls"
  shows "data_bytes bls = data_bytes (take i bls) @ block_bytes (bls ! i) @ data_bytes (drop (Suc i) bls)"
proof -
  have "data_bytes bls = data_bytes (take i bls @ bls ! i # drop (Suc i) bls)"
    using id_take_nth_drop [OF assms] by simp
  then show ?thesis by simp
qed

lemma readBlock_at:
  fixes f :: Filter
  assumes bls: "tidy_blocks bls" and i: "i < length bls" and d: "length d = length (data_bytes bls)"
  defines "ie \<equiv> index_from 0 bls ! i"
    and "r \<equiv> (reader_of bls f)\<lparr>rd_file := d @ sst_tail bls f\<rparr>"
  shows "readBlock no_rfaults r (ie_blockOffset ie) (ie_blockLen ie) =
    check_block (sub d (length (data_bytes (take i bls))) (length (block_bytes (bls ! i))))"
proof -
  let ?pre = "data_bytes (take i bls)" and ?blk = "block_bytes (bls ! i)"
  have b: "length ?pre + length ?blk \<le> length d" "length d < 2 ^ 32"
    using tidy_bounds(1) [OF bls] arg_cong [OF block_position [OF i], of length] d by simp_all
  have ie: "ie_blockOffset ie = of_nat (length ?pre)" "ie_blockLen ie = of_nat (length ?blk)"
    using i by (simp_all add: ie_def index_from_nth)
  have "sint (ie_blockOffset ie) = int (length ?pre)" "unat (ie_blockLen ie) = length ?blk"
    using b by (simp_all add: ie sint_of_nat_u64 unat_of_nat_u32)
  moreover have "ReadAt no_rfaults False (d @ sst_tail bls f) (length ?blk) (int (length ?pre))
      = Inr (sub d (length ?pre) (length ?blk))"
    using b by (subst ReadAt_ok) (simp_all add: sub_append_left)
  moreover have "4 \<le> length (sub d (length ?pre) (length ?blk))"
    using b by (simp add: block_bytes_def)
  ultimately show ?thesis
    by (simp add: readBlock_def reader_of_def r_def Let_def check_block_def crc_mismatch_def)
qed

lemma check_block_ok: "check_block (block_bytes es) = Inr (entries_bytes es)"
  by (simp add: check_block_def block_bytes_def Let_def)

lemma readBlock_ok:
  assumes bls: "tidy_blocks bls" and i: "i < length bls"
  defines "ie \<equiv> index_from 0 bls ! i"
  shows "readBlock no_rfaults (reader_of bls f) (ie_blockOffset ie) (ie_blockLen ie) = Inr (entries_bytes (bls ! i))"
proof -
  have "sub (data_bytes bls) (length (data_bytes (take i bls))) (length (block_bytes (bls ! i))) = block_bytes (bls ! i)"
    by (subst block_position [OF i]) (simp add: slice_simps)
  with readBlock_at [OF bls i refl, of f] show ?thesis
    by (simp add: ie_def check_block_ok reader_of_def sst_bytes_def)
qed

text \<open>A reader that serves the entries \<open>es\<close>: it has the file of some blocks of them open.\<close>

definition serves :: "Reader \<Rightarrow> entry list \<Rightarrow> bool" where
  "serves r es \<longleftrightarrow> (\<exists>bls f. r = reader_of bls f \<and> tidy_blocks bls \<and> concat bls = es \<and>
     sorted_table es \<and> Build (map fst es) bitsPerKey = Inr f)"

lemma tidy_cut: "writable es \<Longrightarrow> tidy_blocks (cut bsz [] es)"
  using cut_nonempty by (simp add: tidy_blocks_def concat_cut)

text \<open>The bytes of a file that holds the entries \<open>es\<close>.\<close>

definition sst_image :: "bytes \<Rightarrow> entry list \<Rightarrow> bool" where
  "sst_image img es \<longleftrightarrow> (\<exists>bls f. img = sst_bytes bls f \<and> tidy_blocks bls \<and> concat bls = es \<and>
     sorted_table es \<and> Build (map fst es) bitsPerKey = Inr f)"

lemma sst_image_cut:
  assumes "writable es" "sorted_table es" "Build (map fst es) bitsPerKey = Inr f"
  shows "sst_image (sst_bytes (cut bsz [] es) f) es"
  unfolding sst_image_def using assms tidy_cut [OF assms(1), of bsz] concat_cut [of bsz "[]" es] by auto

lemma sst_imageD: "sst_image img es \<Longrightarrow> writable es" "sst_image img es \<Longrightarrow> sorted_table es"
  by (auto simp: sst_image_def tidy_blocks_def)

lemma rd_Open_image:
  assumes "sst_image img es"
  shows "\<exists>r. rd_Open no_rfaults (Some img) = Inr r \<and> serves r es"
proof -
  obtain bls f where img: "img = sst_bytes bls f" "tidy_blocks bls" "concat bls = es" "sorted_table es"
    "Build (map fst es) bitsPerKey = Inr f"
    using assms by (auto simp: sst_image_def)
  then have "rd_Open no_rfaults (Some img) = Inr (reader_of bls f)" using rd_Open_sst by simp
  moreover have "serves (reader_of bls f) es" unfolding serves_def using img by blast
  ultimately show ?thesis by blast
qed

lemma rd_Open_serves:
  assumes "writable es" "sorted_table es" "Build (map fst es) bitsPerKey = Inr f"
  shows "\<exists>r. rd_Open no_rfaults (Some (sst_bytes (cut bsz [] es) f)) = Inr r \<and> serves r es"
  by (rule rd_Open_image [OF sst_image_cut [OF assms]])

lemma blocks_upto_index:
  "length (takeWhile (\<lambda>ie. ie_firstKey ie \<le> key) (index_from off bls)) = blocks_upto key bls"
  by (induction bls arbitrary: off) simp_all

lemma sorted_index:
  assumes "sorted_table (concat bls :: entry list)" "[] \<notin> set bls"
  shows "sorted (map ie_firstKey (index_from off bls))"
  using assms
proof (induction bls arbitrary: off)
  case Nil
  show ?case by simp
next
  case (Cons b bs)
  have "hd b \<in> set b" using Cons.prems(2) by auto
  moreover have "hd c \<in> set (concat bs)" if "c \<in> set bs" for c
    by (rule hd_in_concat [OF that]) (use Cons.prems(2) in simp)
  ultimately have "\<forall>c \<in> set bs. fst (hd b) \<le> fst (hd c)"
    using Cons.prems(1) by (auto simp: sorted_wrt_append intro!: less_imp_le)
  moreover have "map ie_firstKey (index_from o' bs) = map (\<lambda>b. fst (hd b)) bs" for o' and bs :: "entry list list"
    by (induction bs arbitrary: o') simp_all
  ultimately show ?case using Cons by (simp add: sorted_wrt_append)
qed

text \<open>A lookup answers from one block, whatever the data part of the file holds.\<close>

lemma rd_Get_block:
  fixes img key :: bytes
  assumes bls: "tidy_blocks bls" and sorted: "sorted_table (concat bls)"
    and f: "Build (map fst (concat bls)) bitsPerKey = Inr f"
  defines "r \<equiv> (reader_of bls f)\<lparr>rd_file := img\<rparr>" and "i \<equiv> blocks_upto key bls - 1"
    and "ie \<equiv> index_from 0 bls ! (blocks_upto key bls - 1)"
  shows "rd_Get no_rfaults r key = Inr (None, False) \<and> key \<notin> fst ` set (concat bls) \<or>
    i < length bls \<and>
    rd_Get no_rfaults r key = (case readBlock no_rfaults r (ie_blockOffset ie) (ie_blockLen ie) of
        Inl e \<Rightarrow> Inl e | Inr data \<Rightarrow> scanBlock data key) \<and>
    scanBlock (entries_bytes (bls ! i)) key = Inr (sst_result (map_of (entries_table (concat bls)) key))"
proof -
  have ne: "[] \<notin> set bls" and cap: "length (map fst (concat bls)) \<le> 400000000"
    using bls tidy_bounds(3) [OF bls] by (simp_all add: tidy_blocks_def)
  let ?n = "blocks_upto key bls"
  have idx: "searchIndex (rd_index r) key = int ?n - 1"
    by (simp add: searchIndex_spec [OF sorted_index [OF sorted ne]] blocks_upto_index r_def reader_of_def)
  obtain b where b: "MayContain (rd_filter r) key = Inr b"
    using bloom.answers [OF cap f] by (auto simp: r_def reader_of_def)
  show ?thesis
  proof (cases "b \<and> 0 < ?n")
    case False
    then have "key \<notin> fst ` set (concat bls)"
      using bloom.member [OF cap f, of key] b last_block [OF sorted ne, of key]
      by (auto simp: r_def reader_of_def)
    with False b idx show ?thesis by (auto simp: rd_Get_def split: bool.splits)
  next
    case True
    then have i: "i < length bls"
      using length_takeWhile_le [of "\<lambda>bl. fst (hd bl) \<le> key" bls] unfolding i_def by linarith
    then have bl: "list_all small_entry (bls ! i)" using tidy_blocksD(2) [OF bls] by simp
    have "nat (int ?n - 1) = i" by (simp add: i_def)
    moreover have "rd_index r ! i = ie" by (simp add: r_def reader_of_def ie_def i_def)
    ultimately have "rd_Get no_rfaults r key = (case readBlock no_rfaults r (ie_blockOffset ie) (ie_blockLen ie) of
        Inl e \<Rightarrow> Inl e | Inr data \<Rightarrow> scanBlock data key)"
      using True b idx by (simp add: rd_Get_def Let_def)
    moreover have "scanBlock (entries_bytes (bls ! i)) key = Inr (sst_result (map_of (entries_table (concat bls)) key))"
      using scanBlock_entries [OF sorted_block [OF sorted i] bl] last_block [OF sorted ne, of key] True
      by (simp add: i_def)
    ultimately show ?thesis using i by blast
  qed
qed

lemma rd_Get_serves:
  assumes "serves r es"
  shows "rd_Get no_rfaults r key = Inr (sst_result (map_of (entries_table es) key))"
proof -
  obtain bls f where r: "r = (reader_of bls f)\<lparr>rd_file := rd_file r\<rparr>" "r = reader_of bls f"
    and bls: "tidy_blocks bls" and es: "es = concat bls"
    and sorted: "sorted_table (concat bls)" and f: "Build (map fst (concat bls)) bitsPerKey = Inr f"
    using assms by (auto simp: serves_def)
  show ?thesis
    using rd_Get_block [OF bls sorted f, of "rd_file r" key] readBlock_ok [OF bls, of _ f] r
    by (auto simp: es entries_table_absent)
qed

subsection \<open>Iterating a table\<close>

text \<open>What the iterator shows of an entry: an empty value comes back as \<^verbatim>\<open>nil\<close>.\<close>

definition seen_entry :: "entry \<Rightarrow> entry" where
  "seen_entry e = (fst e, if entry_value e = [] then None else Some (entry_value e), snd (snd e))"

definition si_shows :: "SSTableIterator \<Rightarrow> entry \<Rightarrow> bool" where
  "si_shows it e \<longleftrightarrow> si_currKey it = Some (fst e) \<and> (si_currValue it, si_currDeleted it) = snd e"

text \<open>The entries that an iterator over the blocks \<open>bls\<close> still has before it.\<close>

definition si_rest :: "entry list list \<Rightarrow> SSTableIterator \<Rightarrow> entry list \<Rightarrow> bool" where
  "si_rest bls it es \<longleftrightarrow>
     (case si_blockData it of
        None \<Rightarrow> es = concat (drop (si_blockIndex it) bls)
      | Some data \<Rightarrow> \<exists>pre post. si_blockIndex it < length bls \<and> bls ! si_blockIndex it = pre @ post \<and>
          data = entries_bytes (pre @ post) \<and> si_offset it = length (entries_bytes pre) \<and>
          es = post @ concat (drop (Suc (si_blockIndex it)) bls))"

lemma next_entry_at:
  assumes e: "small_entry e" and off: "si_offset it = length pre"
  shows "next_entry (pre @ enc_entry e @ rest) it = Some (it\<lparr>si_offset := length (pre @ enc_entry e),
     si_currKey := Some (fst e), si_currDeleted := snd (snd e),
     si_currValue := fst (snd (seen_entry e)), si_valid := True\<rparr>)"
proof -
  define data where "data = pre @ enc_entry e @ rest"
  note at = entry_at(2-) [OF e, of pre rest, folded data_def]
  have len: "length pre + entryHeaderSize + length (fst e) + length (entry_value e) \<le> length data"
    "0 < entryHeaderSize"
    by (simp_all add: data_def entry_at(1) [OF e] entryHeaderSize_def)
  have flag: "entry_flags e = flagTombstone \<longleftrightarrow> snd (snd e)"
    by (simp add: entry_flags_def flagNormal_def flagTombstone_def)
  have dead: "snd (snd e) \<Longrightarrow> entry_value e = []" by (simp add: entry_value_def)
  have "next_entry data it = Some (it\<lparr>si_offset := length pre + length (enc_entry e),
     si_currKey := Some (fst e), si_currDeleted := snd (snd e),
     si_currValue := fst (snd (seen_entry e)), si_valid := True\<rparr>)"
    using len dead
    by (simp add: next_entry_def Let_def off at flag entry_at(1) [OF e] seen_entry_def add.assoc [symmetric])
  then show ?thesis by (simp add: data_def)
qed

lemma si_rest_entry:
  assumes "tidy_blocks bls" "i < length bls" "bls ! i = pre @ e # post"
    and it: "si_blockIndex it = i" "si_blockData it = Some (entries_bytes (bls ! i))"
      "si_offset it = length (entries_bytes pre)"
  obtains it' where "next_entry (entries_bytes (bls ! i)) it = Some it'" "si_valid it'"
    "si_shows it' (seen_entry e)" "si_rest bls it' (post @ concat (drop (Suc i) bls))"
proof -
  have e: "small_entry e"
    using tidy_blocksD(2) [OF assms(1) nth_mem [OF assms(2)]] assms(3) by (simp add: list_all_iff)
  have data: "entries_bytes (bls ! i) = entries_bytes pre @ enc_entry e @ entries_bytes post"
    using assms(3) by simp
  define it' where "it' = it\<lparr>si_offset := length (entries_bytes pre @ enc_entry e),
     si_currKey := Some (fst e), si_currDeleted := snd (snd e),
     si_currValue := fst (snd (seen_entry e)), si_valid := True\<rparr>"
  show thesis
  proof (rule that [of it'])
    show "next_entry (entries_bytes (bls ! i)) it = Some it'"
      unfolding data it'_def by (rule next_entry_at [OF e it(3)])
    show "si_valid it'" "si_shows it' (seen_entry e)"
      by (simp_all add: it'_def si_shows_def seen_entry_def)
    have "bls ! i = (pre @ [e]) @ post" "si_offset it' = length (entries_bytes (pre @ [e]))"
      using assms(3) by (simp_all add: it'_def)
    then show "si_rest bls it' (post @ concat (drop (Suc i) bls))"
      unfolding si_rest_def using it assms(2) by (auto simp: it'_def)
  qed
qed

text \<open>One call of \<^verbatim>\<open>advance\<close>: it shows the next entry, or ends.\<close>

definition si_step :: "entry list list \<Rightarrow> SSTableIterator \<Rightarrow> entry list \<Rightarrow> bool" where
  "si_step bls it es \<longleftrightarrow>
     (case es of [] \<Rightarrow> \<not> si_valid it \<and> si_rest bls it []
      | e # es' \<Rightarrow> si_valid it \<and> si_shows it (seen_entry e) \<and> si_rest bls it es')"

lemma advance_unloaded:
  assumes "tidy_blocks bls" "si_blockData it = None"
  shows "si_step bls (advance no_rfaults (reader_of bls f) it) (concat (drop (si_blockIndex it) bls))"
proof (cases "si_blockIndex it < length bls")
  case False
  with assms show ?thesis by (subst advance.simps) (simp add: reader_of_def si_step_def si_rest_def)
next
  case True
  let ?i = "si_blockIndex it"
  have "bls ! ?i \<noteq> []" using tidy_blocksD(1) [OF assms(1)] True by simp
  then obtain e post where e: "bls ! ?i = [] @ e # post" by (metis append_Nil neq_Nil_conv)
  let ?it = "it\<lparr>si_blockData := Some (entries_bytes (bls ! ?i)), si_offset := 0\<rparr>"
  obtain it' where it': "next_entry (entries_bytes (bls ! ?i)) ?it = Some it'" "si_valid it'"
    "si_shows it' (seen_entry e)" "si_rest bls it' (post @ concat (drop (Suc ?i) bls))"
    by (rule si_rest_entry [OF assms(1) True e, of ?it]) auto
  have "advance no_rfaults (reader_of bls f) it = it'"
    using True assms(2) it'(1) readBlock_ok [OF assms(1) True, of f]
    by (subst advance.simps) (simp add: Let_def reader_of_def)
  moreover have "concat (drop ?i bls) = e # post @ concat (drop (Suc ?i) bls)"
    using e True by (simp add: Cons_nth_drop_Suc [symmetric])
  ultimately show ?thesis using it' by (simp add: si_step_def)
qed

lemma advance_step:
  assumes bls: "tidy_blocks bls" and rest: "si_rest bls it es"
  shows "si_step bls (advance no_rfaults (reader_of bls f) it) es"
proof (cases "si_blockData it")
  case None
  with rest advance_unloaded [OF bls None] show ?thesis by (simp add: si_rest_def)
next
  case (Some data)
  with rest obtain pre post where r: "si_blockIndex it < length bls" "bls ! si_blockIndex it = pre @ post"
    "data = entries_bytes (bls ! si_blockIndex it)" "si_offset it = length (entries_bytes pre)"
    "es = post @ concat (drop (Suc (si_blockIndex it)) bls)"
    by (auto simp: si_rest_def)
  show ?thesis
  proof (cases post)
    case Nil
    let ?it = "it\<lparr>si_blockIndex := si_blockIndex it + 1, si_blockData := None, si_offset := 0\<rparr>"
    have "next_entry data it = None" using r Nil by (simp add: next_entry_def)
    then have "advance no_rfaults (reader_of bls f) it = advance no_rfaults (reader_of bls f) ?it"
      using Some by (subst advance.simps) simp
    with advance_unloaded [OF bls, of ?it f] r(5) Nil show ?thesis by simp
  next
    case (Cons e post')
    obtain it' where it': "next_entry (entries_bytes (bls ! si_blockIndex it)) it = Some it'" "si_valid it'"
      "si_shows it' (seen_entry e)" "si_rest bls it' (post' @ concat (drop (Suc (si_blockIndex it)) bls))"
      using si_rest_entry [OF bls r(1), of pre e post' it] r Some Cons by auto
    then have "advance no_rfaults (reader_of bls f) it = it'"
      using Some r(3) by (subst advance.simps) simp
    with it' r(5) Cons show ?thesis by (simp add: si_step_def)
  qed
qed

definition serves_at :: "Reader \<Rightarrow> SSTableIterator \<Rightarrow> entry list \<Rightarrow> bool" where
  "serves_at r it es \<longleftrightarrow> (\<exists>bls f rest. r = reader_of bls f \<and> tidy_blocks bls \<and> si_rest bls it rest \<and>
     es = map seen_entry rest)"

lemma si_step_serves:
  assumes "serves_at r it es"
  shows "case es of [] \<Rightarrow> \<not> si_valid (advance no_rfaults r it) \<and> serves_at r (advance no_rfaults r it) []
    | e # es' \<Rightarrow> si_valid (advance no_rfaults r it) \<and> si_shows (advance no_rfaults r it) e \<and>
        serves_at r (advance no_rfaults r it) es'"
proof -
  obtain bls f rest where r: "r = reader_of bls f" "tidy_blocks bls" "si_rest bls it rest"
    "es = map seen_entry rest"
    using assms by (auto simp: serves_at_def)
  have "si_step bls (advance no_rfaults r it) rest"
    unfolding r(1) by (rule advance_step [OF r(2,3)])
  with r show ?thesis
    by (cases rest) (auto simp: si_step_def serves_at_def)
qed

lemma serves_at_start:
  assumes "serves r es" "si_blockIndex it = 0" "si_blockData it = None"
  shows "serves_at r it (map seen_entry es)"
proof -
  obtain bls f where r: "r = reader_of bls f" "tidy_blocks bls" "concat bls = es"
    using assms by (auto simp: serves_def)
  then have "si_rest bls it es" using assms by (simp add: si_rest_def)
  with r show ?thesis unfolding serves_at_def by blast
qed

subsection \<open>The interface of a table file\<close>

text \<open>What the layers above rely on: a reader that serves some entries answers every lookup from
  them, and an iterator that was placed at the start shows them one by one and then ends.\<close>

locale table_file =
  fixes rep :: "'r \<Rightarrow> entry list \<Rightarrow> bool"
    and get :: "'r \<Rightarrow> bytes \<Rightarrow> error + slice \<times> bool"
    and seek :: "'r \<Rightarrow> 'i \<Rightarrow> 'i"
    and step :: "'r \<Rightarrow> 'i \<Rightarrow> 'i"
    and valid :: "'i \<Rightarrow> bool"
    and shows_entry :: "'i \<Rightarrow> entry \<Rightarrow> bool"
    and after :: "'r \<Rightarrow> 'i \<Rightarrow> entry list \<Rightarrow> bool"
  assumes rep_get: "rep r es \<Longrightarrow> get r key = Inr (sst_result (map_of (entries_table es) key))"
    and seek_next: "rep r es \<Longrightarrow> map seen_entry es = e # rest \<Longrightarrow>
          valid (seek r it) \<and> shows_entry (seek r it) e \<and> after r (seek r it) rest"
    and seek_end: "rep r [] \<Longrightarrow> \<not> valid (seek r it) \<and> after r (seek r it) []"
    and step_next: "after r it (e # rest) \<Longrightarrow>
          valid (step r it) \<and> shows_entry (step r it) e \<and> after r (step r it) rest"
    and step_end: "after r it [] \<Longrightarrow> \<not> valid (step r it) \<and> after r (step r it) []"
begin

lemma shows_nth:
  assumes "rep r es" "n < length es"
  shows "valid ((step r ^^ n) (seek r it)) \<and> shows_entry ((step r ^^ n) (seek r it)) (seen_entry (es ! n)) \<and>
    after r ((step r ^^ n) (seek r it)) (map seen_entry (drop (Suc n) es))"
  using assms(2)
proof (induction n)
  case 0
  then obtain e rest where "es = e # rest" by (cases es) auto
  with seek_next [OF assms(1)] show ?case by simp
next
  case (Suc n)
  then have "map seen_entry (drop (Suc n) es) = seen_entry (es ! Suc n) # map seen_entry (drop (Suc (Suc n)) es)"
    by (simp add: Cons_nth_drop_Suc [symmetric])
  with Suc have "after r ((step r ^^ n) (seek r it))
      (seen_entry (es ! Suc n) # map seen_entry (drop (Suc (Suc n)) es))" by simp
  from step_next [OF this] show ?case by simp
qed

lemma ends:
  assumes "rep r es"
  shows "\<not> valid ((step r ^^ length es) (seek r it))"
proof (cases es)
  case Nil
  with assms seek_end show ?thesis by simp
next
  case (Cons e rest)
  then have "after r ((step r ^^ length rest) (seek r it)) []"
    using shows_nth [OF assms, of "length rest" it] by simp
  with step_end Cons show ?thesis by simp
qed

end

interpretation sst: table_file serves "rd_Get no_rfaults" "SeekToFirst no_rfaults" "si_Next no_rfaults"
  si_valid si_shows serves_at
proof
  fix r es key assume "serves r es"
  then show "rd_Get no_rfaults r key = Inr (sst_result (map_of (entries_table es) key))"
    by (rule rd_Get_serves)
next
  fix r es e rest it assume "serves r es" "map seen_entry es = e # rest"
  then show "si_valid (SeekToFirst no_rfaults r it) \<and> si_shows (SeekToFirst no_rfaults r it) e \<and>
      serves_at r (SeekToFirst no_rfaults r it) rest"
    using si_step_serves [OF serves_at_start] by (fastforce simp: SeekToFirst_def)
next
  fix r it assume "serves r []"
  then show "\<not> si_valid (SeekToFirst no_rfaults r it) \<and> serves_at r (SeekToFirst no_rfaults r it) []"
    using si_step_serves [OF serves_at_start] by (fastforce simp: SeekToFirst_def)
next
  fix r it e rest assume "serves_at r it (e # rest)"
  from si_step_serves [OF this] show "si_valid (si_Next no_rfaults r it) \<and> si_shows (si_Next no_rfaults r it) e \<and>
      serves_at r (si_Next no_rfaults r it) rest" by (simp add: si_Next_def)
next
  fix r it assume "serves_at r it []"
  from si_step_serves [OF this] show "\<not> si_valid (si_Next no_rfaults r it) \<and> serves_at r (si_Next no_rfaults r it) []"
    by (simp add: si_Next_def)
qed

subsection \<open>Damaged blocks\<close>

lemma check_block_damaged:
  assumes "q < length (block_bytes es)" "b \<noteq> block_bytes es ! q"
  shows "check_block ((block_bytes es)[q := b]) = Inl crc_mismatch"
proof (cases "q < length (entries_bytes es)")
  case True
  let ?d = "entries_bytes es"
  have "?d = take q ?d @ ?d ! q # drop (Suc q) ?d" using True by (rule id_take_nth_drop)
  moreover have "?d[q := b] = take q ?d @ b # drop (Suc q) ?d" using True by (rule upd_conv_take_nth_drop)
  moreover have "b \<noteq> ?d ! q" using assms(2) True by (simp add: block_bytes_def nth_append)
  ultimately have "crc32_Checksum ?d \<noteq> crc32_Checksum (?d[q := b])"
    using crc32_detects by metis
  with True show ?thesis
    by (simp add: check_block_def block_bytes_def list_update_append Let_def)
next
  case False
  let ?t = "PutUint32 (crc32_Checksum (entries_bytes es))" and ?q = "q - length (entries_bytes es)"
  have q: "?q < length ?t" "b \<noteq> ?t ! ?q"
    using assms False by (simp_all add: block_bytes_def nth_append)
  have "Uint32 (?t[?q := b]) \<noteq> Uint32 ?t"
  proof
    assume "Uint32 (?t[?q := b]) = Uint32 ?t"
    then have "?t[?q := b] = ?t" by (metis Put_Uint32 length_list_update length_put_le)
    with q show False by (metis nth_list_update_eq)
  qed
  with False show ?thesis
    by (simp add: check_block_def block_bytes_def list_update_append Let_def)
qed

text \<open>Reading a block of a file in which one data byte was overwritten.\<close>

lemma sub_update:
  "sub (xs[p := b]) i n = (if i \<le> p \<and> p < i + n then (sub xs i n)[p - i := b] else sub xs i n)"
  by (auto simp: sub_def drop_update_swap take_update_swap list_update_beyond)

lemma readBlock_damaged:
  fixes f :: Filter and b :: byte
  assumes bls: "tidy_blocks bls" and i: "i < length bls" and p: "p < length (data_bytes bls)"
  defines "ie \<equiv> index_from 0 bls ! i"
    and "r \<equiv> (reader_of bls f)\<lparr>rd_file := (data_bytes bls)[p := b] @ sst_tail bls f\<rparr>"
    and "off \<equiv> length (data_bytes (take i bls))"
  shows "readBlock no_rfaults r (ie_blockOffset ie) (ie_blockLen ie) =
    (if off \<le> p \<and> p < off + length (block_bytes (bls ! i)) \<and> b \<noteq> data_bytes bls ! p
     then Inl crc_mismatch else Inr (entries_bytes (bls ! i)))"
proof -
  let ?blk = "block_bytes (bls ! i)"
  note pos = block_position [OF i, folded off_def]
  have blk: "sub (data_bytes bls) off (length ?blk) = ?blk"
    by (subst pos) (simp add: slice_simps off_def)
  have nth: "data_bytes bls ! p = ?blk ! (p - off)" if "off \<le> p" "p < off + length ?blk"
    using that by (subst pos) (auto simp: nth_append off_def)
  have "readBlock no_rfaults r (ie_blockOffset ie) (ie_blockLen ie) =
      check_block (sub ((data_bytes bls)[p := b]) off (length ?blk))"
    unfolding ie_def r_def off_def by (rule readBlock_at [OF bls i]) simp
  then show ?thesis
    using check_block_damaged [of "p - off" "bls ! i" b] nth check_block_ok [of "bls ! i"]
    by (auto simp: sub_update blk)
qed

lemma damaged_block:
  "p < length (data_bytes bls) \<Longrightarrow> \<exists>i < length bls. length (data_bytes (take i bls)) \<le> p \<and>
     p < length (data_bytes (take i bls)) + length (block_bytes (bls ! i))"
proof (induction bls arbitrary: p)
  case (Cons b bs)
  show ?case
  proof (cases "p < length (block_bytes b)")
    case True
    then show ?thesis by (intro exI [of _ 0]) simp
  next
    case False
    with Cons.prems have "p - length (block_bytes b) < length (data_bytes bs)" by simp
    from Cons.IH [OF this] obtain i where
      "i < length bs" "length (data_bytes (take i bs)) \<le> p - length (block_bytes b)"
      "p - length (block_bytes b) < length (data_bytes (take i bs)) + length (block_bytes (bs ! i))"
      by blast
    with False show ?thesis by (intro exI [of _ "Suc i"]) auto
  qed
qed simp

lemma blocks_upto_first:
  assumes "sorted_table (concat bls :: entry list)" "[] \<notin> set bls" "i < length bls"
  shows "blocks_upto (fst (hd (bls ! i))) bls = Suc i"
  using assms
proof (induction bls arbitrary: i)
  case (Cons b bs)
  have heads: "fst (hd b) < fst (hd c)" if "c \<in> set bs" for c
    using Cons.prems(1,2) hd_in_set [of b] hd_in_concat [OF that] by (auto simp: sorted_wrt_append)
  have sorted: "sorted_table (concat bs)" using Cons.prems(1) by (simp add: sorted_wrt_append)
  show ?case
  proof (cases i)
    case 0
    moreover have "\<forall>c. bs \<noteq> [] \<longrightarrow> \<not> fst (hd (hd bs)) \<le> fst (hd b)" using heads [of "hd bs"] by auto
    ultimately show ?thesis by (cases bs) auto
  next
    case (Suc j)
    with Cons.prems heads [of "bs ! j"] Cons.IH [OF sorted, of j] show ?thesis
      by (simp add: less_imp_le)
  qed
qed simp

lemma damage_found:
  fixes b :: byte
  assumes bls: "tidy_blocks bls" and sorted: "sorted_table (concat bls)"
    and f: "Build (map fst (concat bls)) bitsPerKey = Inr f" and p: "p < length (data_bytes bls)"
    and b: "b \<noteq> data_bytes bls ! p"
  defines "r \<equiv> (reader_of bls f)\<lparr>rd_file := (data_bytes bls)[p := b] @ sst_tail bls f\<rparr>"
  shows "\<exists>e \<in> set (concat bls). rd_Get no_rfaults r (fst e) = Inl crc_mismatch"
proof -
  obtain i where i: "i < length bls" "length (data_bytes (take i bls)) \<le> p"
    "p < length (data_bytes (take i bls)) + length (block_bytes (bls ! i))"
    using damaged_block [OF p] by blast
  have ne: "[] \<notin> set bls" using bls by (simp add: tidy_blocks_def)
  let ?e = "hd (bls ! i)"
  have e: "?e \<in> set (concat bls)" using hd_in_concat [of "bls ! i" bls] i(1) ne by simp
  then have "fst ?e \<in> fst ` set (concat bls)" by blast
  moreover note blocks_upto_first [OF sorted ne i(1)]
  ultimately have "rd_Get no_rfaults r (fst ?e) = Inl crc_mismatch"
    using rd_Get_block [OF bls sorted f, of "(data_bytes bls)[p := b] @ sst_tail bls f" "fst ?e", folded r_def]
      readBlock_damaged [OF bls i(1) p, where f = f and b = b, folded r_def] i b
    by (auto simp: image_iff)
  with e show ?thesis by blast
qed

lemma rd_Get_damaged:
  fixes b :: byte
  assumes bls: "tidy_blocks bls" and sorted: "sorted_table (concat bls)"
    and f: "Build (map fst (concat bls)) bitsPerKey = Inr f" and p: "p < length (data_bytes bls)"
  defines "r \<equiv> (reader_of bls f)\<lparr>rd_file := (data_bytes bls)[p := b] @ sst_tail bls f\<rparr>"
  shows "rd_Get no_rfaults r key = Inr (sst_result (map_of (entries_table (concat bls)) key)) \<or>
    rd_Get no_rfaults r key = Inl crc_mismatch"
  using rd_Get_block [OF bls sorted f, of "(data_bytes bls)[p := b] @ sst_tail bls f" key, folded r_def]
    readBlock_damaged [OF bls _ p, where f = f and b = b, folded r_def]
  by (auto simp: entries_table_absent split: if_splits)

subsection \<open>Properties\<close>

lemma flushed_reader:
  assumes "mt_inv mt" "flushable mt" "WriteFromMemTable ft mt bsz = (None, out)"
  obtains r es where "rd_Open no_rfaults out = Inr r" "serves r es" "map entry_cell es = mt_table mt"
    "rd_NumEntries r = of_nat (length es)"
proof -
  obtain es f where es: "map entry_cell es = mt_table mt" "writable es" "sorted_table es"
    "Build (map fst es) bitsPerKey = Inr f" "out = Some (sst_bytes (cut (block_size bsz) [] es) f)"
    by (rule flush_layout [OF assms])
  obtain r where r: "rd_Open no_rfaults out = Inr r" "serves r es"
    using rd_Open_serves [OF es(2-4)] es(5) by blast
  moreover have "rd_NumEntries r = of_nat (length es)"
    using r(2) by (auto simp: serves_def reader_of_def rd_NumEntries_def)
  ultimately show thesis using es(1) that by blast
qed

text \<open>C8. A MemTable that went through any history of writes with non-empty keys, below 4 GiB, is flushed
  to an SSTable; if the flush reports success, whatever calls may fail, the file opens, counts every key,
  and answers every lookup from the last write of the key: its value, a tombstone, or not found.\<close>

theorem sstable_serves_flushed_memtable:
  assumes "store_writes (mt_Set coin) (mt_Delete coin) ws New = Some mt" "[] \<notin> fst ` set ws"
    and "16 * mt_Len mt + mt_ByteSize mt + 4 < 2 ^ 32"
    and "WriteFromMemTable ft mt bsz = (None, out)"
  shows "\<exists>r. rd_Open no_rfaults out = Inr r \<and> rd_NumEntries r = of_nat (card (fst ` set ws)) \<and>
    (\<forall>key. rd_Get no_rfaults r key = Inr (sst_result (map_writes ws Map.empty key)))"
proof -
  have inv: "mt_inv mt" and tab: "map_of (mt_table mt) = map_writes ws Map.empty"
    using mem.writes_ok [OF mem.inv_empty, of coin ws] assms(1) by (auto simp: mem.tab_empty)
  have keys: "fst ` set (mt_table mt) = fst ` set ws"
    using dom_map_writes [of ws Map.empty] by (simp add: tab [symmetric] dom_map_of_conv_image_fst)
  have "flushable mt" using assms(2,3) keys by (simp add: flushable_def)
  then obtain r es where r: "rd_Open no_rfaults out = Inr r" "serves r es" "map entry_cell es = mt_table mt"
    "rd_NumEntries r = of_nat (length es)"
    by (rule flushed_reader [OF inv _ assms(4)])
  have "length es = length (mt_table mt)" by (simp add: r(3) [symmetric])
  also have "\<dots> = card (fst ` set ws)"
    using distinct_card [OF sorted_table_distinct [OF mem.tab_sorted [OF inv]]] keys by simp
  finally show ?thesis using r sst.rep_get [OF r(2)] tab by auto
qed

definition flush_example :: "(bytes \<times> slice option) list" where
  "flush_example = [([2], Some (Some [7])), ([1], Some (Some [8, 9])), ([2], None)]"

theorem sstable_serves_flushed_memtable_witness:
  "\<exists>mt out. store_writes (mt_Set (\<lambda>_. True)) (mt_Delete (\<lambda>_. True)) flush_example New = Some mt \<and>
     [] \<notin> fst ` set flush_example \<and> 16 * mt_Len mt + mt_ByteSize mt + 4 < 2 ^ 32 \<and>
     WriteFromMemTable no_wfaults mt 16 = (None, out) \<and>
     (\<exists>r. rd_Open no_rfaults out = Inr r \<and> rd_NumEntries r = of_nat (card (fst ` set flush_example)) \<and>
       (\<forall>key. rd_Get no_rfaults r key = Inr (sst_result (map_writes flush_example Map.empty key))))"
proof -
  obtain mt where mt: "store_writes (mt_Set (\<lambda>_. True)) (mt_Delete (\<lambda>_. True)) flush_example New = Some mt"
    "mt_inv mt" "mt_table mt = fold (\<lambda>(k, w). table_upd k (write_cell w)) flush_example []"
    using mem.writes_table [OF mem.inv_empty, of "\<lambda>_. True" flush_example] by (auto simp: mem.tab_empty)
  have k: "[] \<notin> fst ` set flush_example" by (simp add: flush_example_def)
  have "mt_table mt = [([1], Val (Some [8, 9])), ([2], Tomb)]"
    by (simp add: mt(3) flush_example_def)
  then have c: "16 * mt_Len mt + mt_ByteSize mt + 4 < 2 ^ 32" and "flushable mt"
    using mt_sizes [OF mt(2)] by (simp_all add: table_bytes_def cell_bytes_def flushable_def)
  then obtain out where out: "WriteFromMemTable no_wfaults mt 16 = (None, out)"
    using flush_succeeds [OF mt(2)] by blast
  from sstable_serves_flushed_memtable [OF mt(1) k c out] mt(1) k c out show ?thesis by blast
qed

text \<open>C11. A flush in which no call fails succeeds, for every MemTable below 4 GiB that holds no empty key
  and every block size.\<close>

theorem memtable_flush_succeeds:
  assumes "store_writes (mt_Set coin) (mt_Delete coin) ws New = Some mt" "[] \<notin> fst ` set ws"
    and "16 * mt_Len mt + mt_ByteSize mt + 4 < 2 ^ 32"
  shows "\<exists>out. WriteFromMemTable no_wfaults mt bsz = (None, Some out)"
proof -
  have inv: "mt_inv mt" and tab: "map_of (mt_table mt) = map_writes ws Map.empty"
    using mem.writes_ok [OF mem.inv_empty, of coin ws] assms(1) by (auto simp: mem.tab_empty)
  have "fst ` set (mt_table mt) = fst ` set ws"
    using dom_map_writes [of ws Map.empty] by (simp add: tab [symmetric] dom_map_of_conv_image_fst)
  then have fl: "flushable mt" using assms(2,3) by (simp add: flushable_def)
  then obtain out where out: "WriteFromMemTable no_wfaults mt bsz = (None, out)"
    using flush_succeeds [OF inv] by blast
  show ?thesis by (rule flush_layout [OF inv fl out]) (use out in blast)
qed

theorem memtable_flush_succeeds_witness:
  "\<exists>mt. store_writes (mt_Set (\<lambda>_. True)) (mt_Delete (\<lambda>_. True)) [([1], Some (Some [5]))] New = Some mt \<and>
     [] \<notin> fst ` set [([1 :: byte], Some (Some [5 :: byte]))] \<and> 16 * mt_Len mt + mt_ByteSize mt + 4 < 2 ^ 32 \<and>
     (\<exists>out. WriteFromMemTable no_wfaults mt 0 = (None, Some out))"
proof -
  let ?ws = "[([1 :: byte], Some (Some [5 :: byte]))]"
  obtain mt where mt: "store_writes (mt_Set (\<lambda>_. True)) (mt_Delete (\<lambda>_. True)) ?ws New = Some mt"
    "mt_inv mt" "mt_table mt = fold (\<lambda>(k, w). table_upd k (write_cell w)) ?ws []"
    using mem.writes_table [OF mem.inv_empty, of "\<lambda>_. True" ?ws] by (auto simp: mem.tab_empty)
  have k: "[] \<notin> fst ` set ?ws" by simp
  have c: "16 * mt_Len mt + mt_ByteSize mt + 4 < 2 ^ 32"
    using mt_sizes [OF mt(2)] mt(3) by (simp add: table_bytes_def cell_bytes_def)
  from memtable_flush_succeeds [OF mt(1) k c, of 0] mt(1) k c show ?thesis by blast
qed

text \<open>C10. The iterator over a written table: after \<^verbatim>\<open>SeekToFirst\<close> and \<open>n\<close> calls of \<^verbatim>\<open>Next\<close> it is valid and
  shows the \<open>n\<close>-th entry that was added, a value of length zero as \<^verbatim>\<open>nil\<close>, and after as many calls as
  there are entries it is no longer valid.\<close>

theorem sstable_iterates_entries:
  assumes "NewWriter ft bsz = Inr w" "write_out ft es w = (None, out)" "writable es" "sorted_table es"
    and "rd_Open no_rfaults out = Inr r"
  shows "(\<forall>n < length es. let it = (si_Next no_rfaults r ^^ n) (SeekToFirst no_rfaults r rd_NewIterator) in
      si_valid it \<and> si_shows it (seen_entry (es ! n))) \<and>
    \<not> si_valid ((si_Next no_rfaults r ^^ length es) (SeekToFirst no_rfaults r rd_NewIterator))"
proof -
  obtain f where f: "Build (map fst es) bitsPerKey = Inr f" "out = Some (sst_bytes (cut (block_size bsz) [] es) f)"
    by (rule written_layout [OF assms(1-3)])
  then have r: "serves r es" using rd_Open_serves [OF assms(3,4) f(1), of "block_size bsz"] assms(5) by auto
  show ?thesis using sst.shows_nth [OF r] sst.ends [OF r] by (simp add: Let_def)
qed

definition entries_example :: "entry list" where
  "entries_example = [([1], Some [8, 9], False), ([2], None, True), ([3], Some [], False)]"

lemma entries_example_ok: "writable entries_example" "sorted_table entries_example"
  by (simp_all add: entries_example_def writable_def entry_weight_def)

theorem sstable_iterates_entries_witness:
  "\<exists>w out r. NewWriter no_wfaults 10 = Inr w \<and> write_out no_wfaults entries_example w = (None, out) \<and>
     writable entries_example \<and> sorted_table entries_example \<and> rd_Open no_rfaults out = Inr r \<and>
     (\<forall>n < length entries_example. (let it = (si_Next no_rfaults r ^^ n) (SeekToFirst no_rfaults r rd_NewIterator) in
        si_valid it \<and> si_shows it (seen_entry (entries_example ! n)))) \<and>
     \<not> si_valid ((si_Next no_rfaults r ^^ length entries_example) (SeekToFirst no_rfaults r rd_NewIterator))"
proof -
  note ex = entries_example_ok
  obtain w f where w: "NewWriter no_wfaults 10 = Inr w" "Build (map fst entries_example) bitsPerKey = Inr f"
    "write_out no_wfaults entries_example w = (None, Some (sst_bytes (cut (block_size 10) [] entries_example) f))"
    using write_out_layout [OF ex(1), of 10] by blast
  obtain r where r: "rd_Open no_rfaults (Some (sst_bytes (cut (block_size 10) [] entries_example) f)) = Inr r"
    using rd_Open_serves [OF ex w(2)] by blast
  from sstable_iterates_entries [OF w(1,3) ex r] w(1,3) ex r show ?thesis by blast
qed

text \<open>C9. A damaged data byte is never returned as data: if any one byte of the data blocks of a written
  file is overwritten, the file still opens, and every lookup either answers as before or reports
  a checksum mismatch; and if the byte really changed, the lookup of some stored key reports it.\<close>

theorem sstable_damage_never_misread:
  assumes "NewWriter ft bsz = Inr w" "write_out ft es w = (None, Some file_bytes)" "writable es" "sorted_table es"
    and "p < length (data_bytes (cut (block_size bsz) [] es))"
  shows "\<exists>r. rd_Open no_rfaults (Some (file_bytes[p := b])) = Inr r \<and>
    (\<forall>key. rd_Get no_rfaults r key = Inr (sst_result (map_of (entries_table es) key)) \<or>
           rd_Get no_rfaults r key = Inl (Err ''sstable reader: block CRC mismatch'')) \<and>
    (b \<noteq> file_bytes ! p \<longrightarrow>
       (\<exists>e \<in> set es. rd_Get no_rfaults r (fst e) = Inl (Err ''sstable reader: block CRC mismatch'')))"
proof -
  let ?bls = "cut (block_size bsz) [] es"
  obtain f where f: "Build (map fst es) bitsPerKey = Inr f" "file_bytes = sst_bytes ?bls f"
    using written_layout [OF assms(1-3)] by auto
  have es: "concat ?bls = es" by (simp add: concat_cut)
  let ?img = "(data_bytes ?bls)[p := b] @ sst_tail ?bls f"
  have img: "file_bytes[p := b] = ?img" using assms(5) by (simp add: f(2) sst_bytes_def list_update_append)
  have "rd_Open no_rfaults (Some ?img) = Inr ((reader_of ?bls f)\<lparr>rd_file := ?img\<rparr>)"
    using rd_Open_tail [OF tidy_cut [OF assms(3)], of "block_size bsz" f "(data_bytes ?bls)[p := b]"] f(1) es
    by simp
  moreover note rd_Get_damaged [OF tidy_cut [OF assms(3)], of "block_size bsz" f p b]
    damage_found [OF tidy_cut [OF assms(3)], of "block_size bsz" f p b]
  moreover have "file_bytes ! p = data_bytes ?bls ! p" using assms(5) by (simp add: f(2) sst_bytes_def nth_append)
  ultimately show ?thesis using assms(4,5) f(1) es by (simp add: img crc_mismatch_def)
qed

theorem sstable_damage_never_misread_witness:
  "\<exists>w file_bytes. NewWriter no_wfaults 10 = Inr w \<and> write_out no_wfaults entries_example w = (None, Some file_bytes) \<and>
     writable entries_example \<and> sorted_table entries_example \<and>
     3 < length (data_bytes (cut (block_size 10) [] entries_example)) \<and>
     (\<exists>r. rd_Open no_rfaults (Some (file_bytes[3 := 0xFF])) = Inr r \<and>
       (\<forall>key. rd_Get no_rfaults r key = Inr (sst_result (map_of (entries_table entries_example) key)) \<or>
              rd_Get no_rfaults r key = Inl (Err ''sstable reader: block CRC mismatch'')) \<and>
       (0xFF \<noteq> file_bytes ! 3 \<longrightarrow> (\<exists>e \<in> set entries_example.
          rd_Get no_rfaults r (fst e) = Inl (Err ''sstable reader: block CRC mismatch''))))"
proof -
  note ex = entries_example_ok
  obtain w f where w: "NewWriter no_wfaults 10 = Inr w" "Build (map fst entries_example) bitsPerKey = Inr f"
    "write_out no_wfaults entries_example w = (None, Some (sst_bytes (cut (block_size 10) [] entries_example) f))"
    using write_out_layout [OF ex(1), of 10] by blast
  have p: "3 < length (data_bytes (cut (block_size 10) [] entries_example))"
    by (simp add: entries_example_def block_size_def enc_entry_def encode_entry_def block_bytes_def Let_def)
  from sstable_damage_never_misread [OF w(1,3) ex p, of "0xFF"] w(1,3) ex p show ?thesis by blast
qed

end
