(* ===== verification/Heap_Queue.thy ===== *)
theory Heap_Queue
  imports Vault_Prelude "HOL-Library.Multiset"
begin

text \<open>
  The binary heap of \<^verbatim>\<open>container/heap\<close>, which the merge of the compaction engine runs on, over a slice
  with the caller's \<^verbatim>\<open>Less\<close>: \<^verbatim>\<open>Init\<close>, \<^verbatim>\<open>Push\<close> and \<^verbatim>\<open>Pop\<close> with their loops \<^verbatim>\<open>up\<close> and \<^verbatim>\<open>down\<close>.  The
  locale \<open>heap_order\<close> states what \<^verbatim>\<open>Less\<close> must be for them to keep a heap; the result is that they
  implement a priority queue over the multiset of the elements.
\<close>

subsection \<open>Operations\<close>

definition swap :: "nat \<Rightarrow> nat \<Rightarrow> 'a list \<Rightarrow> 'a list" where
  "swap i j xs = xs[i := xs ! j, j := xs ! i]"

fun heap_up :: "('a \<Rightarrow> 'a \<Rightarrow> bool) \<Rightarrow> nat \<Rightarrow> 'a list \<Rightarrow> 'a list" where
  "heap_up lt j xs =
     (let i = (j - 1) div 2 in
      if i = j \<or> \<not> lt (xs ! j) (xs ! i) then xs
      else heap_up lt i (swap i j xs))"

declare heap_up.simps [simp del]

function heap_down :: "('a \<Rightarrow> 'a \<Rightarrow> bool) \<Rightarrow> nat \<Rightarrow> nat \<Rightarrow> 'a list \<Rightarrow> 'a list" where
  "heap_down lt i n xs =
     (let j1 = 2 * i + 1 in
      if j1 \<ge> n then xs
      else
        let j2 = j1 + 1; j = (if j2 < n \<and> lt (xs ! j2) (xs ! j1) then j2 else j1) in
        if \<not> lt (xs ! j) (xs ! i) then xs
        else heap_down lt j n (swap i j xs))"
  by pat_completeness auto
termination by (relation "measure (\<lambda>(_, i, n, _). n - i)") (auto simp: Let_def split: if_splits)

declare heap_down.simps [simp del]

fun init_loop :: "('a \<Rightarrow> 'a \<Rightarrow> bool) \<Rightarrow> nat \<Rightarrow> 'a list \<Rightarrow> 'a list" where
  "init_loop lt 0 xs = xs"
| "init_loop lt (Suc i) xs = init_loop lt i (heap_down lt i (length xs) xs)"

definition heap_Init :: "('a \<Rightarrow> 'a \<Rightarrow> bool) \<Rightarrow> 'a list \<Rightarrow> 'a list" where
  "heap_Init lt xs = init_loop lt (length xs div 2) xs"

definition heap_Push :: "('a \<Rightarrow> 'a \<Rightarrow> bool) \<Rightarrow> 'a \<Rightarrow> 'a list \<Rightarrow> 'a list" where
  "heap_Push lt x xs = (let xs = xs @ [x] in heap_up lt (length xs - 1) xs)"

text \<open>\<^verbatim>\<open>Pop\<close> of a heap that is not empty.\<close>

definition heap_Pop :: "('a \<Rightarrow> 'a \<Rightarrow> bool) \<Rightarrow> 'a list \<Rightarrow> 'a \<times> 'a list" where
  "heap_Pop lt xs =
     (let n = length xs - 1; xs = heap_down lt 0 n (swap 0 n xs) in (last xs, butlast xs))"

subsection \<open>Swapping\<close>

lemma length_swap [simp]: "length (swap i j xs) = length xs"
  by (simp add: swap_def)

lemma swap_nth:
  "i < length xs \<Longrightarrow> j < length xs \<Longrightarrow> k < length xs \<Longrightarrow>
   swap i j xs ! k = (if k = i then xs ! j else if k = j then xs ! i else xs ! k)"
  by (auto simp: swap_def nth_list_update)

lemma swap_other: "k \<noteq> i \<Longrightarrow> k \<noteq> j \<Longrightarrow> swap i j xs ! k = xs ! k"
  by (simp add: swap_def)

lemma mset_swap_nth: "i < length xs \<Longrightarrow> j < length xs \<Longrightarrow> mset (swap i j xs) = mset xs"
  by (simp add: swap_def mset_swap)

subsection \<open>The heap invariant\<close>

abbreviation parent :: "nat \<Rightarrow> nat" where "parent j \<equiv> (j - 1) div 2"

lemma parent_iff: "0 < j \<Longrightarrow> parent j = i \<longleftrightarrow> j = 2 * i + 1 \<or> j = 2 * i + 2"
  by linarith

text \<open>The prefix of length \<open>n\<close> is a heap from position \<open>k\<close> on; or it is one but for the children of the
  hole \<open>i\<close>, which are in order with the parent of the hole; or but for the hole itself.\<close>

definition heap_from :: "('a \<Rightarrow> 'a \<Rightarrow> bool) \<Rightarrow> nat \<Rightarrow> nat \<Rightarrow> 'a list \<Rightarrow> bool" where
  "heap_from lt k n xs \<longleftrightarrow> (\<forall>j < n. 0 < j \<and> k \<le> parent j \<longrightarrow> \<not> lt (xs ! j) (xs ! parent j))"

definition hole_below :: "('a \<Rightarrow> 'a \<Rightarrow> bool) \<Rightarrow> nat \<Rightarrow> nat \<Rightarrow> nat \<Rightarrow> 'a list \<Rightarrow> bool" where
  "hole_below lt k i n xs \<longleftrightarrow>
     (\<forall>j < n. 0 < j \<and> k \<le> parent j \<and> parent j \<noteq> i \<longrightarrow> \<not> lt (xs ! j) (xs ! parent j)) \<and>
     (\<forall>j < n. 0 < j \<and> parent j = i \<and> 0 < i \<and> k \<le> parent i \<longrightarrow> \<not> lt (xs ! j) (xs ! parent i))"

definition hole_above :: "('a \<Rightarrow> 'a \<Rightarrow> bool) \<Rightarrow> nat \<Rightarrow> 'a list \<Rightarrow> bool" where
  "hole_above lt i xs \<longleftrightarrow>
     (\<forall>j < length xs. 0 < j \<and> j \<noteq> i \<longrightarrow> \<not> lt (xs ! j) (xs ! parent j)) \<and>
     (\<forall>j < length xs. 0 < j \<and> parent j = i \<and> 0 < i \<longrightarrow> \<not> lt (xs ! j) (xs ! parent i))"

abbreviation heap :: "('a \<Rightarrow> 'a \<Rightarrow> bool) \<Rightarrow> 'a list \<Rightarrow> bool" where
  "heap lt xs \<equiv> heap_from lt 0 (length xs) xs"

locale heap_order =
  fixes lt :: "'a \<Rightarrow> 'a \<Rightarrow> bool"
  assumes asym: "lt x y \<Longrightarrow> \<not> lt y x"
    and negtrans: "\<not> lt x y \<Longrightarrow> \<not> lt y z \<Longrightarrow> \<not> lt x z"
begin

lemma down_swap:
  assumes hole: "hole_below lt k i n xs" and n: "n \<le> length xs" and k: "k \<le> i"
    and j: "j < n" "j = 2 * i + 1 \<or> j = 2 * i + 2" and lt: "lt (xs ! j) (xs ! i)"
    and min: "\<And>m. m < n \<Longrightarrow> m = 2 * i + 1 \<or> m = 2 * i + 2 \<Longrightarrow> \<not> lt (xs ! m) (xs ! j)"
  shows "hole_below lt k j n (swap i j xs)"
proof -
  have ij: "i < j" "i < length xs" "j < length xs" "parent j = i" using j n by auto
  have "\<not> lt (swap i j xs ! m) (swap i j xs ! parent m)"
    if m: "m < n" "0 < m" "k \<le> parent m" "parent m \<noteq> j" for m
  proof (cases "parent m = i")
    case True
    then have "m = 2 * i + 1 \<or> m = 2 * i + 2" using parent_iff [OF m(2), of i] by blast
    then have "m \<noteq> i" "\<not> lt (xs ! m) (xs ! j)" using min m(1) by auto
    with ij n m True asym [OF lt] show ?thesis by (auto simp: swap_nth)
  next
    case False
    then have "m \<noteq> j" using ij(4) by auto
    show ?thesis
    proof (cases "m = i")
      case True
      have "\<not> lt (xs ! j) (xs ! parent i)" "parent i \<noteq> i"
        using hole j ij m True by (auto simp: hole_below_def)
      with True False m ij n show ?thesis by (auto simp: swap_nth swap_other)
    next
      case other: False
      with hole m False have "\<not> lt (xs ! m) (xs ! parent m)" by (simp add: hole_below_def)
      with other \<open>m \<noteq> j\<close> False m(4) show ?thesis by (simp add: swap_other)
    qed
  qed
  moreover have "\<not> lt (swap i j xs ! m) (swap i j xs ! i)" if "m < n" "0 < m" "parent m = j" for m
  proof -
    have "m \<noteq> i" "m \<noteq> j" using that ij by auto
    moreover have "\<not> lt (xs ! m) (xs ! j)"
      using hole that ij k by (auto simp: hole_below_def)
    ultimately show ?thesis using ij that n by (simp add: swap_nth)
  qed
  ultimately show ?thesis unfolding hole_below_def using ij by auto
qed

lemma smaller_child:
  fixes xs :: "'a list"
  assumes "2 * i + 1 < n"
  defines "j \<equiv> if 2 * i + 2 < n \<and> lt (xs ! (2 * i + 2)) (xs ! (2 * i + 1)) then 2 * i + 2 else 2 * i + 1"
  shows "j < n" "j = 2 * i + 1 \<or> j = 2 * i + 2"
    "m < n \<Longrightarrow> m = 2 * i + 1 \<or> m = 2 * i + 2 \<Longrightarrow> \<not> lt (xs ! m) (xs ! j)"
proof -
  show "j < n" "j = 2 * i + 1 \<or> j = 2 * i + 2" using assms(1) by (auto simp: j_def)
  have "\<not> lt x x" for x using asym by blast
  then show "m < n \<Longrightarrow> m = 2 * i + 1 \<or> m = 2 * i + 2 \<Longrightarrow> \<not> lt (xs ! m) (xs ! j)"
    using asym by (auto simp: j_def)
qed

lemma down_done:
  assumes "hole_below lt k i n xs" "\<And>m. m < n \<Longrightarrow> m = 2 * i + 1 \<or> m = 2 * i + 2 \<Longrightarrow> \<not> lt (xs ! m) (xs ! i)"
  shows "heap_from lt k n xs"
  unfolding heap_from_def
proof (intro allI impI)
  fix m assume m: "m < n" "0 < m \<and> k \<le> parent m"
  show "\<not> lt (xs ! m) (xs ! parent m)"
  proof (cases "parent m = i")
    case True
    with parent_iff [of m i] m have "m = 2 * i + 1 \<or> m = 2 * i + 2" by simp
    with assms(2) [OF m(1)] True show ?thesis by simp
  next
    case False
    with assms(1) m show ?thesis by (simp add: hole_below_def)
  qed
qed

lemma heap_down_ok:
  "hole_below lt k i n xs \<Longrightarrow> n \<le> length xs \<Longrightarrow> k \<le> i \<Longrightarrow>
   heap_from lt k n (heap_down lt i n xs) \<and> mset (heap_down lt i n xs) = mset xs \<and>
   drop n (heap_down lt i n xs) = drop n xs"
proof (induction "n - i" arbitrary: i xs rule: less_induct)
  case less
  show ?case
  proof (cases "2 * i + 1 < n")
    case False
    then have "heap_down lt i n xs = xs" by (subst heap_down.simps) simp
    with down_done [OF less.prems(1)] False show ?thesis by auto
  next
    case True
    define j where "j = (if 2 * i + 2 < n \<and> lt (xs ! (2 * i + 2)) (xs ! (2 * i + 1)) then 2 * i + 2 else 2 * i + 1)"
    note j = smaller_child [OF True, where xs = xs, folded j_def]
    have eq: "heap_down lt i n xs =
        (if lt (xs ! j) (xs ! i) then heap_down lt j n (swap i j xs) else xs)"
      using True by (subst heap_down.simps) (simp add: Let_def j_def numeral_2_eq_2)
    show ?thesis
    proof (cases "lt (xs ! j) (xs ! i)")
      case False
      then have "heap_from lt k n xs"
        using down_done [OF less.prems(1)] j(3) negtrans by blast
      with eq False show ?thesis by simp
    next
      case lt: True
      have hole: "hole_below lt k j n (swap i j xs)"
        by (rule down_swap [OF less.prems j(1,2) lt j(3)])
      have ij: "n - j < n - i" "n \<le> length (swap i j xs)" "k \<le> j" "i < length xs" "j < length xs"
        using j(1,2) less.prems(2,3) by auto
      have "drop n (swap i j xs) = drop n xs"
        using ij j(1,2) by (auto simp: swap_def drop_update_cancel)
      with less.hyps [OF ij(1) hole ij(2,3)] eq lt mset_swap_nth [OF ij(4,5)] show ?thesis by simp
    qed
  qed
qed

lemma length_heap_down: "hole_below lt k i n xs \<Longrightarrow> n \<le> length xs \<Longrightarrow> k \<le> i \<Longrightarrow>
    length (heap_down lt i n xs) = length xs"
  using heap_down_ok mset_eq_length by blast

lemma heap_up_ok:
  "hole_above lt j xs \<Longrightarrow> j < length xs \<Longrightarrow>
   heap lt (heap_up lt j xs) \<and> mset (heap_up lt j xs) = mset xs"
proof (induction j arbitrary: xs rule: less_induct)
  case (less j)
  define i where "i = parent j"
  have eq: "heap_up lt j xs = (if i = j \<or> \<not> lt (xs ! j) (xs ! i) then xs else heap_up lt i (swap i j xs))"
    by (subst heap_up.simps) (simp add: Let_def i_def)
  show ?case
  proof (cases "j = 0 \<or> \<not> lt (xs ! j) (xs ! i)")
    case True
    then have "heap lt xs"
      using less.prems(1) by (auto simp: heap_from_def hole_above_def i_def)
    moreover have "heap_up lt j xs = xs" using eq True by (auto simp: i_def)
    ultimately show ?thesis by (metis mset_eq_length)
  next
    case False
    then have i: "i < j" "i < length xs" "0 < j" "lt (xs ! j) (xs ! i)"
      using less.prems(2) by (auto simp: i_def)
    have hole: "hole_above lt i (swap i j xs)"
    proof -
      have "\<not> lt (swap i j xs ! m) (swap i j xs ! parent m)" if m: "m < length xs" "0 < m" "m \<noteq> i" for m
      proof (cases "m = j")
        case True
        with i less.prems(2) asym show ?thesis by (auto simp: swap_nth i_def)
      next
        case mj: False
        with less.prems(1) m have old: "\<not> lt (xs ! m) (xs ! parent m)" by (simp add: hole_above_def)
        consider "parent m = j" | "parent m = i" | "parent m \<noteq> i" "parent m \<noteq> j" by blast
        then show ?thesis
        proof cases
          case 1
          with less.prems(1) m i mj have "\<not> lt (xs ! m) (xs ! i)" by (auto simp: hole_above_def i_def)
          with 1 m mj i less.prems(2) show ?thesis by (simp add: swap_nth)
        next
          case 2
          with old asym negtrans i(4) have "\<not> lt (xs ! m) (xs ! j)" by metis
          with 2 m mj i less.prems(2) show ?thesis by (simp add: swap_nth)
        next
          case 3
          with old m mj show ?thesis by (simp add: swap_other)
        qed
      qed
      moreover have "\<not> lt (swap i j xs ! m) (swap i j xs ! parent i)"
        if m: "m < length xs" "0 < m" "parent m = i" "0 < i" for m
      proof -
        have up: "\<not> lt (xs ! i) (xs ! parent i)"
          using less.prems(1) m(4) i by (simp add: hole_above_def)
        have "parent i < i" using m(4) by linarith
        moreover have "\<not> lt (xs ! m) (xs ! parent i)" if "m \<noteq> j"
        proof -
          have "\<not> lt (xs ! m) (xs ! i)" using less.prems(1) m that by (auto simp: hole_above_def)
          with up negtrans show ?thesis by blast
        qed
        moreover have "m \<noteq> i" using m by linarith
        ultimately show ?thesis using up i m less.prems(2) by (auto simp: swap_nth)
      qed
      ultimately show ?thesis by (simp add: hole_above_def)
    qed
    have "heap_up lt j xs = heap_up lt i (swap i j xs)" using eq i by auto
    with less.IH [OF i(1) hole] i less.prems(2) mset_swap_nth [OF i(2) less.prems(2)] show ?thesis by simp
  qed
qed

lemma heap_root:
  "heap lt xs \<Longrightarrow> i < length xs \<Longrightarrow> \<not> lt (xs ! i) (xs ! 0)"
proof (induction i rule: less_induct)
  case (less i)
  show ?case
  proof (cases "i = 0")
    case True
    then show ?thesis using asym by blast
  next
    case False
    then have "\<not> lt (xs ! i) (xs ! parent i)" using less.prems by (simp add: heap_from_def)
    moreover have "\<not> lt (xs ! parent i) (xs ! 0)" by (rule less.IH) (use False less.prems in linarith)+
    ultimately show ?thesis by (rule negtrans)
  qed
qed

lemma init_loop_ok:
  "heap_from lt i (length xs) xs \<Longrightarrow> i \<le> length xs \<Longrightarrow>
   heap lt (init_loop lt i xs) \<and> mset (init_loop lt i xs) = mset xs"
proof (induction i arbitrary: xs)
  case 0
  then show ?case by simp
next
  case (Suc i)
  have "hole_below lt i i (length xs) xs"
    using Suc.prems(1) by (auto simp: heap_from_def hole_below_def)
  note d = heap_down_ok [OF this order_refl order_refl] length_heap_down [OF this order_refl order_refl]
  with Suc.IH [of "heap_down lt i (length xs) xs"] Suc.prems(2) show ?case by simp
qed

lemma heap_Init_ok: "heap lt (heap_Init lt xs)" "mset (heap_Init lt xs) = mset xs"
proof -
  have "heap_from lt (length xs div 2) (length xs) xs" by (auto simp: heap_from_def)
  from init_loop_ok [OF this] show "heap lt (heap_Init lt xs)" "mset (heap_Init lt xs) = mset xs"
    by (simp_all add: heap_Init_def)
qed

lemma heap_Push_ok:
  assumes "heap lt xs"
  shows "heap lt (heap_Push lt x xs)" "mset (heap_Push lt x xs) = add_mset x (mset xs)"
proof -
  have "parent j \<noteq> length xs" if "j < Suc (length xs)" "0 < j" for j using that by linarith
  then have "hole_above lt (length xs) (xs @ [x])"
    using assms by (auto simp: hole_above_def heap_from_def nth_append)
  from heap_up_ok [OF this] show "heap lt (heap_Push lt x xs)" "mset (heap_Push lt x xs) = add_mset x (mset xs)"
    by (simp_all add: heap_Push_def Let_def)
qed

lemma heap_Pop_ok:
  assumes "heap lt xs" "heap_Pop lt xs = (x, ys)" "xs \<noteq> []"
  shows "heap lt ys" "mset xs = add_mset x (mset ys)" "\<And>y. y \<in> set xs \<Longrightarrow> \<not> lt y x"
proof -
  define n where "n = length xs - 1"
  let ?zs = "heap_down lt 0 n (swap 0 n xs)"
  have n: "n < length xs" "length xs = Suc n" using assms(3) by (simp_all add: n_def)
  have "hole_below lt 0 0 n (swap 0 n xs)"
    using assms(1) n by (auto simp: hole_below_def heap_from_def swap_other)
  from heap_down_ok [OF this] n have zs: "heap_from lt 0 n ?zs" "mset ?zs = mset (swap 0 n xs)"
    "drop n ?zs = drop n (swap 0 n xs)" by simp_all
  have len: "length ?zs = Suc n" using zs(2) n(2) by (metis length_swap mset_eq_length)
  have "drop n (swap 0 n xs) = [xs ! 0]"
    using n by (simp add: swap_def Cons_nth_drop_Suc [symmetric])
  with zs(3) have split: "?zs = take n ?zs @ [xs ! 0]" by (metis append_take_drop_id)
  have xy: "x = last ?zs" "ys = butlast ?zs"
    using assms(2) by (simp_all add: heap_Pop_def Let_def n_def)
  have x: "x = xs ! 0" unfolding xy(1) by (subst split) simp
  have ys: "ys = take n ?zs" unfolding xy(2) by (subst split) simp
  show "heap lt ys" using zs(1) len by (auto simp: ys heap_from_def)
  have "mset ?zs = add_mset x (mset ys)" by (subst split) (simp add: x ys)
  then show "mset xs = add_mset x (mset ys)"
    using zs(2) mset_swap_nth [of 0 xs n] n by simp
  show "\<not> lt y x" if "y \<in> set xs" for y
    using that heap_root [OF assms(1)] by (auto simp: x in_set_conv_nth)
qed

end

subsection \<open>The interface of a priority queue\<close>

text \<open>What the merge relies on: the queue holds a multiset, and popping takes out an element that no
  other is less than.\<close>

locale priority_queue =
  fixes lt :: "'a \<Rightarrow> 'a \<Rightarrow> bool"
    and push :: "'a \<Rightarrow> 'q \<Rightarrow> 'q"
    and pop :: "'q \<Rightarrow> 'a \<times> 'q"
    and inv :: "'q \<Rightarrow> bool"
    and content :: "'q \<Rightarrow> 'a multiset"
  assumes push_ok: "inv q \<Longrightarrow> inv (push x q) \<and> content (push x q) = add_mset x (content q)"
    and pop_ok: "inv q \<Longrightarrow> content q \<noteq> {#} \<Longrightarrow> pop q = (x, q') \<Longrightarrow>
          inv q' \<and> content q = add_mset x (content q') \<and> (\<forall>y \<in># content q. \<not> lt y x)"
begin

lemma push_all: "inv q \<Longrightarrow> inv (fold push xs q) \<and> content (fold push xs q) = content q + mset xs"
  by (induction xs arbitrary: q) (auto simp: push_ok)

lemma pop_member: "inv q \<Longrightarrow> content q \<noteq> {#} \<Longrightarrow> pop q = (x, q') \<Longrightarrow> x \<in># content q"
  using pop_ok by fastforce

end

sublocale heap_order \<subseteq> pq: priority_queue lt "heap_Push lt" "heap_Pop lt" "heap lt" mset
  by unfold_locales (auto simp: heap_Push_ok dest: heap_Pop_ok)

end
