(* ===== verification/File_Name.thy ===== *)
theory File_Name
  imports Vault_Prelude "HOL-Library.Char_ord"
begin

text \<open>
  The names of the SSTable files: \<^verbatim>\<open>fmt.Sprintf("%016x.sst", id)\<close> and its inverse \<^verbatim>\<open>fmt.Sscanf\<close>, which
  the writer, the compaction engine and the database use.  The database orders its files by sorting
  their paths as strings; the lemmas show that this is the order of the identifiers.
\<close>

subsection \<open>Formatting and parsing\<close>

fun hex_digits :: "nat \<Rightarrow> int \<Rightarrow> int list" where
  "hex_digits 0 x = []"
| "hex_digits (Suc n) x = hex_digits n (x div 16) @ [x mod 16]"

definition hex_char :: "int \<Rightarrow> char" where
  "hex_char d = ''0123456789abcdef'' ! nat d"

definition hex16 :: "u64 \<Rightarrow> string" where
  "hex16 w = map hex_char (hex_digits 16 (uint w))"

definition sst_name :: "u64 \<Rightarrow> string" where
  "sst_name w = hex16 w @ ''.sst''"

definition sst_path :: "string \<Rightarrow> u64 \<Rightarrow> string" where
  "sst_path dir w = dir @ ''/'' @ sst_name w"

text \<open>The value of a hexadecimal digit, either case, and the scan of at most 16 of them followed by
  the suffix; a name without a digit leaves the identifier at 0.\<close>

definition hex_value :: "char \<Rightarrow> int option" where
  "hex_value c =
     (let n = of_char c :: int in
      if 48 \<le> n \<and> n \<le> 57 then Some (n - 48)
      else if 97 \<le> n \<and> n \<le> 102 then Some (n - 87)
      else if 65 \<le> n \<and> n \<le> 70 then Some (n - 55)
      else None)"

fun scan_hex :: "nat \<Rightarrow> int \<Rightarrow> string \<Rightarrow> int" where
  "scan_hex 0 acc s = acc"
| "scan_hex (Suc n) acc [] = acc"
| "scan_hex (Suc n) acc (c # s) =
     (case hex_value c of None \<Rightarrow> acc | Some d \<Rightarrow> scan_hex n (16 * acc + d) s)"

definition sst_id :: "string \<Rightarrow> u64" where
  "sst_id name = of_int (scan_hex 16 0 name)"

subsection \<open>Digits\<close>

lemma length_hex_digits [simp]: "length (hex_digits n x) = n"
  by (induction n arbitrary: x) simp_all

lemma hex_digits_range: "d \<in> set (hex_digits n x) \<Longrightarrow> 0 \<le> d \<and> d < 16"
  by (induction n arbitrary: x) auto

lemma hex_value_char: "0 \<le> d \<Longrightarrow> d < 16 \<Longrightarrow> hex_value (hex_char d) = Some d"
proof -
  assume "0 \<le> d" "d < 16"
  then have "d \<in> {0, 1, 2, 3, 4, 5, 6, 7, 8, 9, 10, 11, 12, 13, 14, 15}"
    unfolding insert_iff empty_iff by presburger
  then show ?thesis by (auto simp: hex_value_def hex_char_def Let_def)
qed

lemma hex_char_mono: "0 \<le> d \<Longrightarrow> d < e \<Longrightarrow> e < 16 \<Longrightarrow> hex_char d < hex_char e"
proof -
  assume "0 \<le> d" "d < e" "e < 16"
  then have "d \<in> {0, 1, 2, 3, 4, 5, 6, 7, 8, 9, 10, 11, 12, 13, 14}" "e \<in> {1, 2, 3, 4, 5, 6, 7, 8, 9, 10, 11, 12, 13, 14, 15}"
    unfolding insert_iff empty_iff by presburger+
  with \<open>d < e\<close> show ?thesis by (auto simp: hex_char_def less_char_def)
qed

lemma scan_hex_digits:
  "list_all (\<lambda>d. 0 \<le> d \<and> d < 16) ds \<Longrightarrow>
   scan_hex (length ds) acc (map hex_char ds @ s) = foldl (\<lambda>a d. 16 * a + d) acc ds"
  by (induction ds arbitrary: acc) (auto simp: hex_value_char)

lemma foldl_hex_digits:
  "0 \<le> x \<Longrightarrow> x < 16 ^ n \<Longrightarrow> foldl (\<lambda>a d. 16 * a + d) 0 (hex_digits n x) = x"
proof (induction n arbitrary: x)
  case (Suc n)
  have "x div 16 < 16 ^ n" using Suc.prems by (simp add: div_less_iff_less_mult)
  then show ?case using Suc.IH [of "x div 16"] Suc.prems by (simp add: pos_imp_zdiv_nonneg_iff)
qed simp

lemma uint_16: "0 \<le> uint (w :: u64)" "uint w < 16 ^ 16"
  using uint_lt2p [of w] by simp_all

text \<open>The identifier is read back from the name it was given.\<close>

lemma sst_id_name [simp]: "sst_id (sst_name w) = w"
proof -
  have "list_all (\<lambda>d. 0 \<le> d \<and> d < 16) (hex_digits 16 (uint w))"
    using hex_digits_range by (auto simp: list_all_iff)
  from scan_hex_digits [OF this, of 0 "''.sst''"] foldl_hex_digits [OF uint_16, of w]
  show ?thesis by (simp add: sst_id_def sst_name_def hex16_def)
qed

lemma sst_name_inj: "sst_name a = sst_name b \<longleftrightarrow> a = b"
  by (metis sst_id_name)

lemma sst_path_inj [simp]: "sst_path dir a = sst_path dir b \<longleftrightarrow> a = b"
  by (simp add: sst_path_def sst_name_inj)

text \<open>The order of the names.\<close>

lemma append_less_same: "length a = length b \<Longrightarrow> a < b \<Longrightarrow> a @ c < b @ (d :: 'a::linorder list)"
  by (induction a b rule: list_induct2) auto

lemma append_less_prefix: "p @ a < p @ b \<longleftrightarrow> a < (b :: 'a::linorder list)"
  by (induction p) auto

lemma hex_digits_mono:
  "0 \<le> x \<Longrightarrow> x < y \<Longrightarrow> y < 16 ^ n \<Longrightarrow> map hex_char (hex_digits n x) < map hex_char (hex_digits n y)"
proof (induction n arbitrary: x y)
  case (Suc n)
  have y: "y div 16 < 16 ^ n" "0 \<le> x div 16" using Suc.prems by (simp_all add: div_less_iff_less_mult)
  show ?case
  proof (cases "x div 16 < y div 16")
    case True
    with Suc.IH [OF y(2) True y(1)] show ?thesis by (simp add: append_less_same)
  next
    case False
    have "x div 16 \<le> y div 16" using Suc.prems by (simp add: zdiv_mono1)
    with False have eq: "x div 16 = y div 16" by simp
    then have "x mod 16 < y mod 16" using Suc.prems(2) by (metis add_less_cancel_left div_mult_mod_eq)
    then have "hex_char (x mod 16) < hex_char (y mod 16)" by (simp add: hex_char_mono)
    with eq show ?thesis by (simp add: append_less_prefix)
  qed
qed simp

lemma sst_name_less: "sst_name a < sst_name b \<longleftrightarrow> a < b"
proof -
  have mono: "sst_name a < sst_name b" if "a < b" for a b
  proof -
    have "uint a < uint b" using that by (simp add: word_less_def)
    from hex_digits_mono [OF uint_16(1) this uint_16(2)]
    show ?thesis by (simp add: sst_name_def hex16_def append_less_same)
  qed
  show ?thesis using mono [of a b] mono [of b a] by (metis less_asym linorder_neqE)
qed

lemma sst_path_less: "sst_path dir a < sst_path dir b \<longleftrightarrow> a < b"
  by (simp add: sst_path_def append_less_prefix sst_name_less)

end
