(* ===== verification/Compaction.thy ===== *)
theory Compaction
  imports SSTable_Reader Heap_Queue File_Name "HOL-Library.Finite_Map"
begin

text \<open>
  The compaction engine of \<^verbatim>\<open>internal/compaction/compaction.go\<close>: the list of files, the grouping into
  size tiers, the choice of a tier, the merge of its files over a binary heap and the replacement of the
  inputs by the output.  Directories are finite maps from paths to contents.  The lemmas show that the merge
  terminates and writes the newest entry of every key, what the grouping does, and under which
  condition lookups survive a compaction.
\<close>

subsection \<open>Types\<close>

type_synonym dir_map = "(string, bytes) fmap"

record FileMetadata =
  fm_FileID :: u64
  fm_Path :: string
  fm_Size :: int
  fm_Level :: int
  fm_MinKey :: slice
  fm_MaxKey :: slice
  fm_Entries :: u64

record Engine =
  en_dir :: string
  en_files :: "FileMetadata list"
  en_threshold :: int
  en_running :: bool

text \<open>Which calls of a compaction fail, and how much of a file reaches the disk when its writer stops
  with an error.\<close>

record cfaults =
  cf_read :: "string \<Rightarrow> rfaults"
  cf_write :: wfaults
  cf_kept :: nat
  cf_stat :: bool
  cf_remove :: "string \<Rightarrow> bool"

definition no_cfaults :: cfaults where
  "no_cfaults = \<lparr>cf_read = (\<lambda>_. no_rfaults), cf_write = no_wfaults, cf_kept = 0, cf_stat = False,
     cf_remove = (\<lambda>_. False)\<rparr>"

subsection \<open>The file list\<close>

definition NewEngine :: "string \<Rightarrow> int \<Rightarrow> Engine" where
  "NewEngine dir threshold =
     (let threshold = (if threshold \<le> 0 then 4 else threshold) in
      \<lparr>en_dir = dir, en_files = [], en_threshold = threshold, en_running = False\<rparr>)"

definition AddFile :: "FileMetadata \<Rightarrow> Engine \<Rightarrow> Engine" where
  "AddFile meta e = e\<lparr>en_files := en_files e @ [meta]\<rparr>"

definition Files :: "Engine \<Rightarrow> FileMetadata list" where
  "Files e = en_files e"

subsection \<open>Size tiers\<close>

text \<open>\<^verbatim>\<open>sort.Slice\<close> may leave files of equal size in any order; here they keep theirs.  Files of equal size
  always fall into the same tier, so the tiers do not depend on it.\<close>

definition sizeTierRatio :: f64 where "sizeTierRatio = F64 2 0"

fun group_loop :: "FileMetadata list \<Rightarrow> FileMetadata list list \<Rightarrow> FileMetadata list \<Rightarrow> FileMetadata list list" where
  "group_loop [] tiers current_tier = (if length current_tier > 0 then tiers @ [current_tier] else tiers)"
| "group_loop (f # fs) tiers current_tier =
     (if length current_tier = 0 then group_loop fs tiers (current_tier @ [f])
      else
        let smallest = fm_Size (hd current_tier);
            smallest = (if smallest = 0 then 1 else smallest);
            ratio = f64_div (f64_of_int (fm_Size f)) (f64_of_int smallest)
        in if f64_less ratio sizeTierRatio then group_loop fs tiers (current_tier @ [f])
           else group_loop fs (tiers @ [current_tier]) [f])"

definition groupBySize :: "FileMetadata list \<Rightarrow> FileMetadata list list" where
  "groupBySize files = (if length files = 0 then [] else group_loop (sort_key fm_Size files) [] [])"

definition NeedsCompaction :: "Engine \<Rightarrow> bool" where
  "NeedsCompaction e = list_ex (\<lambda>tier. int (length tier) \<ge> en_threshold e) (groupBySize (en_files e))"

text \<open>The choice of \<^verbatim>\<open>RunOnce\<close>: the first of the longest tiers that reach the threshold.\<close>

fun select_tier :: "int \<Rightarrow> FileMetadata list list \<Rightarrow> FileMetadata list \<Rightarrow> FileMetadata list" where
  "select_tier threshold [] selected = selected"
| "select_tier threshold (tier # tiers) selected =
     (if int (length tier) \<ge> threshold \<and> length tier > length selected
      then select_tier threshold tiers tier else select_tier threshold tiers selected)"

subsection \<open>The merge heap\<close>

text \<open>An item holds the index of its file; the iterator that the item points to is the one at that
  index.\<close>

record heapItem =
  hi_key :: slice
  hi_value :: slice
  hi_deleted :: bool
  hi_fileIdx :: nat
  hi_fileID :: u64

definition Less :: "heapItem \<Rightarrow> heapItem \<Rightarrow> bool" where
  "Less a b =
     (let cmp = bytes_Compare (slice_bytes (hi_key a)) (slice_bytes (hi_key b)) in
      if cmp \<noteq> 0 then cmp < 0 else hi_fileID a > hi_fileID b)"

definition item_of :: "nat \<Rightarrow> u64 \<Rightarrow> SSTableIterator \<Rightarrow> heapItem" where
  "item_of i fileID it = \<lparr>hi_key = si_currKey it, hi_value = si_currValue it,
     hi_deleted = si_currDeleted it, hi_fileIdx = i, hi_fileID = fileID\<rparr>"

subsection \<open>The merge\<close>

fun open_all :: "(string \<Rightarrow> rfaults) \<Rightarrow> dir_map \<Rightarrow> FileMetadata list \<Rightarrow> error + (Reader \<times> SSTableIterator) list" where
  "open_all rf d [] = Inr []"
| "open_all rf d (f # fs) =
     (case rd_Open (rf (fm_Path f)) (fmlookup d (fm_Path f)) of
        Inl e \<Rightarrow> Inl (Wrap ''open '' e)
      | Inr r \<Rightarrow>
          let it = SeekToFirst (rf (fm_Path f)) r rd_NewIterator in
          (case open_all rf d fs of Inl e \<Rightarrow> Inl e | Inr ris \<Rightarrow> Inr ((r, it) # ris)))"

fun push_heads :: "nat \<Rightarrow> FileMetadata list \<Rightarrow> SSTableIterator list \<Rightarrow> heapItem list \<Rightarrow> heapItem list" where
  "push_heads i (f # fs) (it # its) h =
     push_heads (Suc i) fs its (if si_valid it then heap_Push Less (item_of i (fm_FileID f) it) h else h)"
| "push_heads i fs its h = h"

record merge_state =
  ms_heap :: "heapItem list"
  ms_its :: "SSTableIterator list"
  ms_w :: Writer
  ms_lastKey :: slice
  ms_numEntries :: u64
  ms_minKey :: slice
  ms_maxKey :: slice

text \<open>\<^verbatim>\<open>append([]byte(nil), b...)\<close> is \<^verbatim>\<open>nil\<close> for an empty \<open>b\<close>.\<close>

definition copy_slice :: "slice \<Rightarrow> slice" where
  "copy_slice b = (if slice_bytes b = [] then None else Some (slice_bytes b))"

text \<open>One turn of the merge loop on a heap that is not empty: the item is popped and its iterator moves on,
  and then the item is dropped or written.  \<open>dropTombs\<close> is the test \<^verbatim>\<open>len(files) == len(e.files)\<close>.\<close>

definition pop_next ::
  "cfaults \<Rightarrow> FileMetadata list \<Rightarrow> Reader list \<Rightarrow> merge_state \<Rightarrow> heapItem \<times> merge_state" where
  "pop_next cf files rs st =
     (let (item, h) = heap_Pop Less (ms_heap st);
          i = hi_fileIdx item;
          it = si_Next (cf_read cf (fm_Path (files ! i))) (rs ! i) (ms_its st ! i)
      in (item, st\<lparr>ms_heap := (if si_valid it then heap_Push Less (item_of i (fm_FileID (files ! i)) it) h else h),
                   ms_its := (ms_its st)[i := it]\<rparr>))"

definition write_item :: "cfaults \<Rightarrow> bool \<Rightarrow> heapItem \<Rightarrow> merge_state \<Rightarrow> error option \<times> merge_state" where
  "write_item cf dropTombs item st =
     (if ms_lastKey st \<noteq> None \<and> slice_bytes (hi_key item) = slice_bytes (ms_lastKey st) then (None, st)
      else
        let st = st\<lparr>ms_lastKey := hi_key item\<rparr> in
        if hi_deleted item \<and> dropTombs then (None, st)
        else
          (case Add (cf_write cf) (slice_bytes (hi_key item)) (hi_value item) (hi_deleted item) (ms_w st) of
             (Some e, w) \<Rightarrow> (Some (Wrap ''write merged entry: '' e), st\<lparr>ms_w := w\<rparr>)
           | (None, w) \<Rightarrow>
               (None, st\<lparr>ms_w := w,
                  ms_minKey := (if ms_minKey st = None then copy_slice (hi_key item) else ms_minKey st),
                  ms_maxKey := copy_slice (hi_key item),
                  ms_numEntries := ms_numEntries st + 1\<rparr>)))"

definition merge_turn ::
  "cfaults \<Rightarrow> FileMetadata list \<Rightarrow> Reader list \<Rightarrow> bool \<Rightarrow> merge_state \<Rightarrow> error option \<times> merge_state" where
  "merge_turn cf files rs dropTombs st =
     (case pop_next cf files rs st of (item, st) \<Rightarrow> write_item cf dropTombs item st)"

partial_function (option) merge_loop ::
  "cfaults \<Rightarrow> FileMetadata list \<Rightarrow> Reader list \<Rightarrow> bool \<Rightarrow> merge_state \<Rightarrow> (error option \<times> merge_state) option" where
  "merge_loop cf files rs dropTombs st =
     (if ms_heap st = [] then Some (None, st)
      else
        (case merge_turn cf files rs dropTombs st of
           (Some e, st') \<Rightarrow> Some (Some e, st')
         | (None, st') \<Rightarrow> merge_loop cf files rs dropTombs st'))"

declare merge_loop.simps [code]

text \<open>The outcome is an error or the output's path and metadata, with the directory after the call;
  \<open>None\<close> would be a merge that does not end.\<close>

definition merge_files :: "cfaults \<Rightarrow> dir_map \<Rightarrow> Engine \<Rightarrow> FileMetadata list \<Rightarrow> u64 \<Rightarrow>
    ((error + string \<times> FileMetadata) \<times> dir_map) option" where
  "merge_files cf d e files outputID =
     (let files = sort_key fm_FileID files in
      case open_all (cf_read cf) d files of
        Inl err \<Rightarrow> Some (Inl err, d)
      | Inr ris \<Rightarrow>
          let rs = map fst ris; its = map snd ris;
              h = heap_Init Less (push_heads 0 files its []);
              outputPath = sst_path (en_dir e) outputID
          in case NewWriter (cf_write cf) 0 of
               Inl err \<Rightarrow> Some (Inl (Wrap ''create output SSTable: '' err), d)
             | Inr w \<Rightarrow>
                 (case merge_loop cf files rs (length files = length (en_files e))
                         \<lparr>ms_heap = h, ms_its = its, ms_w = w, ms_lastKey = None, ms_numEntries = 0,
                          ms_minKey = None, ms_maxKey = None\<rparr> of
                    None \<Rightarrow> None
                  | Some (Some err, st) \<Rightarrow>
                      Some (Inl err, fmupd outputPath (take (cf_kept cf) (w_out (ms_w st))) d)
                  | Some (None, st) \<Rightarrow>
                      (case Finish (cf_write cf) (ms_w st) of
                         (Some err, w) \<Rightarrow>
                           Some (Inl (Wrap ''finish output SSTable: '' err),
                                 fmupd outputPath (take (cf_kept cf) (w_out w)) d)
                       | (None, w) \<Rightarrow>
                           let d = fmupd outputPath (w_out w) d in
                           if cf_stat cf then Some (Inl (Wrap ''stat output SSTable: '' wio), d)
                           else
                             Some (Inr (outputPath,
                               \<lparr>fm_FileID = outputID, fm_Path = outputPath, fm_Size = int (length (w_out w)),
                                fm_Level = 0, fm_MinKey = ms_minKey st, fm_MaxKey = ms_maxKey st,
                                fm_Entries = ms_numEntries st\<rparr>), d))))"

subsection \<open>One round\<close>

fun remove_all :: "(string \<Rightarrow> bool) \<Rightarrow> FileMetadata list \<Rightarrow> dir_map \<Rightarrow> dir_map" where
  "remove_all rm [] d = d"
| "remove_all rm (f # fs) d =
     remove_all rm fs (if rm (fm_Path f) then d else fmdrop (fm_Path f) d)"

definition RunOnce :: "cfaults \<Rightarrow> dir_map \<Rightarrow> Engine \<Rightarrow> u64 \<Rightarrow> ((error + nat) \<times> Engine \<times> dir_map) option" where
  "RunOnce cf d e outputID =
     (if en_running e then Some (Inr 0, e, d)
      else
        let selected = select_tier (en_threshold e) (groupBySize (en_files e)) [] in
        if length selected = 0 then Some (Inr 0, e, d)
        else
          (case merge_files cf d (e\<lparr>en_running := True\<rparr>) selected outputID of
             None \<Rightarrow> None
           | Some (Inl err, d') \<Rightarrow> Some (Inl (Wrap ''compaction: merge: '' err), e\<lparr>en_running := False\<rparr>, d')
           | Some (Inr (outputPath, outputMeta), d') \<Rightarrow>
               let selectedIDs = set (map fm_FileID selected);
                   remaining = filter (\<lambda>f. fm_FileID f \<notin> selectedIDs) (en_files e)
               in Some (Inr (length selected),
                    e\<lparr>en_files := remaining @ [outputMeta], en_running := False\<rparr>,
                    remove_all (cf_remove cf) selected d')))"

subsection \<open>The order of the heap\<close>

lemma Less_iff:
  "Less a b \<longleftrightarrow> slice_bytes (hi_key a) < slice_bytes (hi_key b) \<or>
     slice_bytes (hi_key a) = slice_bytes (hi_key b) \<and> hi_fileID b < hi_fileID a"
  by (auto simp: Less_def Let_def)

interpretation mh: heap_order Less
proof
  show "Less x y \<Longrightarrow> \<not> Less y x" for x y by (auto simp: Less_iff)
  have not_Less: "\<not> Less a b \<longleftrightarrow> slice_bytes (hi_key b) < slice_bytes (hi_key a) \<or>
     slice_bytes (hi_key a) = slice_bytes (hi_key b) \<and> hi_fileID a \<le> hi_fileID b" for a b
    by (auto simp: Less_iff)
  show "\<not> Less x y \<Longrightarrow> \<not> Less y z \<Longrightarrow> \<not> Less x z" for x y z
    unfolding not_Less by auto
qed

subsection \<open>The newest entry of every key\<close>

text \<open>Tables from the oldest to the newest: a later one hides the earlier ones.\<close>

fun newest :: "entry list list \<Rightarrow> bytes \<Rightarrow> cell option" where
  "newest [] k = None"
| "newest (t # ts) k = (case newest ts k of None \<Rightarrow> map_of (entries_table t) k | Some c \<Rightarrow> Some c)"

lemma newest_append:
  "newest (ts @ us) k = (case newest us k of None \<Rightarrow> newest ts k | Some c \<Rightarrow> Some c)"
  by (induction ts) (auto split: option.splits)

lemma newest_at:
  assumes "i < length ts" "map_of (entries_table (ts ! i)) k = Some c"
    "\<And>j. i < j \<Longrightarrow> j < length ts \<Longrightarrow> map_of (entries_table (ts ! j)) k = None"
  shows "newest ts k = Some c"
  using assms
proof (induction ts arbitrary: i)
  case (Cons t ts)
  show ?case
  proof (cases i)
    case 0
    have "newest ts' k = None" if "\<And>j. j < length ts' \<Longrightarrow> map_of (entries_table (ts' ! j)) k = None" for ts'
      using that by (induction ts') (auto simp: nth_Cons' split: if_splits, fastforce+)
    moreover have "map_of (entries_table (ts ! j)) k = None" if "j < length ts" for j
      using Cons.prems(3) [of "Suc j"] 0 that by simp
    ultimately have "newest ts k = None" by blast
    with 0 Cons.prems(2) show ?thesis by simp
  next
    case (Suc i')
    with Cons.prems Cons.IH [of i'] have "newest ts k = Some c"
      by (metis Suc_less_eq length_Cons nth_Cons_Suc)
    then show ?thesis by simp
  qed
qed simp

lemma newest_cong:
  assumes "length ts = length us"
    "\<And>i. i < length ts \<Longrightarrow> map_of (entries_table (ts ! i)) k = map_of (entries_table (us ! i)) k"
  shows "newest ts k = newest us k"
  using assms
proof (induction ts us rule: list_induct2)
  case (Cons t ts u us)
  have "newest ts k = newest us k" by (rule Cons.IH) (use Cons.prems [of "Suc _"] in simp)
  with Cons.prems [of 0] show ?case by (simp split: option.splits)
qed simp

lemma newest_None: "(\<And>t. t \<in> set ts \<Longrightarrow> map_of (entries_table t) k = None) \<Longrightarrow> newest ts k = None"
  by (induction ts) simp_all

text \<open>What a merge keeps: tombstones are left out if no older file remains.\<close>

definition keep :: "bool \<Rightarrow> cell option \<Rightarrow> cell option" where
  "keep dropTombs c = (if dropTombs \<and> c = Some Tomb then None else c)"

text \<open>The state of a merge, in terms of the entries that are still to come from each file, the last
  key and the entries written so far.\<close>

definition above :: "slice \<Rightarrow> bytes \<Rightarrow> bool" where
  "above l k \<longleftrightarrow> (case l of None \<Rightarrow> True | Some b \<Rightarrow> b < k)"

definition upto_key :: "slice \<Rightarrow> bytes \<Rightarrow> bool" where
  "upto_key l k \<longleftrightarrow> (case l of None \<Rightarrow> False | Some b \<Rightarrow> k \<le> b)"

definition merge_inv :: "bool \<Rightarrow> (bytes \<Rightarrow> cell option) \<Rightarrow> entry list list \<Rightarrow> slice \<Rightarrow> entry list \<Rightarrow> bool" where
  "merge_inv dropTombs M pend lastKey out \<longleftrightarrow>
     sorted_table out \<and> (\<forall>p \<in> set pend. sorted_table p) \<and>
     (\<forall>k. above lastKey k \<longrightarrow> newest pend k = M k) \<and>
     (\<forall>p \<in> set pend. \<forall>e \<in> set p. above lastKey (fst e) \<or> lastKey = Some (fst e)) \<and>
     (\<forall>e \<in> set out. upto_key lastKey (fst e)) \<and>
     (\<forall>k. upto_key lastKey k \<longrightarrow> map_of (entries_table out) k = keep dropTombs (M k))"

lemma merge_inv_start:
  "\<forall>p \<in> set pend. sorted_table p \<Longrightarrow> merge_inv dropTombs (newest pend) pend None []"
  by (simp add: merge_inv_def above_def upto_key_def)

lemma merge_inv_end:
  assumes "merge_inv dropTombs M pend lastKey out" "\<forall>p \<in> set pend. p = []"
  shows "map_of (entries_table out) k = keep dropTombs (M k)" "sorted_table out"
proof -
  show "sorted_table out" using assms(1) by (simp add: merge_inv_def)
  have M: "M k = None" if "above lastKey k"
  proof -
    have "newest pend k = None" by (rule newest_None) (use assms(2) in auto)
    with assms(1) that show ?thesis by (simp add: merge_inv_def)
  qed
  show "map_of (entries_table out) k = keep dropTombs (M k)"
  proof (cases "upto_key lastKey k")
    case True
    with assms(1) show ?thesis by (simp add: merge_inv_def)
  next
    case False
    then have "above lastKey k" by (auto simp: above_def upto_key_def split: option.splits)
    moreover have "k \<notin> fst ` set out" using assms(1) False by (auto simp: merge_inv_def)
    ultimately show ?thesis using M by (simp add: keep_def entries_table_absent)
  qed
qed

lemma sorted_head_le: "sorted_table (e # es :: entry list) \<Longrightarrow> x \<in> set (e # es) \<Longrightarrow> fst e \<le> fst x"
  by (auto simp: less_imp_le)

text \<open>One turn takes the head of a file that no other head precedes; among equal keys the newest file
  comes first.\<close>

definition least_head :: "entry list list \<Rightarrow> nat \<Rightarrow> entry \<Rightarrow> entry list \<Rightarrow> bool" where
  "least_head pend i e es \<longleftrightarrow> i < length pend \<and> pend ! i = e # es \<and> (\<forall>p \<in> set pend. sorted_table p) \<and>
     (\<forall>j e' es'. j < length pend \<longrightarrow> pend ! j = e' # es' \<longrightarrow> fst e < fst e' \<or> fst e = fst e' \<and> j \<le> i)"

lemma least_headD:
  assumes "least_head pend i e es"
  shows "i < length pend" "pend ! i = e # es" "\<And>j. j < length pend \<Longrightarrow> sorted_table (pend ! j)"
    "\<And>j x. j < length pend \<Longrightarrow> x \<in> set (pend ! j) \<Longrightarrow> fst e \<le> fst x"
    "\<And>j x. i < j \<Longrightarrow> j < length pend \<Longrightarrow> x \<in> set (pend ! j) \<Longrightarrow> fst e < fst x"
proof -
  show "i < length pend" "pend ! i = e # es" using assms by (simp_all add: least_head_def)
  show sorted: "sorted_table (pend ! j)" if "j < length pend" for j
    using assms that by (simp add: least_head_def)
  have least: "fst e < fst x \<or> fst e = fst x \<and> j \<le> i" if j: "j < length pend" and x: "x \<in> set (pend ! j)" for j x
  proof -
    obtain e' es' where p: "pend ! j = e' # es'" using x by (cases "pend ! j") auto
    then have "fst e < fst e' \<or> fst e = fst e' \<and> j \<le> i" using assms j unfolding least_head_def by blast
    moreover have "fst e' \<le> fst x" using sorted_head_le [of e' es' x] sorted [OF j] p x by simp
    ultimately show ?thesis by auto
  qed
  show "fst e \<le> fst x" if "j < length pend" "x \<in> set (pend ! j)" for j x
    using least [OF that] by auto
  show "fst e < fst x" if "i < j" "j < length pend" "x \<in> set (pend ! j)" for j x
    using least [OF that(2,3)] that(1) by auto
qed

lemma newest_head:
  assumes "least_head pend i e es"
  shows "newest pend (fst e) = Some (snd (entry_cell e))"
proof (rule newest_at [OF least_headD(1) [OF assms]])
  show "map_of (entries_table (pend ! i)) (fst e) = Some (snd (entry_cell e))"
    by (simp add: least_headD(2) [OF assms] entry_cell_def split: prod.splits)
  fix j assume j: "i < j" "j < length pend"
  have "fst e \<notin> fst ` set (pend ! j)" 
  proof
    assume "fst e \<in> fst ` set (pend ! j)"
    then obtain x where x: "x \<in> set (pend ! j)" "fst e = fst x" by blast
    from least_headD(5) [OF assms j x(1)] x(2) show False by simp
  qed
  then show "map_of (entries_table (pend ! j)) (fst e) = None" by (rule entries_table_absent)
qed

lemma newest_tail:
  assumes "least_head pend i e es" "k \<noteq> fst e"
  shows "newest (pend[i := es]) k = newest pend k"
  by (rule newest_cong)
    (use least_headD(1,2) [OF assms(1)] assms(2) in \<open>auto simp: nth_list_update entry_cell_def split: prod.splits\<close>)

lemma newest_below:
  assumes "least_head pend i e es" "k < fst e"
  shows "newest pend k = None"
proof (rule newest_None)
  fix t assume "t \<in> set pend"
  then obtain j where "j < length pend" "t = pend ! j" by (auto simp: in_set_conv_nth)
  then have "k \<notin> fst ` set t" using least_headD(4) [OF assms(1)] assms(2) by fastforce
  then show "map_of (entries_table t) k = None" by (rule entries_table_absent)
qed

lemma tail_from:
  assumes "least_head pend i e es" "p \<in> set (pend[i := es])"
  shows "sorted_table p" "\<And>x. x \<in> set p \<Longrightarrow> fst e \<le> fst x"
proof -
  note h = least_headD [OF assms(1)]
  obtain j where j: "j < length pend" "p = (if j = i then es else pend ! j)"
    using assms(2) by (auto simp: in_set_conv_nth nth_list_update)
  show "sorted_table p" using h(3) [OF j(1)] h(2) j by (auto split: if_splits)
  have "set p \<subseteq> set (pend ! j)" using j h(2) by auto
  then show "\<And>x. x \<in> set p \<Longrightarrow> fst e \<le> fst x" using h(4) [OF j(1)] by blast
qed

lemma not_upto: "\<not> upto_key l k \<longleftrightarrow> above l k"
  by (auto simp: above_def upto_key_def split: option.splits)

lemma above_trans: "above l a \<Longrightarrow> a < b \<Longrightarrow> above l b"
  by (auto simp: above_def split: option.splits)

lemma merge_invD:
  assumes "merge_inv dropTombs M pend lastKey out"
  shows "sorted_table out" "above lastKey k \<Longrightarrow> newest pend k = M k"
    "upto_key lastKey k \<Longrightarrow> map_of (entries_table out) k = keep dropTombs (M k)"
    "x \<in> set out \<Longrightarrow> upto_key lastKey (fst x)"
    "p \<in> set pend \<Longrightarrow> x \<in> set p \<Longrightarrow> above lastKey (fst x) \<or> lastKey = Some (fst x)"
  using assms by (auto simp: merge_inv_def)

lemma skip_turn:
  assumes inv: "merge_inv dropTombs M pend (Some (fst e)) out" and h: "least_head pend i e es"
  shows "merge_inv dropTombs M (pend[i := es]) (Some (fst e)) out"
  unfolding merge_inv_def
proof (intro conjI ballI allI impI)
  show "sorted_table out" by (rule merge_invD(1) [OF inv])
  show "newest (pend[i := es]) k = M k" if "above (Some (fst e)) k" for k
    using newest_tail [OF h, of k] merge_invD(2) [OF inv that] that by (auto simp: above_def)
  show "upto_key (Some (fst e)) (fst x)" if "x \<in> set out" for x by (rule merge_invD(4) [OF inv that])
  show "map_of (entries_table out) k = keep dropTombs (M k)" if "upto_key (Some (fst e)) k" for k
    by (rule merge_invD(3) [OF inv that])
next
  fix p assume p: "p \<in> set (pend[i := es])"
  show "sorted_table p" by (rule tail_from(1) [OF h p])
  show "above (Some (fst e)) (fst x) \<or> Some (fst e) = Some (fst x)" if "x \<in> set p" for x
    using tail_from(2) [OF h p that] by (auto simp: above_def)
qed

lemma next_turn:
  assumes inv: "merge_inv dropTombs M pend lastKey out" and h: "least_head pend i e es"
    and new: "lastKey \<noteq> Some (fst e)"
  defines "out' \<equiv> if snd (snd e) \<and> dropTombs then out else out @ [e]"
  shows "merge_inv dropTombs M (pend[i := es]) (Some (fst e)) out'"
proof -
  have ab: "above lastKey (fst e)"
    using merge_invD(5) [OF inv nth_mem [OF least_headD(1) [OF h]], of e] least_headD(2) [OF h] new by auto
  have below: "fst x < fst e" if "x \<in> set out" for x
    using merge_invD(4) [OF inv that] ab by (auto simp: upto_key_def above_def split: option.splits)
  have Me: "M (fst e) = Some (snd (entry_cell e))"
    using merge_invD(2) [OF inv ab] newest_head [OF h] by simp
  have outM: "map_of (entries_table out') k = keep dropTombs (M k)" if "k \<le> fst e" for k
  proof (cases "k = fst e")
    case True
    have "k \<notin> fst ` set out" using below True by (metis imageE less_irrefl)
    then have "map_of (entries_table out) k = None" by (rule entries_table_absent)
    then show ?thesis
      using True Me by (auto simp: out'_def keep_def map_add_def entry_cell_def split: prod.splits)
  next
    case False
    then have k: "k < fst e" using that by simp
    have "map_of (entries_table out') k = map_of (entries_table out) k"
      using False by (auto simp: out'_def map_add_def entry_cell_def split: prod.splits option.splits)
    also have "\<dots> = keep dropTombs (M k)"
    proof (cases "upto_key lastKey k")
      case True
      then show ?thesis by (rule merge_invD(3) [OF inv])
    next
      case up: False
      then have "M k = None" using merge_invD(2) [OF inv, of k] newest_below [OF h k] by (simp add: not_upto)
      moreover have "k \<notin> fst ` set out" using merge_invD(4) [OF inv] up by auto
      ultimately show ?thesis by (simp add: keep_def entries_table_absent)
    qed
    finally show ?thesis .
  qed
  show ?thesis
    unfolding merge_inv_def
  proof (intro conjI ballI allI impI)
    show "sorted_table out'" using merge_invD(1) [OF inv] below by (auto simp: out'_def sorted_wrt_append)
    show "newest (pend[i := es]) k = M k" if "above (Some (fst e)) k" for k
      using newest_tail [OF h, of k] merge_invD(2) [OF inv above_trans [OF ab], of k] that
      by (auto simp: above_def)
    show "upto_key (Some (fst e)) (fst x)" if "x \<in> set out'" for x
      using below [of x] that by (auto simp: out'_def upto_key_def less_imp_le split: if_splits)
    show "map_of (entries_table out') k = keep dropTombs (M k)" if "upto_key (Some (fst e)) k" for k
      using outM that by (simp add: upto_key_def)
  next
    fix p assume p: "p \<in> set (pend[i := es])"
    show "sorted_table p" by (rule tail_from(1) [OF h p])
    show "above (Some (fst e)) (fst x) \<or> Some (fst e) = Some (fst x)" if "x \<in> set p" for x
      using tail_from(2) [OF h p that] by (auto simp: above_def)
  qed
qed

subsection \<open>The merge loop\<close>

text \<open>What the loop works on: file \<open>i\<close> has the entries \<open>pend ! i\<close> still to come, the first of them in the
  heap and the others behind its iterator.\<close>

definition head_item :: "u64 list \<Rightarrow> entry list list \<Rightarrow> nat \<Rightarrow> heapItem" where
  "head_item ids pend i = (let e = hd (pend ! i) in
     \<lparr>hi_key = Some (fst e), hi_value = fst (snd e), hi_deleted = snd (snd e), hi_fileIdx = i,
      hi_fileID = ids ! i\<rparr>)"

definition live :: "entry list list \<Rightarrow> nat set" where
  "live pend = {i. i < length pend \<and> pend ! i \<noteq> []}"

definition streams_rep :: "u64 list \<Rightarrow> Reader list \<Rightarrow> entry list list \<Rightarrow> merge_state \<Rightarrow> bool" where
  "streams_rep ids rs pend st \<longleftrightarrow>
     length rs = length pend \<and> length ids = length pend \<and> length (ms_its st) = length pend \<and>
     heap Less (ms_heap st) \<and> mset (ms_heap st) = image_mset (head_item ids pend) (mset_set (live pend)) \<and>
     (\<forall>i \<in> live pend. serves_at (rs ! i) (ms_its st ! i) (tl (pend ! i)))"

lemma finite_live [simp]: "finite (live pend)"
  by (simp add: live_def)

lemma live_update:
  "i \<in> live pend \<Longrightarrow> live (pend[i := es]) = (if es = [] then live pend - {i} else live pend)"
  by (auto simp: live_def nth_list_update split: if_splits)

lemma head_item_other: "j \<noteq> i \<Longrightarrow> head_item ids (pend[i := es]) j = head_item ids pend j"
  by (simp add: head_item_def)

lemma head_items_update:
  assumes "i \<in> live pend"
  shows "image_mset (head_item ids pend) (mset_set (live pend)) =
      add_mset (head_item ids pend i) (image_mset (head_item ids pend) (mset_set (live pend - {i})))"
    and "image_mset (head_item ids (pend[i := es])) (mset_set (live (pend[i := es]))) =
      (if es = [] then {#} else {#head_item ids (pend[i := es]) i#})
      + image_mset (head_item ids pend) (mset_set (live pend - {i}))"
proof -
  have split: "mset_set (live pend) = add_mset i (mset_set (live pend - {i}))"
    by (metis assms finite_live mset_set.remove)
  then show "image_mset (head_item ids pend) (mset_set (live pend)) =
      add_mset (head_item ids pend i) (image_mset (head_item ids pend) (mset_set (live pend - {i})))" by simp
  have "image_mset (head_item ids (pend[i := es])) (mset_set (live pend - {i})) =
      image_mset (head_item ids pend) (mset_set (live pend - {i}))"
    by (rule image_mset_cong) (simp add: head_item_other)
  with split show "image_mset (head_item ids (pend[i := es])) (mset_set (live (pend[i := es]))) =
      (if es = [] then {#} else {#head_item ids (pend[i := es]) i#})
      + image_mset (head_item ids pend) (mset_set (live pend - {i}))"
    by (cases "es = []") (simp_all add: live_update [OF assms])
qed

text \<open>The head that is popped is least.\<close>

lemma popped_least:
  assumes rep: "streams_rep ids rs pend st" and ids: "sorted_wrt (<) ids"
    and sorted: "\<forall>p \<in> set pend. sorted_table p"
    and pop: "heap_Pop Less (ms_heap st) = (item, h)" and ne: "ms_heap st \<noteq> []"
  obtains i where "i \<in> live pend" "item = head_item ids pend i"
    "least_head pend i (hd (pend ! i)) (tl (pend ! i))" "heap Less h"
    "mset h = image_mset (head_item ids pend) (mset_set (live pend - {i}))"
proof -
  have hp: "heap Less (ms_heap st)" and c: "mset (ms_heap st) = image_mset (head_item ids pend) (mset_set (live pend))"
    using rep by (simp_all add: streams_rep_def)
  have full: "mset (ms_heap st) \<noteq> {#}" using ne by simp
  note popped = mh.pq.pop_ok [OF hp full pop] mh.pq.pop_member [OF hp full pop]
  obtain i where i: "i \<in> live pend" "item = head_item ids pend i"
    using popped(2) c by auto
  have least: "fst (hd (pend ! i)) < fst e' \<or> fst (hd (pend ! i)) = fst e' \<and> j \<le> i"
    if j: "j < length pend" "pend ! j = e' # es'" for j e' es'
  proof -
    have "j \<in> live pend" using j by (simp add: live_def)
    then have "head_item ids pend j \<in># mset (ms_heap st)" by (simp add: c)
    with popped(1) have "\<not> Less (head_item ids pend j) item" by blast
    moreover have "ids ! i < ids ! j" if "i < j"
      using sorted_wrt_nth_less [OF ids that] j(1) rep by (simp add: streams_rep_def)
    then have "ids ! j \<le> ids ! i \<Longrightarrow> j \<le> i" by (meson not_le)
    ultimately show ?thesis
      using j(2) by (auto simp: i(2) Less_iff head_item_def Let_def not_less)
  qed
  have "least_head pend i (hd (pend ! i)) (tl (pend ! i))"
    unfolding least_head_def using i(1) sorted least by (simp add: live_def)
  moreover have "mset h = image_mset (head_item ids pend) (mset_set (live pend - {i}))"
    using popped(1) ne c head_items_update(1) [OF i(1), of ids] i(2) by simp
  ultimately show thesis using that i popped(1) ne by simp
qed

text \<open>The metadata that the loop collects about the entries it wrote.\<close>

definition meta_rep :: "Writer \<Rightarrow> entry list \<Rightarrow> merge_state \<Rightarrow> bool" where
  "meta_rep wz out st \<longleftrightarrow>
     add_all no_wfaults out wz = (None, ms_w st) \<and> ms_numEntries st = of_nat (length out) \<and>
     ms_minKey st = (if out = [] then None else Some (fst (hd out))) \<and>
     ms_maxKey st = (if out = [] then None else Some (fst (last out)))"

lemma add_all_snoc:
  "add_all ft es w = (None, w') \<Longrightarrow> add_all ft (es @ [(k, v, d)]) w = Add ft k v d w'"
proof (induction ft es w rule: add_all.induct)
  case (2 ft key v d es w)
  then show ?case by (auto split: prod.splits option.splits)
qed (auto split: prod.splits option.splits)

lemma Add_ok:
  assumes "writer_rep bls cur w" "key \<noteq> []"
  shows "\<exists>w'. Add no_wfaults key v d w = (None, w')"
  by (rule Add_rep [OF assms, where v = v and d = d]) blast

lemma add_all_snoc_ok:
  assumes "NewWriter no_wfaults bsz = Inr wz" "list_all (\<lambda>e. fst e \<noteq> []) (out @ [(k, v, d)])"
    "add_all no_wfaults out wz = (None, w)"
  shows "\<exists>w'. Add no_wfaults k v d w = (None, w')"
proof -
  have "writer_rep [] [] wz" using NewWriter_rep [of bsz] assms(1) by auto
  from add_all_rep [OF this assms(2)] show ?thesis using add_all_snoc [OF assms(3)] by auto
qed

lemma serves_at_next:
  assumes "serves_at r it es"
  defines "it' \<equiv> si_Next no_rfaults r it"
  shows "si_valid it' \<longleftrightarrow> es \<noteq> []" "es \<noteq> [] \<Longrightarrow> si_shows it' (hd es)" "es \<noteq> [] \<Longrightarrow> serves_at r it' (tl es)"
  using assms sst.step_next [of r it "hd es" "tl es"] sst.step_end [of r it] by (cases es; simp)+

lemma item_of_shows:
  "si_shows it e \<Longrightarrow> item_of i n it =
     \<lparr>hi_key = Some (fst e), hi_value = fst (snd e), hi_deleted = snd (snd e), hi_fileIdx = i, hi_fileID = n\<rparr>"
  by (cases e) (simp add: item_of_def si_shows_def)

text \<open>After one turn the popped file has moved on by one entry.\<close>

lemma turn_streams:
  assumes rep: "streams_rep ids rs pend st" and i: "i \<in> live pend"
    and h: "heap Less h" "mset h = image_mset (head_item ids pend) (mset_set (live pend - {i}))"
  defines "it \<equiv> si_Next no_rfaults (rs ! i) (ms_its st ! i)"
  defines "st' \<equiv> st\<lparr>ms_heap := (if si_valid it then heap_Push Less (item_of i (ids ! i) it) h else h),
      ms_its := (ms_its st)[i := it]\<rparr>"
  shows "streams_rep ids rs (pend[i := tl (pend ! i)]) st'"
proof -
  let ?es = "tl (pend ! i)"
  have len: "i < length pend" "length (ms_its st) = length pend" "length rs = length pend" "length ids = length pend"
    using rep i by (simp_all add: streams_rep_def live_def)
  have "serves_at (rs ! i) (ms_its st ! i) ?es" using rep i by (simp add: streams_rep_def)
  note nx = serves_at_next [OF this, folded it_def]
  have item: "item_of i (ids ! i) it = head_item ids (pend[i := ?es]) i" if "?es \<noteq> []"
    using item_of_shows [OF nx(2) [OF that]] len by (simp add: head_item_def Let_def)
  have heap: "heap Less (ms_heap st')" "mset (ms_heap st') =
      image_mset (head_item ids (pend[i := ?es])) (mset_set (live (pend[i := ?es])))"
    using h item nx(1) head_items_update(2) [OF i, of ids ?es] mh.pq.push_ok [OF h(1)]
    by (auto simp: st'_def)
  have "serves_at (rs ! j) (ms_its st' ! j) (tl (pend[i := ?es] ! j))" if "j \<in> live (pend[i := ?es])" for j
  proof (cases "j = i")
    case True
    then have "?es \<noteq> []" using that len by (simp add: live_def)
    with True nx(3) len show ?thesis by (simp add: st'_def)
  next
    case False
    with that rep show ?thesis by (simp add: st'_def live_def streams_rep_def)
  qed
  with heap len show ?thesis by (simp add: streams_rep_def st'_def)
qed

definition weight :: "entry list \<Rightarrow> nat" where
  "weight es = sum_list (map entry_weight es)"

lemma concat_update:
  assumes "i < length pend" "pend ! i = e # es"
  shows "set (concat pend) = insert e (set (concat (pend[i := es])))"
    "length (concat pend) = Suc (length (concat (pend[i := es])))"
    "weight (concat pend) = entry_weight e + weight (concat (pend[i := es]))"
proof -
  have "pend = take i pend @ (e # es) # drop (Suc i) pend" using id_take_nth_drop [OF assms(1)] assms(2) by simp
  then have c: "concat pend = concat (take i pend) @ (e # es) @ concat (drop (Suc i) pend)"
    by (metis concat.simps(2) concat_append)
  have u: "concat (pend[i := es]) = concat (take i pend) @ es @ concat (drop (Suc i) pend)"
    using assms(1) by (simp add: upd_conv_take_nth_drop)
  show "set (concat pend) = insert e (set (concat (pend[i := es])))"
    "length (concat pend) = Suc (length (concat (pend[i := es])))"
    "weight (concat pend) = entry_weight e + weight (concat (pend[i := es]))"
    unfolding c u by (auto simp: weight_def)
qed

text \<open>The state of the loop against the entries to come and the entries written.\<close>

definition loop_rep :: "bool \<Rightarrow> (bytes \<Rightarrow> cell option) \<Rightarrow> u64 list \<Rightarrow> Reader list \<Rightarrow> Writer \<Rightarrow>
    entry list list \<Rightarrow> entry list \<Rightarrow> merge_state \<Rightarrow> bool" where
  "loop_rep dropTombs M ids rs wz pend out st \<longleftrightarrow>
     streams_rep ids rs pend st \<and> meta_rep wz out st \<and> merge_inv dropTombs M pend (ms_lastKey st) out \<and>
     (\<forall>e \<in> set (concat pend) \<union> set out. fst e \<noteq> [])"

lemma no_cfaults_simps [simp]:
  "cf_read no_cfaults = (\<lambda>_. no_rfaults)" "cf_write no_cfaults = no_wfaults" "\<not> cf_stat no_cfaults"
  "\<not> cf_remove no_cfaults path"
  by (simp_all add: no_cfaults_def)

lemma meta_rep_snoc:
  assumes "meta_rep wz out st" "Add no_wfaults (fst e) (fst (snd e)) (snd (snd e)) (ms_w st) = (None, w)" "fst e \<noteq> []"
  shows "meta_rep wz (out @ [e]) (st\<lparr>ms_w := w,
      ms_minKey := (if ms_minKey st = None then copy_slice (Some (fst e)) else ms_minKey st),
      ms_maxKey := copy_slice (Some (fst e)), ms_numEntries := ms_numEntries st + 1\<rparr>)"
proof -
  obtain k v d where e: "e = (k, v, d)" by (cases e)
  have "add_all no_wfaults out wz = (None, ms_w st)" using assms(1) by (simp add: meta_rep_def)
  from add_all_snoc [OF this] assms show ?thesis
    by (auto simp: e meta_rep_def copy_slice_def hd_append)
qed

text \<open>What a turn does with the least head \<open>e\<close>, after the iterator has moved on.\<close>

definition take_head :: "bool \<Rightarrow> entry \<Rightarrow> merge_state \<Rightarrow> error option \<times> merge_state" where
  "take_head dropTombs e st =
     (if ms_lastKey st = Some (fst e) then (None, st)
      else if snd (snd e) \<and> dropTombs then (None, st\<lparr>ms_lastKey := Some (fst e)\<rparr>)
      else case Add no_wfaults (fst e) (fst (snd e)) (snd (snd e)) (ms_w st) of
          (Some err, w) \<Rightarrow> (Some (Wrap ''write merged entry: '' err), st\<lparr>ms_lastKey := Some (fst e), ms_w := w\<rparr>)
        | (None, w) \<Rightarrow> (None, st\<lparr>ms_w := w,
             ms_minKey := (if ms_minKey st = None then copy_slice (Some (fst e)) else ms_minKey st),
             ms_maxKey := copy_slice (Some (fst e)), ms_numEntries := ms_numEntries st + 1,
             ms_lastKey := Some (fst e)\<rparr>))"

lemma write_item_head:
  assumes "cf_write cf = no_wfaults" "hi_key item = Some (fst e)" "hi_value item = fst (snd e)" "hi_deleted item = snd (snd e)"
  shows "write_item cf dropTombs item st = take_head dropTombs e st"
  using assms by (cases "ms_lastKey st") (auto simp: write_item_def take_head_def Let_def cong: if_cong split: prod.splits option.splits)

text \<open>No call fails on the files that have entries to come.\<close>

definition reads_live :: "cfaults \<Rightarrow> FileMetadata list \<Rightarrow> entry list list \<Rightarrow> bool" where
  "reads_live cf files pend \<longleftrightarrow> cf_write cf = no_wfaults \<and> (\<forall>i \<in> live pend. cf_read cf (fm_Path (files ! i)) = no_rfaults)"

lemma reads_live_update: "reads_live cf files pend \<Longrightarrow> pend ! i = e # es \<Longrightarrow> reads_live cf files (pend[i := es])"
  by (cases "i < length pend") (auto simp: reads_live_def live_def nth_list_update split: if_splits)

lemma merge_turn_head:
  assumes cf: "reads_live cf files pend"
    and r: "streams_rep (map fm_FileID files) rs pend st" and sorted: "\<forall>p \<in> set pend. sorted_table p"
    and ids: "sorted_wrt (<) (map fm_FileID files)" and ne: "ms_heap st \<noteq> []"
  obtains i e es st1 where "i < length pend" "pend ! i = e # es" "least_head pend i e es"
    "streams_rep (map fm_FileID files) rs (pend[i := es]) st1"
    "ms_lastKey st1 = ms_lastKey st" "\<forall>out. meta_rep wz out st1 = meta_rep wz out st"
    "merge_turn cf files rs dropTombs st = take_head dropTombs e st1"
proof -
  let ?ids = "map fm_FileID files"
  obtain item h where pop: "heap_Pop Less (ms_heap st) = (item, h)" by (cases "heap_Pop Less (ms_heap st)")
  obtain i where i: "i \<in> live pend" "item = head_item ?ids pend i"
    "least_head pend i (hd (pend ! i)) (tl (pend ! i))" "heap Less h"
    "mset h = image_mset (head_item ?ids pend) (mset_set (live pend - {i}))"
    by (rule popped_least [OF r ids sorted pop ne])
  have pi: "i < length pend" "pend ! i = hd (pend ! i) # tl (pend ! i)" "i < length files"
    using i(1) r by (simp_all add: live_def streams_rep_def)
  define it where "it = si_Next no_rfaults (rs ! i) (ms_its st ! i)"
  define st1 where "st1 = st\<lparr>ms_heap := (if si_valid it then heap_Push Less (item_of i (?ids ! i) it) h else h),
      ms_its := (ms_its st)[i := it]\<rparr>"
  have rep1: "streams_rep ?ids rs (pend[i := tl (pend ! i)]) st1"
    unfolding st1_def it_def by (rule turn_streams [OF r i(1,4,5)])
  have item: "hi_key item = Some (fst (hd (pend ! i)))" "hi_value item = fst (snd (hd (pend ! i)))"
    "hi_deleted item = snd (snd (hd (pend ! i)))" "hi_fileIdx item = i"
    by (simp_all add: i(2) head_item_def Let_def)
  have "cf_read cf (fm_Path (files ! i)) = no_rfaults" "cf_write cf = no_wfaults"
    using cf i(1) by (simp_all add: reads_live_def)
  then have "pop_next cf files rs st = (item, st1)"
    using pop pi(3) item(4) by (simp add: pop_next_def Let_def st1_def it_def cong: if_cong)
  then have "merge_turn cf files rs dropTombs st = take_head dropTombs (hd (pend ! i)) st1"
    by (simp add: merge_turn_def write_item_head [OF \<open>cf_write cf = no_wfaults\<close> item(1-3)])
  then show thesis
    by (intro that [OF pi(1,2) i(3) rep1]) (simp_all add: st1_def meta_rep_def)
qed

lemma merge_turn_ok:
  assumes cf: "reads_live cf files pend" and rep: "loop_rep dropTombs M (map fm_FileID files) rs wz pend out st"
    and ids: "sorted_wrt (<) (map fm_FileID files)" and wz: "NewWriter no_wfaults bsz = Inr wz"
    and ne: "ms_heap st \<noteq> []"
  obtains i e es out' st' where "merge_turn cf files rs dropTombs st = (None, st')"
    "i < length pend" "pend ! i = e # es"
    "loop_rep dropTombs M (map fm_FileID files) rs wz (pend[i := es]) out' st'"
    "out' = out \<or> out' = out @ [e]"
proof -
  let ?ids = "map fm_FileID files"
  have r: "streams_rep ?ids rs pend st" "meta_rep wz out st" "merge_inv dropTombs M pend (ms_lastKey st) out"
    and keys: "\<forall>e \<in> set (concat pend) \<union> set out. fst e \<noteq> []"
    using rep by (simp_all add: loop_rep_def)
  have sorted: "\<forall>p \<in> set pend. sorted_table p" using r(3) by (simp add: merge_inv_def)
  obtain i e es st1 where h: "i < length pend" "pend ! i = e # es" "least_head pend i e es"
    and st1: "streams_rep ?ids rs (pend[i := es]) st1" "ms_lastKey st1 = ms_lastKey st"
      "\<forall>out. meta_rep wz out st1 = meta_rep wz out st"
    and turn: "merge_turn cf files rs dropTombs st = take_head dropTombs e st1"
    by (rule merge_turn_head [OF cf r(1) sorted ids ne, where wz = wz and dropTombs = dropTombs])
  have key: "fst e \<noteq> []" and keys': "\<forall>x \<in> set (concat (pend[i := es])) \<union> set out. fst x \<noteq> []"
    using keys concat_update(1) [OF h(1,2)] by auto
  have m1: "meta_rep wz out st1" using r(2) st1(3) by blast
  have st1': "streams_rep ?ids rs (pend[i := es]) st'" if "ms_heap st' = ms_heap st1" "ms_its st' = ms_its st1" for st'
    using st1(1) that by (simp add: streams_rep_def)
  consider "ms_lastKey st = Some (fst e)" | "ms_lastKey st \<noteq> Some (fst e)" "snd (snd e) \<and> dropTombs"
    | "ms_lastKey st \<noteq> Some (fst e)" "\<not> (snd (snd e) \<and> dropTombs)" by blast
  then show thesis
  proof cases
    case 1
    then have "merge_inv dropTombs M (pend[i := es]) (ms_lastKey st1) out"
      using skip_turn [of dropTombs M pend e out i es] r(3) h(3) st1(2) by simp
    moreover have "take_head dropTombs e st1 = (None, st1)" using 1 st1(2) by (simp add: take_head_def)
    ultimately show thesis
      using that [of st1 i e es out] turn h(1,2) m1 st1(1) keys' by (simp add: loop_rep_def)
  next
    case 2
    let ?st = "st1\<lparr>ms_lastKey := Some (fst e)\<rparr>"
    have "merge_inv dropTombs M (pend[i := es]) (Some (fst e)) out"
      using next_turn [OF r(3) h(3) 2(1)] 2(2) by simp
    moreover have "meta_rep wz out ?st" using m1 by (simp add: meta_rep_def)
    moreover have "take_head dropTombs e st1 = (None, ?st)" using 2 st1(2) by (simp add: take_head_def)
    ultimately show thesis
      using that [of ?st i e es out] turn h(1,2) st1'[of ?st] keys' by (simp add: loop_rep_def)
  next
    case 3
    have add: "add_all no_wfaults out wz = (None, ms_w st1)" using m1 by (simp add: meta_rep_def)
    have "list_all (\<lambda>e. fst e \<noteq> []) (out @ [e])" using keys key by (simp add: list_all_iff)
    then obtain w where w: "Add no_wfaults (fst e) (fst (snd e)) (snd (snd e)) (ms_w st1) = (None, w)"
      using add_all_snoc_ok [OF wz _ add, of "fst e" "fst (snd e)" "snd (snd e)"] by auto
    define st' where "st' = st1\<lparr>ms_w := w,
             ms_minKey := (if ms_minKey st1 = None then copy_slice (Some (fst e)) else ms_minKey st1),
             ms_maxKey := copy_slice (Some (fst e)), ms_numEntries := ms_numEntries st1 + 1,
             ms_lastKey := Some (fst e)\<rparr>"
    from meta_rep_snoc [OF m1 w key] have "meta_rep wz (out @ [e]) st'" by (simp add: meta_rep_def st'_def)
    moreover have "merge_inv dropTombs M (pend[i := es]) (ms_lastKey st') (out @ [e])"
      using next_turn [OF r(3) h(3) 3(1)] 3(2) by (simp add: st'_def)
    moreover have "take_head dropTombs e st1 = (None, st')"
      using 3 st1(2) w by (auto simp: take_head_def st'_def)
    ultimately show thesis
      using that [of st' i e es "out @ [e]"] turn h(1,2) st1' [of st'] keys' key by (simp add: loop_rep_def st'_def)
  qed
qed

lemma merge_loop_ok:
  assumes ids: "sorted_wrt (<) (map fm_FileID files)" and w: "NewWriter no_wfaults bsz = Inr wz"
    and cf: "reads_live cf files pend" and rep: "loop_rep dropTombs M (map fm_FileID files) rs wz pend out st"
  shows "\<exists>out' st'. merge_loop cf files rs dropTombs st = Some (None, st') \<and> meta_rep wz out' st' \<and>
    sorted_table out' \<and> (\<forall>k. map_of (entries_table out') k = keep dropTombs (M k)) \<and>
    weight out' \<le> weight out + weight (concat pend) \<and> (\<forall>e \<in> set out'. fst e \<noteq> [])"
  using cf rep
proof (induction "length (concat pend)" arbitrary: pend out st rule: less_induct)
  case less
  show ?case
  proof (cases "ms_heap st = []")
    case True
    have r: "streams_rep (map fm_FileID files) rs pend st" "meta_rep wz out st"
      "merge_inv dropTombs M pend (ms_lastKey st) out" "\<forall>e \<in> set out. fst e \<noteq> []"
      using less.prems(2) by (simp_all add: loop_rep_def)
    have "live pend = {}" using r(1) True by (simp add: streams_rep_def mset_set_empty_iff)
    then have "\<forall>p \<in> set pend. p = []" by (auto simp: live_def in_set_conv_nth)
    from merge_inv_end [OF r(3) this] r(2,4) True show ?thesis
      by (subst merge_loop.simps) auto
  next
    case False
    obtain i e es out' st' where t: "merge_turn cf files rs dropTombs st = (None, st')"
      "i < length pend" "pend ! i = e # es"
      "loop_rep dropTombs M (map fm_FileID files) rs wz (pend[i := es]) out' st'" "out' = out \<or> out' = out @ [e]"
      by (rule merge_turn_ok [OF less.prems ids w False])
    have cf': "reads_live cf files (pend[i := es])" using reads_live_update [OF less.prems(1) t(3)] .
    have smaller: "length (concat (pend[i := es])) < length (concat pend)"
      using concat_update(2) [OF t(2,3)] by simp
    have "weight out' + weight (concat (pend[i := es])) \<le> weight out + weight (concat pend)"
      using concat_update(3) [OF t(2,3)] t(5) by (auto simp: weight_def)
    moreover have "merge_loop cf files rs dropTombs st = merge_loop cf files rs dropTombs st'"
      using False t(1) by (subst merge_loop.simps) simp
    ultimately show ?thesis using less.hyps [OF smaller cf' t(4)] by (auto intro: order_trans)
  qed
qed

subsection \<open>The start of a merge\<close>

text \<open>The file of \<open>f\<close> holds the entries \<open>c f\<close>.\<close>

definition holds :: "dir_map \<Rightarrow> (FileMetadata \<Rightarrow> entry list) \<Rightarrow> FileMetadata \<Rightarrow> bool" where
  "holds d c f \<longleftrightarrow> (\<exists>img. fmlookup d (fm_Path f) = Some img \<and> sst_image img (c f))"

lemma push_heads_fold:
  "length fs = length its \<Longrightarrow> push_heads i fs its h = fold (heap_Push Less)
     (map (\<lambda>j. item_of (i + j) (fm_FileID (fs ! j)) (its ! j)) (filter (\<lambda>j. si_valid (its ! j)) [0..<length fs])) h"
proof (induction fs its arbitrary: i h rule: list_induct2)
  case (Cons f fs it its)
  have up: "[0..<length (f # fs)] = 0 # map Suc [0..<length fs]" by (simp add: map_Suc_upt upt_conv_Cons del: upt_Suc)
  show ?case unfolding up by (simp add: Cons.IH filter_map comp_def)
qed simp

abbreviation seen_entries :: "entry list \<Rightarrow> entry list" where
  "seen_entries es \<equiv> map seen_entry es"

lemma fst_seen_entry [simp]: "fst (seen_entry e) = fst e"
  by (simp add: seen_entry_def)

lemma weight_seen [simp]: "weight (seen_entries es) = weight es"
  by (induction es) (auto simp: weight_def seen_entry_def entry_weight_def entry_value_def split: prod.splits)

text \<open>An iterator that stands at the first of the entries \<open>es\<close>, or is at its end if there are none.\<close>

definition begins :: "Reader \<Rightarrow> SSTableIterator \<Rightarrow> entry list \<Rightarrow> bool" where
  "begins r it es \<longleftrightarrow>
     (if es = [] then \<not> si_valid it else si_valid it \<and> si_shows it (hd es) \<and> serves_at r it (tl es))"

lemma seek_begins:
  assumes "serves r es"
  shows "begins r (SeekToFirst no_rfaults r rd_NewIterator) (seen_entries es)"
proof (cases es)
  case Nil
  then show ?thesis using sst.seek_end [of r rd_NewIterator] assms by (simp add: begins_def)
next
  case (Cons e rest)
  then show ?thesis
    using sst.seek_next [OF assms, of "seen_entry e" "seen_entries rest" rd_NewIterator] by (simp add: begins_def)
qed

lemma start_rep:
  fixes files :: "FileMetadata list" and ris :: "(Reader \<times> SSTableIterator) list"
  assumes ris: "length ris = length files"
    and heads: "\<forall>i < length files. begins (fst (ris ! i)) (snd (ris ! i)) (seen_entries (c (files ! i)))"
  defines "pend \<equiv> map (\<lambda>f. seen_entries (c f)) files"
  shows "streams_rep (map fm_FileID files) (map fst ris) pend
     \<lparr>ms_heap = heap_Init Less (push_heads 0 files (map snd ris) []), ms_its = map snd ris, ms_w = w,
      ms_lastKey = None, ms_numEntries = 0, ms_minKey = None, ms_maxKey = None\<rparr>"
proof -
  let ?ids = "map fm_FileID files" and ?its = "map snd ris"
  have it: "if c (files ! i) = [] then \<not> si_valid (?its ! i)
      else si_valid (?its ! i) \<and> si_shows (?its ! i) (hd (pend ! i)) \<and> serves_at (fst (ris ! i)) (?its ! i) (tl (pend ! i))"
    if i: "i < length files" for i
    using heads i ris by (simp add: begins_def pend_def)
  have val: "si_valid (?its ! i) \<longleftrightarrow> pend ! i \<noteq> []" if "i < length files" for i
    using it [OF that] that by (auto simp: pend_def split: if_splits)
  let ?items = "map (\<lambda>j. item_of (0 + j) (fm_FileID (files ! j)) (?its ! j)) (filter (\<lambda>j. si_valid (?its ! j)) [0..<length files])"
  have set: "set (filter (\<lambda>j. si_valid (?its ! j)) [0..<length files]) = live pend"
    using val by (auto simp: live_def pend_def)
  have items: "mset ?items = image_mset (head_item ?ids pend) (mset_set (live pend))"
  proof -
    have "item_of j (fm_FileID (files ! j)) (?its ! j) = head_item ?ids pend j" if j: "j \<in> live pend" for j
    proof -
      have "j < length files" "c (files ! j) \<noteq> []" using j by (auto simp: live_def pend_def)
      then show ?thesis using it [of j] item_of_shows by (simp add: head_item_def Let_def)
    qed
    then have "map (\<lambda>j. item_of (0 + j) (fm_FileID (files ! j)) (?its ! j)) (filter (\<lambda>j. si_valid (?its ! j)) [0..<length files])
        = map (head_item ?ids pend) (filter (\<lambda>j. si_valid (?its ! j)) [0..<length files])"
      using set by (intro map_cong) auto
    moreover have "mset (filter (\<lambda>j. si_valid (?its ! j)) [0..<length files]) = mset_set (live pend)"
      using mset_set_set [of "filter (\<lambda>j. si_valid (?its ! j)) [0..<length files]"]
      unfolding set by (simp only: distinct_filter distinct_upt)
    ultimately show ?thesis by (simp only: mset_map)
  qed
  have "heap Less []" by (simp add: heap_from_def)
  from mh.pq.push_all [OF this, of ?items] have
    "mset (push_heads 0 files ?its []) = image_mset (head_item ?ids pend) (mset_set (live pend))"
    using items ris by (simp add: push_heads_fold)
  moreover have "\<forall>i \<in> live pend. serves_at (map fst ris ! i) (?its ! i) (tl (pend ! i))"
  proof
    fix i assume "i \<in> live pend"
    then have "i < length files" "c (files ! i) \<noteq> []" by (auto simp: live_def pend_def)
    with it [of i] ris show "serves_at (map fst ris ! i) (?its ! i) (tl (pend ! i))" by simp
  qed
  moreover have "length pend = length files" by (simp add: pend_def)
  ultimately show ?thesis using ris by (simp add: streams_rep_def mh.heap_Init_ok)
qed

text \<open>A file that opens but whose first entry cannot be read ends at once, without an error.  A file supplies its
  entries, without failing calls, or it is such a file and supplies nothing.\<close>

definition lost :: "cfaults \<Rightarrow> dir_map \<Rightarrow> FileMetadata \<Rightarrow> bool" where
  "lost cf d f \<longleftrightarrow>
     (case rd_Open (cf_read cf (fm_Path f)) (fmlookup d (fm_Path f)) of
        Inl e \<Rightarrow> False
      | Inr r \<Rightarrow> \<not> si_valid (SeekToFirst (cf_read cf (fm_Path f)) r rd_NewIterator))"

definition supplies :: "cfaults \<Rightarrow> dir_map \<Rightarrow> (FileMetadata \<Rightarrow> entry list) \<Rightarrow> FileMetadata \<Rightarrow> bool" where
  "supplies cf d c f \<longleftrightarrow> cf_read cf (fm_Path f) = no_rfaults \<and> holds d c f \<or> c f = [] \<and> lost cf d f"

lemma holds_supplies [simp]: "holds d c f \<Longrightarrow> supplies no_cfaults d c f"
  by (simp add: supplies_def)

lemma open_all_ok:
  assumes "\<forall>f \<in> set files. supplies cf d c f"
  shows "\<exists>ris. open_all (cf_read cf) d files = Inr ris \<and> length ris = length files \<and>
    (\<forall>i < length files. begins (fst (ris ! i)) (snd (ris ! i)) (seen_entries (c (files ! i))))"
  using assms
proof (induction files)
  case (Cons f fs)
  obtain ris where ris: "open_all (cf_read cf) d fs = Inr ris" "length ris = length fs"
    "\<forall>i < length fs. begins (fst (ris ! i)) (snd (ris ! i)) (seen_entries (c (fs ! i)))"
    using Cons by auto
  obtain r where r: "rd_Open (cf_read cf (fm_Path f)) (fmlookup d (fm_Path f)) = Inr r"
    "begins r (SeekToFirst (cf_read cf (fm_Path f)) r rd_NewIterator) (seen_entries (c f))"
  proof (cases "cf_read cf (fm_Path f) = no_rfaults \<and> holds d c f")
    case True
    then obtain img where img: "fmlookup d (fm_Path f) = Some img" "sst_image img (c f)" by (auto simp: holds_def)
    obtain r where "rd_Open no_rfaults (Some img) = Inr r" "serves r (c f)" using rd_Open_image [OF img(2)] by blast
    then show thesis using that seek_begins True img(1) by simp
  next
    case False
    then have "c f = []" "lost cf d f" using Cons.prems by (auto simp: supplies_def)
    then show thesis using that by (auto simp: lost_def begins_def split: sum.splits)
  qed
  with ris show ?case by (auto simp: nth_Cons' Let_def)
qed simp

subsection \<open>The result of a merge\<close>

text \<open>What the merge of the files \<open>files\<close> with the contents \<open>c\<close> makes of a key.\<close>

definition merged :: "(FileMetadata \<Rightarrow> entry list) \<Rightarrow> FileMetadata list \<Rightarrow> bytes \<Rightarrow> cell option" where
  "merged c files = newest (map c (sort_key fm_FileID files))"

definition plain_cell :: "cell \<Rightarrow> cell" where
  "plain_cell x = (case x of Tomb \<Rightarrow> Tomb | Val v \<Rightarrow> Val (if slice_bytes v = [] then None else Some (slice_bytes v)))"

lemma map_of_seen:
  "map_of (entries_table (seen_entries es)) k = map_option plain_cell (map_of (entries_table es) k)"
  by (induction es) (auto simp: seen_entry_def entry_cell_def entry_value_def plain_cell_def split: prod.splits)

lemma newest_seen:
  "newest (map (\<lambda>f. seen_entries (c f)) fs) k = map_option plain_cell (newest (map c fs) k)"
  by (induction fs) (auto simp: map_of_seen simp del: map_map split: option.splits)

lemma sst_result_plain [simp]: "sst_result (map_option plain_cell x) = sst_result x"
  by (cases x; cases "the x") (auto simp: plain_cell_def)

lemma plain_cell_Tomb [simp]: "plain_cell x = Tomb \<longleftrightarrow> x = Tomb"
  by (cases x) (auto simp: plain_cell_def)

lemma keep_plain: "keep b (map_option plain_cell x) = map_option plain_cell (keep b x)"
  by (cases x) (auto simp: keep_def)

lemma weight_concat: "weight (concat xss) = sum_list (map weight xss)"
  by (induction xss) (auto simp: weight_def)

definition merge_start :: "FileMetadata list \<Rightarrow> SSTableIterator list \<Rightarrow> Writer \<Rightarrow> merge_state" where
  "merge_start files its w = \<lparr>ms_heap = heap_Init Less (push_heads 0 files its []), ms_its = its, ms_w = w,
     ms_lastKey = None, ms_numEntries = 0, ms_minKey = None, ms_maxKey = None\<rparr>"

lemma merge_entries:
  assumes ids: "distinct (map fm_FileID files)" and files: "\<forall>f \<in> set files. supplies cf d c f"
    and cf: "cf_write cf = no_wfaults"
    and weights: "(\<Sum>f\<leftarrow>files. weight (c f)) + 4 < 2 ^ 32" and w: "NewWriter no_wfaults 0 = Inr w"
  obtains ris st out where "open_all (cf_read cf) d (sort_key fm_FileID files) = Inr ris"
    "merge_loop cf (sort_key fm_FileID files) (map fst ris) dropTombs
       (merge_start (sort_key fm_FileID files) (map snd ris) w) = Some (None, st)"
    "meta_rep w out st" "sorted_table out" "writable out"
    "\<forall>k. map_of (entries_table out) k = map_option plain_cell (keep dropTombs (merged c files k))"
proof -
  let ?fs = "sort_key fm_FileID files"
  let ?pend = "map (\<lambda>f. seen_entries (c f)) ?fs"
  have ids': "sorted_wrt (<) (map fm_FileID ?fs)"
    using ids by (simp add: strict_sorted_iff distinct_map)
  obtain ris where ris: "open_all (cf_read cf) d ?fs = Inr ris" "length ris = length ?fs"
    "\<forall>i < length ?fs. begins (fst (ris ! i)) (snd (ris ! i)) (seen_entries (c (?fs ! i)))"
    using open_all_ok [of ?fs cf d c] files by auto
  have tables: "writable (c f)" "sorted_table (c f)" if "f \<in> set files" for f
    using bspec [OF files that] sst_imageD by (auto simp: supplies_def holds_def writable_def)
  have "cf_read cf (fm_Path (?fs ! i)) = no_rfaults" if "i \<in> live ?pend" for i
  proof -
    have i: "i < length ?fs" "c (?fs ! i) \<noteq> []" using that by (auto simp: live_def)
    then have "?fs ! i \<in> set files" by (metis nth_mem set_sort)
    then show ?thesis using files i(2) by (auto simp: supplies_def)
  qed
  then have live: "reads_live cf ?fs ?pend" using cf by (simp add: reads_live_def)
  let ?st = "merge_start ?fs (map snd ris) w"
  have "streams_rep (map fm_FileID ?fs) (map fst ris) ?pend ?st"
    unfolding merge_start_def by (rule start_rep [OF ris(2,3)])
  moreover have "merge_inv dropTombs (newest ?pend) ?pend None []"
    by (rule merge_inv_start) (use tables in \<open>auto simp: comp_def\<close>)
  moreover have "\<forall>e \<in> set (concat ?pend). fst e \<noteq> []"
    using tables(1) by (auto simp: writable_def list_all_iff)
  ultimately have "loop_rep dropTombs (newest ?pend) (map fm_FileID ?fs) (map fst ris) w ?pend [] ?st"
    by (simp add: loop_rep_def meta_rep_def merge_start_def)
  from merge_loop_ok [OF ids' w live this] obtain out st where
    out: "merge_loop cf ?fs (map fst ris) dropTombs ?st = Some (None, st)" "meta_rep w out st"
    "sorted_table out" "\<forall>k. map_of (entries_table out) k = keep dropTombs (newest ?pend k)"
    "weight out \<le> weight (concat ?pend)" "\<forall>e \<in> set out. fst e \<noteq> []"
    by (auto simp: weight_def)
  have "weight (concat ?pend) = sum_list (map (\<lambda>f. weight (c f)) ?fs)"
    by (simp add: weight_concat comp_def)
  also have "\<dots> = sum_mset (image_mset (\<lambda>f. weight (c f)) (mset ?fs))"
    by (metis mset_map sum_mset_sum_list)
  also have "\<dots> = (\<Sum>f\<leftarrow>files. weight (c f))"
    by (metis mset_map mset_sort sum_mset_sum_list)
  finally have "writable out"
    using out(5,6) weights by (simp add: writable_def list_all_iff weight_def)
  with that [OF ris(1) out(1-3)] out(4) show thesis by (simp add: newest_seen keep_plain merged_def)
qed

text \<open>A merge in which no call reports an error returns, and writes the file of the merged entries.\<close>

definition output_meta :: "u64 \<Rightarrow> string \<Rightarrow> bytes \<Rightarrow> entry list \<Rightarrow> FileMetadata" where
  "output_meta outputID path img out = \<lparr>fm_FileID = outputID, fm_Path = path, fm_Size = int (length img),
     fm_Level = 0, fm_MinKey = (if out = [] then None else Some (fst (hd out))),
     fm_MaxKey = (if out = [] then None else Some (fst (last out))), fm_Entries = of_nat (length out)\<rparr>"

lemma merge_files_ok:
  assumes ids: "distinct (map fm_FileID files)" and files: "\<forall>f \<in> set files. supplies cf d c f"
    and cf: "cf_write cf = no_wfaults" "\<not> cf_stat cf"
    and weights: "(\<Sum>f\<leftarrow>files. weight (c f)) + 4 < 2 ^ 32"
  obtains img out where
    "merge_files cf d e files outputID =
       Some (Inr (sst_path (en_dir e) outputID, output_meta outputID (sst_path (en_dir e) outputID) img out),
             fmupd (sst_path (en_dir e) outputID) img d)"
    "sst_image img out"
    "\<forall>k. map_of (entries_table out) k =
       map_option plain_cell (keep (length files = length (en_files e)) (merged c files k))"
proof -
  obtain w where w: "NewWriter no_wfaults 0 = Inr w" using NewWriter_rep [of 0] by blast
  obtain ris st out where m: "open_all (cf_read cf) d (sort_key fm_FileID files) = Inr ris"
    "merge_loop cf (sort_key fm_FileID files) (map fst ris) (length files = length (en_files e))
       (merge_start (sort_key fm_FileID files) (map snd ris) w) = Some (None, st)"
    and out: "meta_rep w out st" "sorted_table out" "writable out"
    "\<forall>k. map_of (entries_table out) k =
       map_option plain_cell (keep (length files = length (en_files e)) (merged c files k))"
    by (rule merge_entries [OF ids files cf(1) weights w])
  obtain f where f: "Build (map fst out) bitsPerKey = Inr f"
    "write_out no_wfaults out w = (None, Some (sst_bytes (cut (block_size 0) [] out) f))"
    using write_out_layout [OF out(3), of 0] w by auto
  define img where "img = sst_bytes (cut (block_size 0) [] out) f"
  have img: "sst_image img out" unfolding img_def by (rule sst_image_cut [OF out(3,2) f(1)])
  have "add_all no_wfaults out w = (None, ms_w st)" using out(1) by (simp add: meta_rep_def)
  then obtain w' where w': "Finish no_wfaults (ms_w st) = (None, w')" "w_out w' = img"
    using f(2) by (auto simp: write_out_def img_def split: prod.splits)
  have "merge_files cf d e files outputID =
       Some (Inr (sst_path (en_dir e) outputID, output_meta outputID (sst_path (en_dir e) outputID) img out),
             fmupd (sst_path (en_dir e) outputID) img d)"
    using m w w' out(1) cf
    by (simp add: merge_files_def Let_def merge_start_def output_meta_def meta_rep_def)
  from that [OF this img out(4)] show thesis .
qed

end
