(* ===== verification/Compaction_Round.thy ===== *)
theory Compaction_Round
  imports Compaction
begin

text \<open>
  What one round of the compaction engine does: the size tiers against a reference definition, the
  choice of a tier, the files and the directory after \<^verbatim>\<open>RunOnce\<close>, and what becomes of the value of a
  key, which is preserved when the selected files are the newest ones and can be lost when they are not.
\<close>

subsection \<open>Tiers\<close>

text \<open>When a file joins the tier that begins with \<open>g\<close>, and the tiers of a list sorted by size.\<close>

definition joins :: "FileMetadata \<Rightarrow> FileMetadata \<Rightarrow> bool" where
  "joins g f \<longleftrightarrow> fm_Size f < 2 * max 1 (fm_Size g)"

function tiers_of :: "FileMetadata list \<Rightarrow> FileMetadata list list" where
  "tiers_of [] = []"
| "tiers_of (g # fs) = (g # takeWhile (joins g) fs) # tiers_of (dropWhile (joins g) fs)"
  by pat_completeness auto
termination by (relation "measure length") (auto simp: le_imp_less_Suc length_dropWhile_le)

definition tame_size :: "FileMetadata \<Rightarrow> bool" where
  "tame_size f \<longleftrightarrow> 0 \<le> fm_Size f \<and> fm_Size f < 2 ^ 52"

lemma ratio_joins:
  assumes "tame_size g" "tame_size f"
  shows "f64_less (f64_div (f64_of_int (fm_Size f)) (f64_of_int (if fm_Size g = 0 then 1 else fm_Size g))) sizeTierRatio
    \<longleftrightarrow> joins g f"
  using assms f64_quotient_less_two [of "fm_Size f" "if fm_Size g = 0 then 1 else fm_Size g"]
  by (auto simp: tame_size_def joins_def sizeTierRatio_def max_def)

lemma group_loop_tiers:
  "list_all tame_size (g # fs) \<Longrightarrow>
   group_loop fs tiers (g # cur) = tiers @ (g # cur @ takeWhile (joins g) fs) # tiers_of (dropWhile (joins g) fs)"
proof (induction fs arbitrary: tiers g cur)
  case (Cons f fs)
  then have eq: "f64_less (f64_div (f64_of_int (fm_Size f)) (f64_of_int (if fm_Size g = 0 then 1 else fm_Size g))) sizeTierRatio
      \<longleftrightarrow> joins g f" using ratio_joins by simp
  show ?case
    using Cons.IH [of g tiers "cur @ [f]"] Cons.IH [of f "tiers @ [g # cur]" "[]"] Cons.prems eq
    by (simp add: Let_def cong: if_cong)
qed simp

lemma groupBySize_tiers:
  assumes "list_all tame_size files"
  shows "groupBySize files = tiers_of (sort_key fm_Size files)"
proof (cases "sort_key fm_Size files")
  case Nil
  then have "files = []" by (metis set_empty set_sort)
  then show ?thesis by (simp add: groupBySize_def)
next
  case (Cons g fs)
  moreover have "list_all tame_size (sort_key fm_Size files)" using assms by (simp add: list_all_iff)
  moreover have "files \<noteq> []" using Cons by auto
  ultimately show ?thesis using group_loop_tiers [of g fs "[]" "[]"] by (simp add: groupBySize_def)
qed

lemma concat_tiers_of: "concat (tiers_of fs) = fs"
  by (induction fs rule: tiers_of.induct) simp_all

lemma tiers_of_nonempty: "[] \<notin> set (tiers_of fs)"
  by (induction fs rule: tiers_of.induct) auto

text \<open>Without a bound on the sizes the grouping is still a partition.\<close>

lemma group_loop_concat: "concat (group_loop fs tiers cur) = concat tiers @ cur @ fs"
  by (induction fs tiers cur rule: group_loop.induct) (auto simp: Let_def)

lemma mset_groupBySize: "mset (concat (groupBySize files)) = mset files"
  by (simp add: groupBySize_def group_loop_concat)

subsection \<open>The selected tier\<close>

lemma select_tier_cases:
  "select_tier th tiers sel = sel \<or>
   select_tier th tiers sel \<in> set tiers \<and> th \<le> int (length (select_tier th tiers sel))"
  by (induction th tiers sel rule: select_tier.induct) auto

lemma select_tier_longest:
  "length sel \<le> length (select_tier th tiers sel) \<and>
   (\<forall>t \<in> set tiers. th \<le> int (length t) \<longrightarrow> length t \<le> length (select_tier th tiers sel))"
  by (induction th tiers sel rule: select_tier.induct) (auto intro: order_trans)

definition selected_files :: "Engine \<Rightarrow> FileMetadata list" where
  "selected_files e = select_tier (en_threshold e) (groupBySize (en_files e)) []"

lemma selected_files_sub:
  "mset (selected_files e) \<subseteq># mset (en_files e)"
proof -
  have "mset t \<subseteq># mset (concat ts)" if "t \<in> set ts" for t :: "FileMetadata list" and ts
    using that by (induction ts) (auto intro: subset_mset.add_increasing subset_mset.add_increasing2)
  moreover have "selected_files e = [] \<or> selected_files e \<in> set (groupBySize (en_files e))"
    using select_tier_cases by (auto simp: selected_files_def)
  ultimately show ?thesis by (metis empty_le mset.simps(1) mset_groupBySize)
qed

lemma needs_selected:
  assumes "0 < en_threshold e"
  shows "NeedsCompaction e \<longleftrightarrow> selected_files e \<noteq> []"
proof
  assume "NeedsCompaction e"
  then obtain t where t: "t \<in> set (groupBySize (en_files e))" "en_threshold e \<le> int (length t)"
    by (auto simp: NeedsCompaction_def list_ex_iff)
  then have "length t \<le> length (selected_files e)" using select_tier_longest by (auto simp: selected_files_def)
  moreover have "0 < length t" using t(2) assms by linarith
  ultimately show "selected_files e \<noteq> []" by auto
next
  assume "selected_files e \<noteq> []"
  then show "NeedsCompaction e"
    using select_tier_cases [of "en_threshold e" "groupBySize (en_files e)" "[]"]
    by (auto simp: NeedsCompaction_def list_ex_iff selected_files_def)
qed

subsection \<open>The newest cell among files with distinct identifiers\<close>

abbreviation cell_in :: "(FileMetadata \<Rightarrow> entry list) \<Rightarrow> FileMetadata \<Rightarrow> bytes \<Rightarrow> cell option" where
  "cell_in c f k \<equiv> map_of (entries_table (c f)) k"

lemma newest_None_iff: "newest ts k = None \<longleftrightarrow> (\<forall>t \<in> set ts. map_of (entries_table t) k = None)"
  by (induction ts) (auto split: option.splits)

lemma newest_sorted_iff:
  assumes "sorted_wrt (<) (map fm_FileID fs)"
  shows "newest (map c fs) k = Some x \<longleftrightarrow>
    (\<exists>f \<in> set fs. cell_in c f k = Some x \<and> (\<forall>g \<in> set fs. fm_FileID f < fm_FileID g \<longrightarrow> cell_in c g k = None))"
  using assms
proof (induction fs)
  case (Cons f fs)
  then have above: "\<forall>g \<in> set fs. fm_FileID f < fm_FileID g" by simp
  show ?case
  proof (cases "newest (map c fs) k")
    case None
    then have "\<forall>g \<in> set fs. cell_in c g k = None" by (simp add: newest_None_iff)
    with None show ?thesis by auto
  next
    case (Some y)
    have "\<exists>g \<in> set fs. cell_in c g k \<noteq> None" using Some newest_None_iff [of "map c fs" k] by auto
    then have "newest (map c (f # fs)) k = Some x \<longleftrightarrow> newest (map c fs) k = Some x" using Some by simp
    also have "\<dots> \<longleftrightarrow> (\<exists>f \<in> set fs. cell_in c f k = Some x \<and>
        (\<forall>g \<in> set fs. fm_FileID f < fm_FileID g \<longrightarrow> cell_in c g k = None))"
      using Cons by simp
    finally show ?thesis using above \<open>\<exists>g \<in> set fs. cell_in c g k \<noteq> None\<close> by fastforce
  qed
qed simp

lemma merged_None_iff: "merged c fs k = None \<longleftrightarrow> (\<forall>f \<in> set fs. cell_in c f k = None)"
  by (simp add: merged_def newest_None_iff)

lemma merged_Some_iff:
  assumes "distinct (map fm_FileID fs)"
  shows "merged c fs k = Some x \<longleftrightarrow>
    (\<exists>f \<in> set fs. cell_in c f k = Some x \<and> (\<forall>g \<in> set fs. fm_FileID f < fm_FileID g \<longrightarrow> cell_in c g k = None))"
proof -
  have "sorted_wrt (<) (map fm_FileID (sort_key fm_FileID fs))"
    using assms by (simp add: strict_sorted_iff distinct_map)
  then show ?thesis unfolding merged_def by (simp add: newest_sorted_iff)
qed

lemma merged_same_files:
  assumes "set fs = set gs" "distinct (map fm_FileID fs)" "distinct (map fm_FileID gs)"
  shows "merged c fs k = merged c gs k"
proof (cases "merged c fs k")
  case None
  with assms(1) show ?thesis by (simp add: merged_None_iff [THEN iffD2] merged_None_iff)
next
  case (Some x)
  then have "merged c gs k = Some x" using assms by (simp only: merged_Some_iff)
  with Some show ?thesis by simp
qed

subsection \<open>The state after a round\<close>

definition rest_files :: "Engine \<Rightarrow> FileMetadata list" where
  "rest_files e = filter (\<lambda>f. fm_FileID f \<notin> set (map fm_FileID (selected_files e))) (en_files e)"

lemma lookup_remove_all:
  "fmlookup (remove_all (\<lambda>_. False) fs d) p = (if p \<in> fm_Path ` set fs then None else fmlookup d p)"
  by (induction fs arbitrary: d) auto

text \<open>Every file of the engine is in the directory under the name of its identifier, with the entries
  \<open>c\<close>.\<close>

definition stored :: "dir_map \<Rightarrow> (FileMetadata \<Rightarrow> entry list) \<Rightarrow> Engine \<Rightarrow> bool" where
  "stored d c e \<longleftrightarrow> distinct (map fm_FileID (en_files e)) \<and>
     (\<forall>f \<in> set (en_files e). fm_Path f = sst_path (en_dir e) (fm_FileID f) \<and> holds d c f)"

lemma selected_filesD:
  assumes "distinct (map fm_FileID (en_files e))"
  shows "set (selected_files e) \<subseteq> set (en_files e)" "distinct (map fm_FileID (selected_files e))"
    "set (en_files e) = set (selected_files e) \<union> set (rest_files e)"
    "length (en_files e) = length (selected_files e) + length (rest_files e)"
proof -
  show sub: "set (selected_files e) \<subseteq> set (en_files e)"
    using selected_files_sub [of e] by (metis set_mset_mono set_mset_mset)
  obtain gs where gs: "mset (en_files e) = mset (selected_files e) + mset gs"
    using selected_files_sub [of e] by (metis ex_mset subset_mset.add_diff_inverse)
  have "mset (map fm_FileID (en_files e)) = mset (map fm_FileID (selected_files e @ gs))" using gs by simp
  with assms have d: "distinct (map fm_FileID (selected_files e @ gs))" by (metis mset_eq_imp_distinct_iff)
  then show "distinct (map fm_FileID (selected_files e))" by simp
  have "mset (rest_files e) = filter_mset (\<lambda>f. fm_FileID f \<notin> set (map fm_FileID (selected_files e))) (mset (selected_files e @ gs))"
    using gs by (simp add: rest_files_def)
  also have "\<dots> = mset gs" 
  proof -
    have "filter (\<lambda>f. fm_FileID f \<notin> set (map fm_FileID (selected_files e))) (selected_files e @ gs) = gs"
      using d by (auto simp: filter_id_conv)
    then show ?thesis by (metis mset_filter)
  qed
  finally have rest: "mset (en_files e) = mset (selected_files e) + mset (rest_files e)" using gs by simp
  then show "set (en_files e) = set (selected_files e) \<union> set (rest_files e)"
    by (metis set_mset_mset set_mset_union)
  show "length (en_files e) = length (selected_files e) + length (rest_files e)"
    using rest by (metis size_mset size_union)
qed

lemma rest_paths:
  assumes "stored d c e"
  shows "fm_Path ` set (rest_files e) = fm_Path ` set (en_files e) - fm_Path ` set (selected_files e)"
proof -
  have path: "fm_Path f = sst_path (en_dir e) (fm_FileID f)" if "f \<in> set (en_files e)" for f
    using assms that by (simp add: stored_def)
  have "set (selected_files e) \<subseteq> set (en_files e)" using assms selected_filesD(1) by (simp add: stored_def)
  then have "fm_Path f \<in> fm_Path ` set (selected_files e) \<longleftrightarrow> fm_FileID f \<in> fm_FileID ` set (selected_files e)"
    if "f \<in> set (en_files e)" for f
    using path that by (force simp: subset_iff)
  then show ?thesis by (auto simp: rest_files_def)
qed

text \<open>A round in which no call reports an error, on files that supply the entries \<open>c\<close>.\<close>

lemma RunOnce_supplied:
  assumes run: "\<not> en_running e" "selected_files e \<noteq> []" and ids: "distinct (map fm_FileID (en_files e))"
    and files: "\<forall>f \<in> set (selected_files e). supplies cf d c f"
    and cf: "cf_write cf = no_wfaults" "\<not> cf_stat cf" "cf_remove cf = (\<lambda>_. False)"
    and weights: "(\<Sum>f\<leftarrow>selected_files e. weight (c f)) + 4 < 2 ^ 32"
  obtains img out e' d' where
    "RunOnce cf d e outputID = Some (Inr (length (selected_files e)), e', d')"
    "e' = e\<lparr>en_files := rest_files e @ [output_meta outputID (sst_path (en_dir e) outputID) img out]\<rparr>"
    "sst_image img out"
    "\<forall>k. map_of (entries_table out) k = map_option plain_cell (keep (rest_files e = []) (merged c (selected_files e) k))"
    "\<forall>p. fmlookup d' p = (if p \<in> fm_Path ` set (selected_files e) then None
        else if p = sst_path (en_dir e) outputID then Some img else fmlookup d p)"
proof -
  note sel = selected_filesD [OF ids]
  have all: "length (selected_files e) = length (en_files e) \<longleftrightarrow> rest_files e = []" using sel(4) by simp
  obtain img out where m:
    "merge_files cf d (e\<lparr>en_running := True\<rparr>) (selected_files e) outputID =
       Some (Inr (sst_path (en_dir e) outputID, output_meta outputID (sst_path (en_dir e) outputID) img out),
             fmupd (sst_path (en_dir e) outputID) img d)"
    "sst_image img out"
    "\<forall>k. map_of (entries_table out) k = map_option plain_cell (keep (rest_files e = []) (merged c (selected_files e) k))"
    by (rule merge_files_ok [OF sel(2) files cf(1,2) weights, of "e\<lparr>en_running := True\<rparr>" outputID])
      (simp add: all)
  let ?e = "e\<lparr>en_files := rest_files e @ [output_meta outputID (sst_path (en_dir e) outputID) img out]\<rparr>"
  let ?d = "remove_all (\<lambda>_. False) (selected_files e) (fmupd (sst_path (en_dir e) outputID) img d)"
  have "RunOnce cf d e outputID = Some (Inr (length (selected_files e)), ?e, ?d)"
    using run m(1) cf(3) by (simp add: RunOnce_def Let_def selected_files_def [symmetric] rest_files_def)
  with m show thesis by (intro that [of ?e ?d img out]) (auto simp: lookup_remove_all)
qed

lemma RunOnce_ok:
  assumes run: "\<not> en_running e" "selected_files e \<noteq> []" and st: "stored d c e"
    and fresh: "outputID \<notin> fm_FileID ` set (en_files e)"
    and weights: "(\<Sum>f\<leftarrow>selected_files e. weight (c f)) + 4 < 2 ^ 32"
  obtains img out e' d' where
    "RunOnce no_cfaults d e outputID = Some (Inr (length (selected_files e)), e', d')"
    "e' = e\<lparr>en_files := rest_files e @ [output_meta outputID (sst_path (en_dir e) outputID) img out]\<rparr>"
    "sst_image img out"
    "\<forall>k. map_of (entries_table out) k = map_option plain_cell (keep (rest_files e = []) (merged c (selected_files e) k))"
    "\<forall>p. fmlookup d' p = (if p \<in> fm_Path ` set (selected_files e) then None
        else if p = sst_path (en_dir e) outputID then Some img else fmlookup d p)"
proof -
  have ids: "distinct (map fm_FileID (en_files e))" using st by (simp add: stored_def)
  have files: "\<forall>f \<in> set (selected_files e). supplies no_cfaults d c f"
    using st selected_filesD(1) [OF ids] by (auto simp: stored_def)
  have cf: "cf_write no_cfaults = no_wfaults" "\<not> cf_stat no_cfaults" "cf_remove no_cfaults = (\<lambda>_. False)"
    by (simp_all add: no_cfaults_def)
  show thesis by (rule RunOnce_supplied [OF run ids files cf weights]) (rule that)
qed

lemma stored_after_round:
  assumes st: "stored d c e" and fresh: "outputID \<notin> fm_FileID ` set (en_files e)" and img: "sst_image img out"
    and d': "\<forall>p. fmlookup d' p = (if p \<in> fm_Path ` set (selected_files e) then None
        else if p = sst_path (en_dir e) outputID then Some img else fmlookup d p)"
  defines "meta \<equiv> output_meta outputID (sst_path (en_dir e) outputID) img out"
  shows "stored d' (c(meta := out)) (e\<lparr>en_files := rest_files e @ [meta]\<rparr>)"
proof -
  have ids: "distinct (map fm_FileID (en_files e))" using st by (simp add: stored_def)
  note sel = selected_filesD [OF ids]
  have path: "fm_Path f = sst_path (en_dir e) (fm_FileID f)" if "f \<in> set (en_files e)" for f
    using st that by (simp add: stored_def)
  have meta: "fm_FileID meta = outputID" "fm_Path meta = sst_path (en_dir e) outputID"
    by (simp_all add: meta_def output_meta_def)
  have sub: "set (rest_files e) \<subseteq> set (en_files e)" by (auto simp: rest_files_def)
  have out: "sst_path (en_dir e) outputID \<notin> fm_Path ` set (en_files e)"
    using fresh path by (auto simp: image_iff)
  have "distinct (map fm_FileID (rest_files e))" using ids by (simp add: rest_files_def distinct_map_filter)
  moreover have "outputID \<notin> fm_FileID ` set (rest_files e)" using fresh sub by blast
  moreover have "holds d' (c(meta := out)) meta"
    using d' img out sel(1) meta by (auto simp: holds_def image_iff)
  moreover have "holds d' (c(meta := out)) f" if f: "f \<in> set (rest_files e)" for f
  proof -
    have "fm_FileID f \<notin> fm_FileID ` set (selected_files e)" using f by (simp add: rest_files_def)
    then have "fm_Path f \<notin> fm_Path ` set (selected_files e)"
      using path f sub sel(1) by (force simp: subset_iff)
    moreover have "fm_Path f \<noteq> sst_path (en_dir e) outputID" using out f sub by (metis imageI subsetD)
    moreover have "f \<noteq> meta" using meta(1) fresh f sub by auto
    moreover have "holds d c f" using st f sub by (auto simp: stored_def)
    ultimately show ?thesis using d' by (simp add: holds_def)
  qed
  ultimately show ?thesis using meta path sub by (auto simp: stored_def)
qed

subsection \<open>Lookups across a round\<close>

text \<open>What a reader of the files sees of a key: no value if the key is absent or deleted.\<close>

definition visible :: "cell option \<Rightarrow> slice" where
  "visible x = fst (sst_result x)"

lemma visible_simps [simp]: "visible None = None" "visible (Some Tomb) = None" "visible (Some (Val v)) = Some (slice_bytes v)"
  "visible (map_option plain_cell x) = visible x" "visible (Some (plain_cell y)) = visible (Some y)"
  using sst_result_plain [of "Some y"] by (simp_all add: visible_def)

lemma merged_snoc:
  assumes "\<forall>f \<in> set fs. fm_FileID f < fm_FileID m" "distinct (map fm_FileID fs)"
  shows "merged c (fs @ [m]) k = (case cell_in c m k of None \<Rightarrow> merged c fs k | Some x \<Rightarrow> Some x)"
proof -
  have d: "distinct (map fm_FileID (fs @ [m]))" using assms by auto
  show ?thesis
  proof (cases "cell_in c m k")
    case None
    then have "merged c (fs @ [m]) k = Some x \<longleftrightarrow> merged c fs k = Some x" for x
      unfolding merged_Some_iff [OF d] merged_Some_iff [OF assms(2)] using assms(1) by auto
    then show ?thesis using None by (metis option.simps(4) option.exhaust)
  next
    case (Some x)
    then have "merged c (fs @ [m]) k = Some x"
      unfolding merged_Some_iff [OF d] using assms(1) by (intro bexI [of _ m]) auto
    with Some show ?thesis by simp
  qed
qed

lemma merged_cong: "(\<And>f. f \<in> set fs \<Longrightarrow> c f = c' f) \<Longrightarrow> merged c fs k = merged c' fs k"
  by (auto simp: merged_def intro: arg_cong [of _ _ "\<lambda>ts. newest ts k"])

text \<open>A key is safe in a round if no file that stays behind has a newer entry of it than a merged one.\<close>

definition safe_key :: "(FileMetadata \<Rightarrow> entry list) \<Rightarrow> Engine \<Rightarrow> bytes \<Rightarrow> bool" where
  "safe_key c e k \<longleftrightarrow> (\<forall>f \<in> set (rest_files e). \<forall>g \<in> set (selected_files e).
     cell_in c f k \<noteq> None \<longrightarrow> cell_in c g k \<noteq> None \<longrightarrow> fm_FileID f < fm_FileID g)"

lemma merged_safe:
  assumes ids: "distinct (map fm_FileID (en_files e))" and safe: "safe_key c e k"
  shows "merged c (en_files e) k =
    (case merged c (selected_files e) k of None \<Rightarrow> merged c (rest_files e) k | Some x \<Rightarrow> Some x)"
proof -
  note sel = selected_filesD [OF ids]
  have rest: "distinct (map fm_FileID (rest_files e))" using ids by (simp add: rest_files_def distinct_map_filter)
  show ?thesis
  proof (cases "merged c (selected_files e) k")
    case None
    then have none: "\<forall>f \<in> set (selected_files e). cell_in c f k = None" by (simp add: merged_None_iff)
    then have "merged c (en_files e) k = Some x \<longleftrightarrow> merged c (rest_files e) k = Some x" for x
      unfolding merged_Some_iff [OF ids] merged_Some_iff [OF rest] sel(3) by auto
    then show ?thesis using None by (metis option.simps(4) option.exhaust)
  next
    case (Some x)
    then obtain f where f: "f \<in> set (selected_files e)" "cell_in c f k = Some x"
      "\<forall>g \<in> set (selected_files e). fm_FileID f < fm_FileID g \<longrightarrow> cell_in c g k = None"
      unfolding merged_Some_iff [OF sel(2)] by blast
    have "cell_in c g k = None" if "g \<in> set (rest_files e)" "fm_FileID f < fm_FileID g" for g
      using safe that f(1,2) by (fastforce simp: safe_key_def)
    then have "merged c (en_files e) k = Some x"
      unfolding merged_Some_iff [OF ids] sel(3) using f by auto
    with Some show ?thesis by simp
  qed
qed

text \<open>What the files show of a key after a round: the merged entry lies over everything else.\<close>

definition after_round :: "(FileMetadata \<Rightarrow> entry list) \<Rightarrow> Engine \<Rightarrow> bytes \<Rightarrow> slice" where
  "after_round c e k = (case keep (rest_files e = []) (merged c (selected_files e) k) of
     None \<Rightarrow> visible (merged c (rest_files e) k) | Some x \<Rightarrow> visible (Some x))"

lemma after_safe_round:
  assumes "distinct (map fm_FileID (en_files e))" "safe_key c e k"
  shows "after_round c e k = visible (merged c (en_files e) k)"
proof -
  have "merged c [] k = None" by (simp add: merged_def)
  then show ?thesis
    using merged_safe [OF assms] by (auto simp: after_round_def keep_def split: option.splits)
qed

lemma round_lookup:
  assumes ids: "distinct (map fm_FileID (en_files e))" and new: "\<forall>f \<in> set (en_files e). fm_FileID f < fm_FileID meta"
    and out: "\<forall>k. map_of (entries_table out) k = map_option plain_cell (keep (rest_files e = []) (merged c (selected_files e) k))"
  shows "visible (merged (c(meta := out)) (rest_files e @ [meta]) k) = after_round c e k"
proof -
  have sub: "set (rest_files e) \<subseteq> set (en_files e)" by (auto simp: rest_files_def)
  then have "merged (c(meta := out)) (rest_files e) k = merged c (rest_files e) k"
    using new by (intro merged_cong) auto
  moreover have "distinct (map fm_FileID (rest_files e))" using ids by (simp add: rest_files_def distinct_map_filter)
  ultimately have "merged (c(meta := out)) (rest_files e @ [meta]) k = (case map_of (entries_table out) k of
      None \<Rightarrow> merged c (rest_files e) k | Some x \<Rightarrow> Some x)"
    using merged_snoc [of "rest_files e" meta "c(meta := out)" k] new sub by (auto simp: subset_iff split: option.split)
  then show ?thesis using out by (auto simp: after_round_def split: option.splits)
qed

subsection \<open>Properties\<close>

text \<open>C31. The size tiers against a reference: for files below \<open>2 ^ 52\<close> bytes the floating-point grouping of
  the code is the exact one, in which a file joins the tier of the smallest file whose size (at least 1) is
  more than half of its own; and every file is in exactly one tier.\<close>

theorem tiers_are_ratio_two:
  assumes "list_all tame_size files"
  shows "groupBySize files = tiers_of (sort_key fm_Size files) \<and> mset (concat (groupBySize files)) = mset files \<and>
    [] \<notin> set (groupBySize files)"
  using groupBySize_tiers [OF assms] tiers_of_nonempty by (simp add: concat_tiers_of)

definition file_example :: "u64 \<Rightarrow> int \<Rightarrow> FileMetadata" where
  "file_example i n = \<lparr>fm_FileID = i, fm_Path = sst_path ''data'' i, fm_Size = n, fm_Level = 0,
     fm_MinKey = None, fm_MaxKey = None, fm_Entries = 0\<rparr>"

theorem tiers_are_ratio_two_witness:
  "let files = [file_example 2 100, file_example 3 250, file_example 4 199, file_example 5 0] in
   list_all tame_size files \<and> groupBySize files = tiers_of (sort_key fm_Size files) \<and>
   mset (concat (groupBySize files)) = mset files \<and> [] \<notin> set (groupBySize files) \<and>
   map (map fm_FileID) (groupBySize files) = [[5], [2, 4], [3]]"
proof -
  define files where "files = [file_example 2 100, file_example 3 250, file_example 4 199, file_example 5 0]"
  have t: "list_all tame_size files" by (simp add: files_def tame_size_def file_example_def)
  have "sort_key fm_Size files = [file_example 5 0, file_example 2 100, file_example 4 199, file_example 3 250]"
    by (simp add: files_def file_example_def)
  moreover have "map (map fm_FileID) (tiers_of [file_example 5 0, file_example 2 100, file_example 4 199, file_example 3 250])
      = [[5], [2, 4], [3]]"
    by (simp add: file_example_def joins_def)
  ultimately have "map (map fm_FileID) (tiers_of (sort_key fm_Size files)) = [[5], [2, 4], [3]]" by (simp only:)
  with tiers_are_ratio_two [OF t] t show ?thesis
    unfolding Let_def files_def [symmetric] by (auto simp del: tiers_of.simps)
qed

lemma round_result:
  assumes st: "stored d c e" and fresh: "outputID \<notin> fm_FileID ` set (en_files e)"
    and r: "RunOnce cf d e outputID = Some (Inr n, e', d')"
    "e' = e\<lparr>en_files := rest_files e @ [output_meta outputID (sst_path (en_dir e) outputID) img out]\<rparr>"
    "sst_image img out" "\<forall>k. map_of (entries_table out) k = map_option plain_cell (M k)"
    "\<forall>p. fmlookup d' p = (if p \<in> fm_Path ` set (selected_files e) then None
        else if p = sst_path (en_dir e) outputID then Some img else fmlookup d p)"
  shows "\<exists>e' d' meta r. RunOnce cf d e outputID = Some (Inr n, e', d') \<and>
    en_files e' = rest_files e @ [meta] \<and> fm_FileID meta = outputID \<and>
    (\<forall>f \<in> set (selected_files e). fmlookup d' (fm_Path f) = None) \<and>
    rd_Open no_rfaults (fmlookup d' (fm_Path meta)) = Inr r \<and> (\<forall>k. rd_Get no_rfaults r k = Inr (sst_result (M k)))"
proof -
  let ?meta = "output_meta outputID (sst_path (en_dir e) outputID) img out"
  have "holds d' (c(?meta := out)) ?meta"
    using stored_after_round [OF st fresh r(3,5)] by (simp add: stored_def)
  then have "fmlookup d' (fm_Path ?meta) = Some img"
    using r(3,5) by (auto simp: holds_def output_meta_def split: if_splits)
  moreover obtain rd where "rd_Open no_rfaults (Some img) = Inr rd" "serves rd out"
    using rd_Open_image [OF r(3)] by blast
  ultimately show ?thesis
    using r rd_Get_serves by (intro exI [of _ e'] exI [of _ d'] exI [of _ ?meta] exI [of _ rd])
      (auto simp: output_meta_def)
qed

text \<open>C5. A round of compaction that finds a full tier and in which no call fails ends, replaces the files of
  the tier by one new file and deletes them, and every lookup in the new file answers from the newest of the
  merged files that has the key; a tombstone is left out exactly when the tier held all the files.\<close>

theorem compaction_merges_newest:
  assumes "\<not> en_running e" "0 < en_threshold e" "NeedsCompaction e" "stored d c e"
    and "outputID \<notin> fm_FileID ` set (en_files e)"
    and "(\<Sum>f\<leftarrow>selected_files e. weight (c f)) + 4 < 2 ^ 32"
  shows "\<exists>e' d' meta r. RunOnce no_cfaults d e outputID = Some (Inr (length (selected_files e)), e', d') \<and>
    en_files e' = rest_files e @ [meta] \<and> fm_FileID meta = outputID \<and>
    (\<forall>f \<in> set (selected_files e). fmlookup d' (fm_Path f) = None) \<and>
    rd_Open no_rfaults (fmlookup d' (fm_Path meta)) = Inr r \<and>
    (\<forall>k. rd_Get no_rfaults r k = Inr (sst_result (keep (rest_files e = []) (merged c (selected_files e) k))))"
proof -
  have "selected_files e \<noteq> []" using assms(2,3) needs_selected by blast
  then obtain img out e' d' where r:
    "RunOnce no_cfaults d e outputID = Some (Inr (length (selected_files e)), e', d')"
    "e' = e\<lparr>en_files := rest_files e @ [output_meta outputID (sst_path (en_dir e) outputID) img out]\<rparr>"
    "sst_image img out"
    "\<forall>k. map_of (entries_table out) k = map_option plain_cell (keep (rest_files e = []) (merged c (selected_files e) k))"
    "\<forall>p. fmlookup d' p = (if p \<in> fm_Path ` set (selected_files e) then None
        else if p = sst_path (en_dir e) outputID then Some img else fmlookup d p)"
    by (rule RunOnce_ok [OF assms(1) _ assms(4-6)])
  show ?thesis by (rule round_result [OF assms(4,5) r])
qed

lemma image_exists: "writable es \<Longrightarrow> sorted_table es \<Longrightarrow> \<exists>img. sst_image img es"
  using sst_image_cut write_out_layout [of es] by blast

lemma stored_exists:
  assumes ids: "distinct (map fm_FileID (en_files e))"
    and files: "\<forall>f \<in> set (en_files e). fm_Path f = sst_path (en_dir e) (fm_FileID f) \<and> writable (c f) \<and> sorted_table (c f)"
  shows "\<exists>d. stored d c e \<and> fmdom' d = fm_Path ` set (en_files e)"
proof -
  have "\<forall>f. \<exists>img. f \<in> set (en_files e) \<longrightarrow> sst_image img (c f)" using files image_exists by blast
  from choice [OF this] obtain img where img: "\<forall>f. f \<in> set (en_files e) \<longrightarrow> sst_image (img f) (c f)" ..
  define xs where "xs = map (\<lambda>f. (fm_Path f, img f)) (en_files e)"
  have "inj_on fm_Path (set (en_files e))" using ids files by (auto simp: inj_on_def distinct_map)
  then have "distinct (map fst xs)" using ids by (auto simp: xs_def distinct_map comp_def)
  then have look: "fmlookup (fmap_of_list xs) (fm_Path f) = Some (img f)" if "f \<in> set (en_files e)" for f
    using that by (auto simp: fmlookup_of_list xs_def)
  then have "stored (fmap_of_list xs) c e" using ids files img by (auto simp: stored_def holds_def)
  moreover have "fmdom' (fmap_of_list xs) = fm_Path ` set (en_files e)"
    by (force simp: fmdom'_alt_def fmdom_fmap_of_list fset_of_list.rep_eq xs_def)
  ultimately show ?thesis by blast
qed

text \<open>An engine with two files of equal size in one tier and a larger, unselected one.\<close>

definition engine_example :: Engine where
  "engine_example = \<lparr>en_dir = ''data'', en_files = [file_example 2 40, file_example 3 90, file_example 4 50],
     en_threshold = 2, en_running = False\<rparr>"

definition content_example :: "FileMetadata \<Rightarrow> entry list" where
  "content_example f = (if fm_FileID f = 2 then entries_example
     else if fm_FileID f = 3 then [([1], Some [3], False)] else [([1], None, True), ([2], Some [5], False)])"

lemma selected_example:
  "selected_files engine_example = [file_example 2 40, file_example 4 50]"
  "rest_files engine_example = [file_example 3 90]"
proof -
  have "list_all tame_size (en_files engine_example)"
    by (simp add: engine_example_def tame_size_def file_example_def)
  moreover have "sort_key fm_Size (en_files engine_example) = [file_example 2 40, file_example 4 50, file_example 3 90]"
    by (simp add: engine_example_def file_example_def)
  moreover have "tiers_of [file_example 2 40, file_example 4 50, file_example 3 90] = [[file_example 2 40, file_example 4 50], [file_example 3 90]]"
    by (simp add: joins_def file_example_def)
  ultimately have "groupBySize (en_files engine_example) = [[file_example 2 40, file_example 4 50], [file_example 3 90]]"
    using groupBySize_tiers by simp
  then show "selected_files engine_example = [file_example 2 40, file_example 4 50]"
    by (simp add: selected_files_def engine_example_def)
  then show "rest_files engine_example = [file_example 3 90]"
    by (simp add: rest_files_def engine_example_def file_example_def)
qed

lemma stored_example: "\<exists>d. stored d content_example engine_example"
proof -
  have "writable (content_example f)" "sorted_table (content_example f)" for f
    using entries_example_ok by (simp_all add: content_example_def writable_def entry_weight_def)
  then show ?thesis
    using stored_exists [of engine_example content_example] by (auto simp: engine_example_def file_example_def)
qed

lemma example_ready: "\<not> en_running engine_example" "0 < en_threshold engine_example" "NeedsCompaction engine_example"
  "5 \<notin> fm_FileID ` set (en_files engine_example)"
  "(\<Sum>f\<leftarrow>selected_files engine_example. weight (content_example f)) + 4 < 2 ^ 32"
proof -
  show "\<not> en_running engine_example" and th: "0 < en_threshold engine_example"
    and "5 \<notin> fm_FileID ` set (en_files engine_example)"
    by (simp_all add: engine_example_def file_example_def)
  show "NeedsCompaction engine_example" using needs_selected [OF th] selected_example by simp
  show "(\<Sum>f\<leftarrow>selected_files engine_example. weight (content_example f)) + 4 < 2 ^ 32"
    by (simp add: selected_example content_example_def file_example_def entries_example_def weight_def entry_weight_def)
qed

theorem compaction_merges_newest_witness:
  "\<exists>d. \<not> en_running engine_example \<and> 0 < en_threshold engine_example \<and> NeedsCompaction engine_example \<and>
    stored d content_example engine_example \<and> 5 \<notin> fm_FileID ` set (en_files engine_example) \<and>
    (\<Sum>f\<leftarrow>selected_files engine_example. weight (content_example f)) + 4 < 2 ^ 32 \<and>
    (\<exists>e' d' meta r. RunOnce no_cfaults d engine_example 5 = Some (Inr 2, e', d') \<and>
      en_files e' = [file_example 3 90, meta] \<and> fm_FileID meta = 5 \<and>
      (\<forall>f \<in> set (selected_files engine_example). fmlookup d' (fm_Path f) = None) \<and>
      rd_Open no_rfaults (fmlookup d' (fm_Path meta)) = Inr r \<and>
      rd_Get no_rfaults r [1] = Inr (None, True) \<and> rd_Get no_rfaults r [2] = Inr (Some [5], False) \<and>
      rd_Get no_rfaults r [3] = Inr (Some [], False))"
proof -
  obtain d where d: "stored d content_example engine_example" using stored_example by blast
  have m: "merged content_example (selected_files engine_example) [1] = Some Tomb"
    "merged content_example (selected_files engine_example) [2] = Some (Val (Some [5]))"
    "merged content_example (selected_files engine_example) [3] = Some (Val (Some []))"
    unfolding merged_def selected_example
    by (simp_all add: content_example_def file_example_def entries_example_def entry_cell_def)
  from compaction_merges_newest [OF example_ready(1-3) d example_ready(4,5)] obtain e' d' meta r where
    "RunOnce no_cfaults d engine_example 5 = Some (Inr 2, e', d')" "en_files e' = [file_example 3 90, meta]"
    "fm_FileID meta = 5" "\<forall>f \<in> set (selected_files engine_example). fmlookup d' (fm_Path f) = None"
    "rd_Open no_rfaults (fmlookup d' (fm_Path meta)) = Inr r"
    "\<forall>k. rd_Get no_rfaults r k = Inr (sst_result (keep False (merged content_example (selected_files engine_example) k)))"
    by (auto simp: selected_example)
  with d example_ready m show ?thesis by (auto simp: keep_def intro!: exI [of _ d])
qed

text \<open>C23. The state of the engine is preserved and rounds cannot go on for ever: after a round that finds a full
  tier, with a threshold of at least 2, the engine is idle again, its list has fewer files than before,
  and each of them is in the directory, intact and under its own identifier.\<close>

theorem compaction_round_shrinks:
  assumes "\<not> en_running e" "1 < en_threshold e" "NeedsCompaction e" "stored d c e"
    and "outputID \<notin> fm_FileID ` set (en_files e)"
    and "(\<Sum>f\<leftarrow>selected_files e. weight (c f)) + 4 < 2 ^ 32"
  shows "\<exists>n e' d' c'. RunOnce no_cfaults d e outputID = Some (Inr n, e', d') \<and> \<not> en_running e' \<and>
    length (en_files e') < length (en_files e) \<and> stored d' c' e'"
proof -
  have ids: "distinct (map fm_FileID (en_files e))" using assms(4) by (simp add: stored_def)
  have ne: "selected_files e \<noteq> []" using assms(2,3) needs_selected by auto
  then have long: "1 < length (selected_files e)"
    using select_tier_cases [of "en_threshold e" "groupBySize (en_files e)" "[]"] assms(2)
    by (auto simp: selected_files_def)
  obtain img out e' d' where r:
    "RunOnce no_cfaults d e outputID = Some (Inr (length (selected_files e)), e', d')"
    "e' = e\<lparr>en_files := rest_files e @ [output_meta outputID (sst_path (en_dir e) outputID) img out]\<rparr>"
    "sst_image img out"
    "\<forall>p. fmlookup d' p = (if p \<in> fm_Path ` set (selected_files e) then None
        else if p = sst_path (en_dir e) outputID then Some img else fmlookup d p)"
    by (rule RunOnce_ok [OF assms(1) ne assms(4-6)])
  show ?thesis
    using r(1,2) long selected_filesD(4) [OF ids] stored_after_round [OF assms(4,5) r(3,4)] assms(1)
    by (intro exI conjI) auto
qed

theorem compaction_round_shrinks_witness:
  "\<exists>d. \<not> en_running engine_example \<and> 1 < en_threshold engine_example \<and> NeedsCompaction engine_example \<and>
    stored d content_example engine_example \<and> 5 \<notin> fm_FileID ` set (en_files engine_example) \<and>
    (\<Sum>f\<leftarrow>selected_files engine_example. weight (content_example f)) + 4 < 2 ^ 32 \<and>
    (\<exists>n e' d' c'. RunOnce no_cfaults d engine_example 5 = Some (Inr n, e', d') \<and> \<not> en_running e' \<and>
      length (en_files e') < 3 \<and> stored d' c' e')"
proof -
  obtain d where d: "stored d content_example engine_example" using stored_example by blast
  have th: "1 < en_threshold engine_example" and len: "length (en_files engine_example) = 3"
    by (simp_all add: engine_example_def)
  from compaction_round_shrinks [OF example_ready(1) th example_ready(3) d example_ready(4,5)]
  show ?thesis unfolding len using d th example_ready by blast
qed

lemma merge_files_error:
  assumes "merge_files cf d e files outputID = Some (Inl err, d')" "p \<noteq> sst_path (en_dir e) outputID"
  shows "fmlookup d' p = fmlookup d p"
  using assms
  by (auto simp: merge_files_def Let_def split: sum.splits option.splits prod.splits if_splits)

text \<open>C32. A round that reports an error, whichever call failed, leaves the engine as it was, no longer running,
  and touches no file other than the one it was writing.\<close>

theorem compaction_error_keeps_files:
  assumes "RunOnce cf d e outputID = Some (Inl err, e', d')"
  shows "e' = e \<and> (\<forall>p. p \<noteq> sst_path (en_dir e) outputID \<longrightarrow> fmlookup d' p = fmlookup d p)"
  using assms merge_files_error [of cf d "e\<lparr>en_running := True\<rparr>" "selected_files e" outputID]
  by (auto simp: RunOnce_def Let_def selected_files_def split: if_splits option.splits sum.splits)

theorem compaction_error_keeps_files_witness:
  "\<exists>err. RunOnce no_cfaults fmempty engine_example 5 = Some (Inl err, engine_example, fmempty) \<and>
     engine_example = engine_example \<and>
     (\<forall>p. p \<noteq> sst_path (en_dir engine_example) 5 \<longrightarrow> fmlookup (fmempty :: dir_map) p = fmlookup fmempty p)"
proof -
  have s: "sort_key fm_FileID [file_example 2 40, file_example 4 50] = [file_example 2 40, file_example 4 50]"
    by (simp add: file_example_def)
  have "\<exists>err. RunOnce no_cfaults fmempty engine_example 5 = Some (Inl err, engine_example, fmempty)"
    using selected_example(1) example_ready(1)
    by (simp add: RunOnce_def Let_def selected_files_def [symmetric] merge_files_def s rd_Open_def)
  then obtain err where err: "RunOnce no_cfaults fmempty engine_example 5 = Some (Inl err, engine_example, fmempty)" ..
  from compaction_error_keeps_files [OF this] err show ?thesis by blast
qed

end
