(* ===== verification/Database.thy ===== *)
theory Database
  imports Options Wal Compaction_Round
begin

text \<open>
  The database of \<^verbatim>\<open>db.go\<close>: opening a directory, the client operations, the bodies of the background
  goroutines and closing.  The state of the handle is a record that also holds the SSTable files of the
  directory.  A function whose body gives up its locks in between is the composition of the parts that run
  under one lock each; the next theory interleaves those parts.  The directory name stands for its cleaned
  form, without the metacharacters of \<^verbatim>\<open>filepath.Glob\<close>.
\<close>

subsection \<open>State\<close>

text \<open>The channels for signals have capacity one, so each is a flag; \<open>db_closeChan\<close> says that the
  channel is closed.\<close>

record DB =
  db_opts :: Options
  db_walLog :: WAL
  db_active :: MemTable
  db_immutable :: "MemTable option"
  db_nextFileID :: u64
  db_readers :: "Reader list"
  db_compact :: Engine
  db_flushChan :: bool
  db_compactChan :: bool
  db_closeChan :: bool
  db_closed :: bool
  db_disk :: dir_map

record dfaults =
  df_mkdir :: bool
  df_wal :: faults
  df_read :: "string \<Rightarrow> rfaults"
  df_stat :: "string \<Rightarrow> bool"
  df_write :: wfaults
  df_kept :: nat
  df_compact :: cfaults

definition no_dfaults :: dfaults where
  "no_dfaults = \<lparr>df_mkdir = False, df_wal = no_faults, df_read = (\<lambda>_. no_rfaults), df_stat = (\<lambda>_. False),
     df_write = no_wfaults, df_kept = 0, df_compact = no_cfaults\<rparr>"

lemma no_dfaults_simps [simp]:
  "\<not> df_mkdir no_dfaults" "df_wal no_dfaults = no_faults" "df_read no_dfaults = (\<lambda>_. no_rfaults)"
  "\<not> df_stat no_dfaults p" "df_write no_dfaults = no_wfaults" "df_compact no_dfaults = no_cfaults"
  by (simp_all add: no_dfaults_def)

text \<open>An error is wrapped with \<^verbatim>\<open>%w\<close>, a panic unwinds.\<close>

definition wrap :: "string \<Rightarrow> error \<Rightarrow> error" where
  "wrap s e = (if e = Panic then Panic else Wrap s e)"

definition errClosed :: error where "errClosed = Err ''vaultkv: database is closed''"
definition errEmptyKey :: error where "errEmptyKey = Err ''vaultkv: empty key not allowed''"

definition nextSSTableID :: "DB \<Rightarrow> u64 \<times> DB" where
  "nextSSTableID db = (let n = db_nextFileID db + 1 in (n, db\<lparr>db_nextFileID := n\<rparr>))"

subsection \<open>Writes\<close>

text \<open>The part of \<^verbatim>\<open>Set\<close> before the lock, which appends to the log, and the part under the lock with the
  signal that follows it.\<close>

definition set_log :: "faults \<Rightarrow> bytes \<Rightarrow> slice \<Rightarrow> DB \<Rightarrow> error option \<times> DB" where
  "set_log ft key val db =
     (if db_closed db then (Some errClosed, db)
      else if length key = 0 then (Some errEmptyKey, db)
      else
        (case Append ft \<lparr>rec_Op = OpSet, rec_Key = key, rec_Value = val\<rparr> (db_walLog db) of
           (Some e, w) \<Rightarrow> (Some (wrap ''vaultkv: WAL append: '' e), db\<lparr>db_walLog := w\<rparr>)
         | (None, w) \<Rightarrow> (None, db\<lparr>db_walLog := w\<rparr>)))"

definition set_apply :: "(nat \<Rightarrow> bool) \<Rightarrow> bytes \<Rightarrow> slice \<Rightarrow> DB \<Rightarrow> error option \<times> DB" where
  "set_apply coin key val db =
     (case mt_Set coin key val (db_active db) of
        None \<Rightarrow> (Some Panic, db)
      | Some mt \<Rightarrow>
          let db = db\<lparr>db_active := mt\<rparr>;
              shouldFlush = mt_ByteSize mt \<ge> o_MemTableSize (db_opts db)
          in (None, if shouldFlush then db\<lparr>db_flushChan := True\<rparr> else db))"

definition db_Set :: "faults \<Rightarrow> (nat \<Rightarrow> bool) \<Rightarrow> bytes \<Rightarrow> slice \<Rightarrow> DB \<Rightarrow> error option \<times> DB" where
  "db_Set ft coin key val db =
     (case set_log ft key val db of
        (Some e, db) \<Rightarrow> (Some e, db)
      | (None, db) \<Rightarrow> set_apply coin key val db)"

definition delete_log :: "faults \<Rightarrow> bytes \<Rightarrow> DB \<Rightarrow> error option \<times> DB" where
  "delete_log ft key db =
     (if db_closed db then (Some errClosed, db)
      else if length key = 0 then (Some errEmptyKey, db)
      else
        (case Append ft \<lparr>rec_Op = OpDelete, rec_Key = key, rec_Value = None\<rparr> (db_walLog db) of
           (Some e, w) \<Rightarrow> (Some (wrap ''vaultkv: WAL append (delete): '' e), db\<lparr>db_walLog := w\<rparr>)
         | (None, w) \<Rightarrow> (None, db\<lparr>db_walLog := w\<rparr>)))"

definition delete_apply :: "(nat \<Rightarrow> bool) \<Rightarrow> bytes \<Rightarrow> DB \<Rightarrow> error option \<times> DB" where
  "delete_apply coin key db =
     (case mt_Delete coin key (db_active db) of
        None \<Rightarrow> (Some Panic, db)
      | Some mt \<Rightarrow> (None, db\<lparr>db_active := mt\<rparr>))"

definition db_Delete :: "faults \<Rightarrow> (nat \<Rightarrow> bool) \<Rightarrow> bytes \<Rightarrow> DB \<Rightarrow> error option \<times> DB" where
  "db_Delete ft coin key db =
     (case delete_log ft key db of
        (Some e, db) \<Rightarrow> (Some e, db)
      | (None, db) \<Rightarrow> delete_apply coin key db)"

subsection \<open>Reads\<close>

fun get_readers :: "(Reader \<Rightarrow> rfaults) \<Rightarrow> Reader list \<Rightarrow> bytes \<Rightarrow> error + slice" where
  "get_readers rf [] key = Inr None"
| "get_readers rf (r # rs) key =
     (case rd_Get (rf r) r key of
        Inl e \<Rightarrow> Inl (wrap ''vaultkv: SSTable read: '' e)
      | Inr (val, deleted) \<Rightarrow>
          if deleted then Inr None
          else if val \<noteq> None then Inr val
          else get_readers rf rs key)"

definition db_Get :: "(Reader \<Rightarrow> rfaults) \<Rightarrow> bytes \<Rightarrow> DB \<Rightarrow> error + slice" where
  "db_Get rf key db =
     (if db_closed db then Inl errClosed
      else
        (case mt_Get key (db_active db) of
           None \<Rightarrow> Inl Panic
         | Some (ent, found) \<Rightarrow>
             if found then Inr (if e_Deleted ent then None else e_Value ent)
             else
               (case db_immutable db of
                  None \<Rightarrow> get_readers rf (db_readers db) key
                | Some imm \<Rightarrow>
                    (case mt_Get key imm of
                       None \<Rightarrow> Inl Panic
                     | Some (ent, found) \<Rightarrow>
                         if found then Inr (if e_Deleted ent then None else e_Value ent)
                         else get_readers rf (db_readers db) key))))"

subsection \<open>Flushing\<close>

text \<open>\<^verbatim>\<open>flushIfNeeded\<close>: the rotation under the lock, which yields the identifier of the new file if there
  is something to flush, the flush, and the end under the lock.\<close>

definition flush_rotate :: "DB \<Rightarrow> u64 option \<times> DB" where
  "flush_rotate db =
     (if mt_Len (db_active db) = 0 then (None, db)
      else if mt_ByteSize (db_active db) < o_MemTableSize (db_opts db) \<and> \<not> db_closed db then (None, db)
      else
        let db = db\<lparr>db_immutable := Some (db_active db), db_active := New\<rparr>;
            (fileID, db) = nextSSTableID db
        in (Some fileID, db))"

definition flushMemTable :: "dfaults \<Rightarrow> MemTable \<Rightarrow> u64 \<Rightarrow> DB \<Rightarrow> error option \<times> DB" where
  "flushMemTable df mem fileID db =
     (let path = sst_path (o_Dir (db_opts db)) fileID in
      case WriteFromMemTable (df_write df) mem (o_BlockSize (db_opts db)) of
        (Some e, None) \<Rightarrow> (Some (wrap ''write SSTable: '' e), db)
      | (Some e, Some out) \<Rightarrow>
          (Some (wrap ''write SSTable: '' e), db\<lparr>db_disk := fmupd path (take (df_kept df) out) (db_disk db)\<rparr>)
      | (None, out) \<Rightarrow>
          let db = (case out of None \<Rightarrow> db | Some f \<Rightarrow> db\<lparr>db_disk := fmupd path f (db_disk db)\<rparr>) in
          if df_stat df path \<or> out = None then (Some (Wrap ''stat SSTable: '' wio), db)
          else
            (case rd_Open (df_read df path) out of
               Inl e \<Rightarrow> (Some (wrap ''open SSTable reader: '' e), db)
             | Inr r \<Rightarrow>
                 (None, db\<lparr>db_readers := r # db_readers db,
                    db_compact := AddFile \<lparr>fm_FileID = fileID, fm_Path = path, fm_Size = int (length (the out)),
                      fm_Level = 0, fm_MinKey = None, fm_MaxKey = None, fm_Entries = 0\<rparr> (db_compact db)\<rparr>)))"

definition flush_clear :: "DB \<Rightarrow> DB" where
  "flush_clear db = db\<lparr>db_immutable := None, db_compactChan := True\<rparr>"

definition flushIfNeeded :: "dfaults \<Rightarrow> DB \<Rightarrow> DB" where
  "flushIfNeeded df db =
     (case flush_rotate db of
        (None, db) \<Rightarrow> db
      | (Some fileID, db) \<Rightarrow>
          (case flushMemTable df (the (db_immutable db)) fileID db of (_, db) \<Rightarrow> flush_clear db))"

subsection \<open>Compacting\<close>

text \<open>\<^verbatim>\<open>filepath.Glob\<close> of \<^verbatim>\<open>*.sst\<close> in the directory, sorted as \<^verbatim>\<open>sort.Strings\<close> leaves it.\<close>

definition is_sst :: "string \<Rightarrow> string \<Rightarrow> bool" where
  "is_sst dir path \<longleftrightarrow>
     (let name = drop (length dir + 1) path in
      take (length dir + 1) path = dir @ ''/'' \<and> CHR ''/'' \<notin> set name \<and>
      4 \<le> length name \<and> drop (length name - 4) name = ''.sst'')"

definition Glob :: "string \<Rightarrow> dir_map \<Rightarrow> string list" where
  "Glob dir d = filter (is_sst dir) (sorted_list_of_fset (fmdom d))"

text \<open>The loop of \<^verbatim>\<open>reloadReaders\<close> over the paths, last first.\<close>

fun open_readers :: "(string \<Rightarrow> rfaults) \<Rightarrow> dir_map \<Rightarrow> string list \<Rightarrow> Reader list" where
  "open_readers rf d [] = []"
| "open_readers rf d (p # ps) =
     (case rd_Open (rf p) (fmlookup d p) of
        Inl e \<Rightarrow> open_readers rf d ps
      | Inr r \<Rightarrow> r # open_readers rf d ps)"

definition reload_open :: "(string \<Rightarrow> rfaults) \<Rightarrow> DB \<Rightarrow> Reader list" where
  "reload_open rf db = open_readers rf (db_disk db) (rev (Glob (o_Dir (db_opts db)) (db_disk db)))"

text \<open>The second result is the old readers, closed: a \<^verbatim>\<open>Get\<close> that runs meanwhile may hold them.\<close>

definition reload_swap :: "Reader list \<Rightarrow> DB \<Rightarrow> DB \<times> Reader list" where
  "reload_swap newReaders db =
     (let old = db_readers db in (db\<lparr>db_readers := newReaders\<rparr>, map (\<lambda>r. snd (rd_Close r)) old))"

definition reloadReaders :: "(string \<Rightarrow> rfaults) \<Rightarrow> DB \<Rightarrow> DB" where
  "reloadReaders rf db = fst (reload_swap (reload_open rf db) db)"

text \<open>What \<^verbatim>\<open>compactionLoop\<close> does on a signal, up to \<^verbatim>\<open>reloadReaders\<close>, which follows when the flag is true,
  and with it.  \<open>None\<close> would be a round that does not end.\<close>

definition compact_run :: "cfaults \<Rightarrow> DB \<Rightarrow> (bool \<times> DB) option" where
  "compact_run cf db =
     (if NeedsCompaction (db_compact db) then
        (case nextSSTableID db of (outputID, db) \<Rightarrow>
           (case RunOnce cf (db_disk db) (db_compact db) outputID of
              None \<Rightarrow> None
            | Some (_, e, d) \<Rightarrow> Some (True, db\<lparr>db_compact := e, db_disk := d\<rparr>)))
      else Some (False, db))"

definition compact_turn :: "dfaults \<Rightarrow> DB \<Rightarrow> DB option" where
  "compact_turn df db =
     (case compact_run (df_compact df) db of
        None \<Rightarrow> None
      | Some (reload, db) \<Rightarrow> Some (if reload then reloadReaders (df_read df) db else db))"

definition sync_turn :: "faults \<Rightarrow> DB \<Rightarrow> DB" where
  "sync_turn ft db = (case Sync ft (db_walLog db) of (_, w) \<Rightarrow> db\<lparr>db_walLog := w\<rparr>)"

subsection \<open>Opening\<close>

definition Base :: "string \<Rightarrow> string" where
  "Base path = rev (takeWhile (\<lambda>c. c \<noteq> CHR ''/'') (rev path))"

text \<open>A failing \<^verbatim>\<open>os.Stat\<close> is not checked: its nil result is dereferenced.\<close>

fun load_loop :: "dfaults \<Rightarrow> string list \<Rightarrow> DB \<Rightarrow> error + DB" where
  "load_loop df [] db = Inr db"
| "load_loop df (path # paths) db =
     (case rd_Open (df_read df path) (fmlookup (db_disk db) path) of
        Inl e \<Rightarrow> load_loop df paths db
      | Inr r \<Rightarrow>
          if df_stat df path then Inl Panic
          else
            let db = db\<lparr>db_readers := r # db_readers db\<rparr>;
                fileID = sst_id (Base path);
                db = db\<lparr>db_compact := AddFile \<lparr>fm_FileID = fileID, fm_Path = path,
                       fm_Size = int (length (the (fmlookup (db_disk db) path))), fm_Level = 0,
                       fm_MinKey = None, fm_MaxKey = None, fm_Entries = 0\<rparr> (db_compact db)\<rparr>;
                db = (if fileID \<ge> db_nextFileID db then db\<lparr>db_nextFileID := fileID + 1\<rparr> else db)
            in load_loop df paths db)"

definition loadSSTables :: "dfaults \<Rightarrow> DB \<Rightarrow> error + DB" where
  "loadSSTables df db = load_loop df (Glob (o_Dir (db_opts db)) (db_disk db)) db"

text \<open>The callback of \<^verbatim>\<open>replayWAL\<close> works on the active MemTable and the count; the outcomes of the random
  source are those of the \<open>n\<close>-th insertion.\<close>

definition replay_record :: "(nat \<Rightarrow> nat \<Rightarrow> bool) \<Rightarrow> MemTable \<times> nat \<Rightarrow> Record \<Rightarrow> error option \<times> MemTable \<times> nat" where
  "replay_record coins s rec =
     (case s of (active, n) \<Rightarrow>
        let r = (if rec_Op rec = OpSet then mt_Set (coins n) (rec_Key rec) (rec_Value rec) active
                 else if rec_Op rec = OpDelete then mt_Delete (coins n) (rec_Key rec) active
                 else Some active)
        in (case r of None \<Rightarrow> (Some Panic, s) | Some active \<Rightarrow> (None, active, n + 1)))"

definition replayWAL :: "faults \<Rightarrow> (nat \<Rightarrow> nat \<Rightarrow> bool) \<Rightarrow> DB \<Rightarrow> error option \<times> DB" where
  "replayWAL ft coins db =
     (case Replay ft (replay_record coins) (db_walLog db) (db_active db, 0) of
        (err, w, (active, n)) \<Rightarrow>
          (map_option (wrap ''WAL replay: '') err, db\<lparr>db_walLog := w, db_active := active\<rparr>))"

text \<open>Opening the directory with the files \<open>d\<close> and the log \<open>log\<close>; an error comes with what is left of the log.\<close>

definition db_Open :: "dfaults \<Rightarrow> (nat \<Rightarrow> nat \<Rightarrow> bool) \<Rightarrow> Options \<Rightarrow> dir_map \<Rightarrow> bytes option \<Rightarrow>
    (error \<times> bytes option) + DB" where
  "db_Open df coins opts d log =
     (let opts = withDefaults opts in
      if o_Dir opts = '''' then Inl (Err ''vaultkv: Options.Dir is required'', log)
      else if df_mkdir df then Inl (Wrap ''vaultkv: create dir '' wio, log)
      else
        (case Wal.Open (df_wal df) (o_Dir opts) (o_SyncMode opts = SyncFull) log of
           Inl e \<Rightarrow> Inl (wrap ''vaultkv: open WAL: '' e, log)
         | Inr w \<Rightarrow>
             let db = \<lparr>db_opts = opts, db_walLog = w, db_active = New, db_immutable = None, db_nextFileID = 1,
                   db_readers = [], db_compact = NewEngine (o_Dir opts) (o_SizeTieredThreshold opts),
                   db_flushChan = False, db_compactChan = False, db_closeChan = False, db_closed = False,
                   db_disk = d\<rparr>
             in (case loadSSTables df db of
                   Inl e \<Rightarrow> Inl (wrap ''vaultkv: load SSTables: '' e, Some (wal_data w))
                 | Inr db \<Rightarrow>
                     (case replayWAL (df_wal df) coins db of
                        (Some e, db) \<Rightarrow> Inl (wrap ''vaultkv: replay WAL: '' e, Some (wal_data (db_walLog db)))
                      | (None, db) \<Rightarrow> Inr db))))"

subsection \<open>Closing and statistics\<close>

text \<open>\<^verbatim>\<open>Close\<close> up to the wait for the goroutines, and after it.  Between them the flushing goroutine runs
  \<^verbatim>\<open>flushIfNeeded\<close> at least once; \<open>db_Close\<close> is the schedule in which nothing else runs.\<close>

definition close_begin :: "DB \<Rightarrow> error option \<times> DB" where
  "close_begin db =
     (if db_closed db then (Some (Err ''vaultkv: already closed''), db)
      else (None, db\<lparr>db_closed := True, db_closeChan := True, db_flushChan := True\<rparr>))"

definition close_end :: "faults \<Rightarrow> DB \<Rightarrow> error option \<times> DB" where
  "close_end ft db =
     (case Wal.Close ft (db_walLog db) of (err, w) \<Rightarrow> (err, db\<lparr>db_readers := [], db_walLog := w\<rparr>))"

definition db_Close :: "dfaults \<Rightarrow> DB \<Rightarrow> error option \<times> DB" where
  "db_Close df db =
     (case close_begin db of
        (Some e, db) \<Rightarrow> (Some e, db)
      | (None, db) \<Rightarrow> close_end (df_wal df) (flushIfNeeded df db))"

record StatsRecord =
  st_MemTableBytes :: int
  st_MemTableEntries :: int
  st_SSTables :: int
  st_TotalDiskBytes :: int

definition Stats :: "DB \<Rightarrow> StatsRecord" where
  "Stats db =
     \<lparr>st_MemTableBytes = mt_ByteSize (db_active db), st_MemTableEntries = mt_Len (db_active db),
      st_SSTables = int (length (db_readers db)),
      st_TotalDiskBytes = sum_list (map fm_Size (Files (db_compact db)))\<rparr>"

end
