(* ===== verification/Database_View.thy ===== *)
theory Database_View
  imports Database
begin

text \<open>
  What the parts of the database show of a key: the readers, the files of the directory, a MemTable laid over
  them.  Each operation of the model is followed through these views, without faults: reading, flushing,
  reloading, compacting and loading at start-up.
\<close>

subsection \<open>Readers\<close>

text \<open>The readers, newest first, show \<open>S\<close>.\<close>

definition readers_show :: "Reader list \<Rightarrow> (bytes \<Rightarrow> slice) \<Rightarrow> bool" where
  "readers_show rs S \<longleftrightarrow> (\<exists>ts. list_all2 serves (rev rs) ts \<and> (\<forall>k. visible (newest ts k) = S k))"

text \<open>A table laid over what is below it.\<close>

definition over :: "table \<Rightarrow> (bytes \<Rightarrow> slice) \<Rightarrow> bytes \<Rightarrow> slice" where
  "over t S k = (case map_of t k of None \<Rightarrow> S k | Some c \<Rightarrow> visible (Some c))"

lemma over_Nil [simp]: "over [] S = S"
  by (simp add: over_def fun_eq_iff)

lemma over_over [simp]: "over t (over t S) = over t S"
  by (auto simp: over_def fun_eq_iff split: option.splits)

lemma readers_show_Nil [simp]: "readers_show [] S \<longleftrightarrow> S = (\<lambda>_. None)"
  by (auto simp: readers_show_def fun_eq_iff)

lemma readers_show_Cons:
  assumes "readers_show rs S" "serves r es"
  shows "readers_show (r # rs) (over (entries_table es) S)"
proof -
  obtain ts where ts: "list_all2 serves (rev rs) ts" "\<forall>k. visible (newest ts k) = S k"
    using assms(1) by (auto simp: readers_show_def)
  have "visible (newest (ts @ [es]) k) = over (entries_table es) S k" for k
    using ts(2) by (simp add: newest_append over_def split: option.split)
  moreover have "list_all2 serves (rev (r # rs)) (ts @ [es])"
    using ts(1) assms(2) by (simp add: list_all2_appendI)
  ultimately show ?thesis unfolding readers_show_def by blast
qed

lemma get_readers_show:
  assumes "readers_show rs S"
  shows "get_readers (\<lambda>_. no_rfaults) rs k = Inr (S k)"
proof -
  obtain ts where "list_all2 serves (rev rs) ts" "\<forall>k. visible (newest ts k) = S k"
    using assms by (auto simp: readers_show_def)
  then show ?thesis
  proof (induction rs arbitrary: ts S)
    case (Cons r rs)
    then obtain us t where ts: "ts = us @ [t]" "list_all2 serves (rev rs) us" "serves r t"
      by (auto simp: list_all2_append1 list_all2_Cons1)
    have S: "S k = visible (newest (us @ [t]) k)" using Cons.prems(2) ts(1) by simp
    have get: "rd_Get no_rfaults r k = Inr (sst_result (map_of (entries_table t) k))"
      by (rule rd_Get_serves [OF ts(3)])
    show ?case
    proof (cases "map_of (entries_table t) k")
      case None
      with S have "S k = visible (newest us k)" by (simp add: newest_append)
      with Cons.IH [OF ts(2), of "\<lambda>k. visible (newest us k)"] None get show ?thesis by simp
    next
      case (Some c)
      with S get show ?thesis by (cases c) (simp_all add: newest_append)
    qed
  qed simp
qed

subsection \<open>The directory\<close>

lemma hex_char_not_slash: "0 \<le> d \<Longrightarrow> d < 16 \<Longrightarrow> hex_char d \<noteq> CHR ''/''"
  using hex_value_char [of d] by (auto simp: hex_value_def)

lemma sst_name_plain: "CHR ''/'' \<notin> set (sst_name i)"
  using hex_char_not_slash hex_digits_range by (fastforce simp: sst_name_def hex16_def)

lemma is_sst_path [simp]: "is_sst dir (sst_path dir i)"
  using sst_name_plain [of i] by (simp add: is_sst_def sst_path_def Let_def) (simp add: sst_name_def)

lemma Base_path [simp]: "Base (sst_path dir i) = sst_name i"
proof -
  have "takeWhile (\<lambda>c. c \<noteq> CHR ''/'') (rev (sst_name i) @ CHR ''/'' # rev dir) = rev (sst_name i)"
    using sst_name_plain [of i] by (subst takeWhile_append2) auto
  then show ?thesis by (simp add: Base_def sst_path_def)
qed

text \<open>The directory \<open>d\<close> holds the files of the engine and nothing else, and together they show \<open>S\<close>.  No
  identifier is above \<open>n\<close>.\<close>

definition disk_holds :: "string \<Rightarrow> u64 \<Rightarrow> Engine \<Rightarrow> (FileMetadata \<Rightarrow> entry list) \<Rightarrow> dir_map \<Rightarrow> (bytes \<Rightarrow> slice) \<Rightarrow> bool" where
  "disk_holds dir n e c d S \<longleftrightarrow> en_dir e = dir \<and> \<not> en_running e \<and> 0 < en_threshold e \<and> stored d c e \<and>
     fmdom' d = fm_Path ` set (en_files e) \<and> (\<forall>f \<in> set (en_files e). fm_FileID f \<le> n \<and> fm_FileID f < -1) \<and>
     (\<forall>k. visible (merged c (en_files e) k) = S k)"

lemma Glob_stored:
  assumes "disk_holds dir n e c d S"
  shows "Glob dir d = map fm_Path (sort_key fm_FileID (en_files e))"
proof -
  let ?fs = "sort_key fm_FileID (en_files e)"
  have e: "en_dir e = dir" "distinct (map fm_FileID (en_files e))" "fmdom' d = fm_Path ` set (en_files e)"
    and path: "\<forall>f \<in> set (en_files e). fm_Path f = sst_path dir (fm_FileID f)"
    using assms by (auto simp: disk_holds_def stored_def)
  have paths: "map fm_Path ?fs = map (sst_path dir) (map fm_FileID ?fs)" using path by simp
  have "sorted_wrt (<) (map fm_FileID ?fs)" using e(2) by (simp add: strict_sorted_iff distinct_map)
  then have "sorted_wrt (<) (map fm_Path ?fs)"
    unfolding paths sorted_wrt_map by (simp add: sst_path_less)
  moreover have "set (map fm_Path ?fs) = fset (fmdom d)" using e(3) by (simp add: fmdom'_alt_def)
  ultimately have "sorted_list_of_fset (fmdom d) = map fm_Path ?fs"
    unfolding sorted_list_of_fset.rep_eq
    by (metis List.finite_set sorted_list_of_set.idem_if_sorted_distinct strict_sorted_iff)
  then show ?thesis unfolding Glob_def using path by (auto simp: filter_id_conv)
qed

lemma open_readers_stored:
  assumes "\<forall>f \<in> set fs. holds d c f"
  shows "list_all2 serves (open_readers (\<lambda>_. no_rfaults) d (map fm_Path fs)) (map c fs)"
  using assms
proof (induction fs)
  case (Cons f fs)
  then obtain img where img: "fmlookup d (fm_Path f) = Some img" "sst_image img (c f)" by (auto simp: holds_def)
  obtain r where "rd_Open no_rfaults (Some img) = Inr r" "serves r (c f)" using rd_Open_image [OF img(2)] by blast
  with Cons img show ?case by simp
qed simp

text \<open>Reloading the readers from the directory shows what the directory shows.\<close>

lemma reload_open_shows:
  assumes "disk_holds (o_Dir (db_opts db)) n e c (db_disk db) S"
  shows "readers_show (reload_open (\<lambda>_. no_rfaults) db) S"
proof -
  let ?fs = "sort_key fm_FileID (en_files e)"
  have "\<forall>f \<in> set (rev ?fs). holds (db_disk db) c f" using assms by (simp add: disk_holds_def stored_def)
  from open_readers_stored [OF this]
  have "list_all2 serves (reload_open (\<lambda>_. no_rfaults) db) (map c (rev ?fs))"
    using Glob_stored [OF assms] by (simp add: reload_open_def rev_map)
  then have "list_all2 serves (rev (reload_open (\<lambda>_. no_rfaults) db)) (map c ?fs)"
    by (metis list_all2_rev rev_map rev_rev_ident)
  moreover have "\<forall>k. visible (newest (map c ?fs) k) = S k" using assms by (simp add: disk_holds_def merged_def)
  ultimately show ?thesis unfolding readers_show_def by blast
qed

text \<open>A new file with a larger identifier lies over the others.\<close>

lemma disk_holds_AddFile:
  assumes disk: "disk_holds dir n e c d S" and img: "sst_image img es"
    and new: "\<forall>f \<in> set (en_files e). fm_FileID f < fm_FileID meta" "fm_FileID meta \<le> n" "fm_FileID meta < -1"
    and path: "fm_Path meta = sst_path dir (fm_FileID meta)"
  shows "disk_holds dir n (AddFile meta e) (c(meta := es)) (fmupd (fm_Path meta) img d) (over (entries_table es) S)"
proof -
  have e: "en_dir e = dir" "distinct (map fm_FileID (en_files e))" "fmdom' d = fm_Path ` set (en_files e)"
    and stored: "\<forall>f \<in> set (en_files e). fm_Path f = sst_path dir (fm_FileID f) \<and> holds d c f"
    using disk by (auto simp: disk_holds_def stored_def)
  have fresh: "f \<noteq> meta" "fm_Path f \<noteq> fm_Path meta" if "f \<in> set (en_files e)" for f
    using that new(1) stored path by (auto simp: less_le)
  have "merged (c(meta := es)) (en_files e) k = merged c (en_files e) k" for k
    using fresh(1) by (intro merged_cong) auto
  then have view: "visible (merged (c(meta := es)) (en_files e @ [meta]) k) = over (entries_table es) S k" for k
    using disk merged_snoc [OF new(1) e(2), of "c(meta := es)" k]
    by (simp add: over_def disk_holds_def split: option.split)
  have "holds (fmupd (fm_Path meta) img d) (c(meta := es)) f" if "f \<in> set (en_files e)" for f
  proof -
    have "holds d c f" using stored that by blast
    with fresh [OF that] show ?thesis by (simp add: holds_def)
  qed
  moreover have "holds (fmupd (fm_Path meta) img d) (c(meta := es)) meta" using img by (simp add: holds_def)
  moreover have "fm_FileID meta \<notin> fm_FileID ` set (en_files e)" using new(1) by auto
  ultimately have "stored (fmupd (fm_Path meta) img d) (c(meta := es)) (AddFile meta e)"
    using e(1,2) stored path unfolding stored_def AddFile_def by simp
  moreover have "fmdom' (fmupd (fm_Path meta) img d) = fm_Path ` set (en_files (AddFile meta e))"
    using e(3) by (simp add: AddFile_def fmdom'_alt_def)
  moreover have "\<forall>f \<in> set (en_files (AddFile meta e)). fm_FileID f \<le> n \<and> fm_FileID f < -1"
    using disk new(2,3) by (simp add: disk_holds_def AddFile_def)
  ultimately show ?thesis
    using disk view by (simp add: disk_holds_def AddFile_def)
qed

lemma flushMemTable_shows:
  assumes mem: "mt_inv mem" "flushable mem" and rs: "readers_show (db_readers db) S"
    and disk: "disk_holds (o_Dir (db_opts db)) n (db_compact db) c (db_disk db) S"
    and new: "\<forall>f \<in> set (en_files (db_compact db)). fm_FileID f < fileID" "fileID \<le> n" "fileID < -1"
  obtains r e d c' where
    "flushMemTable no_dfaults mem fileID db = (None, db\<lparr>db_readers := r, db_compact := e, db_disk := d\<rparr>)"
    "readers_show r (over (mt_table mem) S)"
    "disk_holds (o_Dir (db_opts db)) n e c' d (over (mt_table mem) S)"
proof -
  let ?path = "sst_path (o_Dir (db_opts db)) fileID"
  obtain out where out: "WriteFromMemTable no_wfaults mem (o_BlockSize (db_opts db)) = (None, out)"
    using flush_succeeds [OF mem] by blast
  then obtain es f where es: "map entry_cell es = mt_table mem" "writable es" "sorted_table es"
    "Build (map fst es) bitsPerKey = Inr f" "out = Some (sst_bytes (cut (block_size (o_BlockSize (db_opts db))) [] es) f)"
    by (rule flush_layout [OF mem])
  define img where "img = sst_bytes (cut (block_size (o_BlockSize (db_opts db))) [] es) f"
  have img: "sst_image img es" unfolding img_def by (rule sst_image_cut [OF es(2-4)])
  obtain r where r: "rd_Open no_rfaults (Some img) = Inr r" "serves r es" using rd_Open_image [OF img] by blast
  let ?meta = "\<lparr>fm_FileID = fileID, fm_Path = ?path, fm_Size = int (length img), fm_Level = 0,
    fm_MinKey = None, fm_MaxKey = None, fm_Entries = 0\<rparr>"
  have "flushMemTable no_dfaults mem fileID db = (None, db\<lparr>db_readers := r # db_readers db,
      db_compact := AddFile ?meta (db_compact db), db_disk := fmupd ?path img (db_disk db)\<rparr>)"
    using out es(5) r(1) by (simp add: flushMemTable_def Let_def img_def)
  moreover have "readers_show (r # db_readers db) (over (mt_table mem) S)"
    using readers_show_Cons [OF rs r(2)] es(1) by simp
  moreover have "disk_holds (o_Dir (db_opts db)) n (AddFile ?meta (db_compact db)) (c(?meta := es))
      (fmupd ?path img (db_disk db)) (over (mt_table mem) S)"
    using disk_holds_AddFile [OF disk img, of ?meta] new es(1) by simp
  ultimately show thesis by (rule that)
qed

text \<open>Identifiers that do not wrap around.\<close>

lemma unat_top_u64: "unat (- 2 :: u64) = 2 ^ 64 - 2" "unat (- 1 :: u64) = 2 ^ 64 - 1"
  by (simp_all add: unsigned_minus_1_eq_mask mask_eq_exp_minus_1)

lemma succ_u64:
  fixes n :: u64
  shows "n < - 1 \<Longrightarrow> n < n + 1" and "n < - 2 \<Longrightarrow> n + 1 < - 1" and "n < - 2 \<Longrightarrow> n < - 1"
proof -
  have succ: "unat (n + 1) = unat n + 1" if "n < - 1"
    using that by (simp add: word_less_nat_alt unat_top_u64 unat_word_ariths)
  then show "n < - 1 \<Longrightarrow> n < n + 1" by (simp add: word_less_nat_alt)
  show le: "n < - 2 \<Longrightarrow> n < - 1" by (simp add: word_less_nat_alt unat_top_u64)
  show "n < - 2 \<Longrightarrow> n + 1 < - 1" using succ [OF le] by (simp add: word_less_nat_alt unat_top_u64)
qed

subsection \<open>A round of compaction\<close>

lemma weight_image:
  assumes "sst_image img es"
  shows "weight es \<le> 2 * length img"
proof -
  obtain bls f where bls: "img = sst_bytes bls f" "concat bls = es" using assms by (auto simp: sst_image_def)
  have ents: "weight b \<le> 2 * length (entries_bytes b)" if "list_all small_entry b" for b
    using that
  proof (induction b)
    case (Cons x b)
    have "entry_weight x \<le> 2 * length (enc_entry x)"
      using entry_at(1) [of x] Cons.prems
      by (cases x) (simp add: entry_weight_def entry_value_def entryHeaderSize_def)
    with Cons show ?case by (simp add: weight_def)
  qed (simp add: weight_def)
  have block: "weight b \<le> 2 * length (block_bytes b)" if "list_all small_entry b" for b
    using ents [OF that] by (simp add: block_bytes_def)
  have "list_all small_entry (concat bls)" using sst_imageD(1) [OF assms] bls(2) writable_small by simp
  then have "weight (concat bls) \<le> 2 * length (data_bytes bls)"
  proof (induction bls)
    case (Cons b bls)
    then have "weight b \<le> 2 * length (block_bytes b)" "weight (concat bls) \<le> 2 * length (data_bytes bls)"
      using block by simp_all
    then show ?case by (simp add: weight_def)
  qed (simp add: weight_def)
  then show ?thesis using bls by (simp add: sst_bytes_def)
qed

text \<open>Two conditions on the files that a round selects: none of the others is newer than they are, and
  together they are small enough for one SSTable.\<close>

definition safe_round :: "Engine \<Rightarrow> bool" where
  "safe_round e \<longleftrightarrow>
     list_all (\<lambda>f. list_all (\<lambda>g. fm_FileID f < fm_FileID g) (selected_files e)) (rest_files e)"

definition small_round :: "dir_map \<Rightarrow> Engine \<Rightarrow> bool" where
  "small_round d e \<longleftrightarrow>
     2 * (\<Sum>f\<leftarrow>selected_files e. length (the (fmlookup d (fm_Path f)))) + 4 < 2 ^ 32"

lemma safe_round_key: "safe_round e \<Longrightarrow> safe_key c e k"
  by (auto simp: safe_round_def safe_key_def list_all_iff)

lemma small_round_weight:
  assumes "\<forall>f \<in> set (selected_files e). holds d c f" "small_round d e"
  shows "(\<Sum>f\<leftarrow>selected_files e. weight (c f)) + 4 < 2 ^ 32"
proof -
  have "(\<Sum>f\<leftarrow>fs. weight (c f)) \<le> 2 * (\<Sum>f\<leftarrow>fs. length (the (fmlookup d (fm_Path f))))"
    if "\<forall>f \<in> set fs. holds d c f" for fs
    using that by (induction fs) (auto simp: holds_def dest!: weight_image intro: add_mono)
  from this [OF assms(1)] assms(2) show ?thesis by (simp add: small_round_def)
qed

lemma compact_run_effect:
  assumes disk: "disk_holds (o_Dir (db_opts db)) (db_nextFileID db) (db_compact db) c (db_disk db) S"
    and needs: "NeedsCompaction (db_compact db)"
    and weights: "(\<Sum>f\<leftarrow>selected_files (db_compact db). weight (c f)) + 4 < 2 ^ 32" and next_id: "db_nextFileID db < - 2"
  obtains e d c' where
    "compact_run no_cfaults db = Some (True, db\<lparr>db_nextFileID := db_nextFileID db + 1, db_compact := e, db_disk := d\<rparr>)"
    "disk_holds (o_Dir (db_opts db)) (db_nextFileID db + 1) e c' d (after_round c (db_compact db))"
proof -
  let ?e = "db_compact db" and ?id = "db_nextFileID db + 1"
  let ?path = "sst_path (o_Dir (db_opts db)) ?id"
  have id: "?id < -1" "db_nextFileID db < ?id"
    using succ_u64 [of "db_nextFileID db"] next_id by simp_all
  have st: "stored (db_disk db) c ?e" "en_dir ?e = o_Dir (db_opts db)" "0 < en_threshold ?e" "\<not> en_running ?e"
    and le: "\<forall>f \<in> set (en_files ?e). fm_FileID f \<le> db_nextFileID db"
    using disk by (simp_all add: disk_holds_def)
  have ids: "distinct (map fm_FileID (en_files ?e))" using st(1) by (simp add: stored_def)
  have less: "\<forall>f \<in> set (en_files ?e). fm_FileID f < ?id" using le id(2) by (metis order_le_less_trans)
  then have fresh: "?id \<notin> fm_FileID ` set (en_files ?e)" by auto
  have ne: "selected_files ?e \<noteq> []" using needs needs_selected st(3) by blast
  obtain img out e' d' where r:
    "RunOnce no_cfaults (db_disk db) ?e ?id = Some (Inr (length (selected_files ?e)), e', d')"
    "e' = ?e\<lparr>en_files := rest_files ?e @ [output_meta ?id ?path img out]\<rparr>"
    "sst_image img out"
    "\<forall>k. map_of (entries_table out) k = map_option plain_cell (keep (rest_files ?e = []) (merged c (selected_files ?e) k))"
    "\<forall>p. fmlookup d' p = (if p \<in> fm_Path ` set (selected_files ?e) then None
        else if p = ?path then Some img else fmlookup (db_disk db) p)"
    by (rule RunOnce_ok [OF st(4) ne st(1) fresh weights, unfolded st(2)])
  let ?meta = "output_meta ?id ?path img out"
  have stored: "stored d' (c(?meta := out)) e'"
    using stored_after_round [OF st(1) fresh r(3), unfolded st(2), OF r(5)] by (simp add: r(2))
  have "visible (merged (c(?meta := out)) (en_files e') k) = after_round c ?e k" for k
    using round_lookup [OF ids _ r(4), of ?meta k] less by (simp add: r(2) output_meta_def)
  moreover have "fmdom' d' = fm_Path ` set (en_files e')"
  proof -
    have "fm_Path ` set (en_files ?e) = fmdom' (db_disk db)" using disk by (simp add: disk_holds_def)
    then have dom: "p \<in> fm_Path ` set (en_files ?e) \<longleftrightarrow> (\<exists>x. fmlookup (db_disk db) p = Some x)" for p
      by (simp add: fmlookup_dom'_iff)
    have "fmdom' d' = insert ?path (fm_Path ` set (en_files ?e)) - fm_Path ` set (selected_files ?e)"
      by (rule set_eqI) (simp add: fmlookup_dom'_iff r(5) dom del: image_iff)
    moreover have "?path \<notin> fm_Path ` set (selected_files ?e)"
      using fresh st(1,2) selected_filesD(1) [OF ids] by (force simp: stored_def)
    ultimately show ?thesis using rest_paths [OF st(1)] by (simp add: r(2) output_meta_def insert_Diff_if)
  qed
  moreover have "\<forall>f \<in> set (en_files e'). fm_FileID f \<le> ?id \<and> fm_FileID f < -1"
    using less disk id by (auto simp: r(2) output_meta_def rest_files_def disk_holds_def)
  ultimately have "disk_holds (o_Dir (db_opts db)) ?id e' (c(?meta := out)) d' (after_round c ?e)"
    using stored st by (simp add: disk_holds_def r(2))
  moreover have "compact_run no_cfaults db =
      Some (True, db\<lparr>db_nextFileID := ?id, db_compact := e', db_disk := d'\<rparr>)"
    using needs r(1) by (simp add: compact_run_def nextSSTableID_def Let_def)
  ultimately show thesis using that by blast
qed

lemma compact_run_shows:
  assumes disk: "disk_holds (o_Dir (db_opts db)) (db_nextFileID db) (db_compact db) c (db_disk db) S"
    and needs: "NeedsCompaction (db_compact db)" and safe: "safe_round (db_compact db)"
    and small: "small_round (db_disk db) (db_compact db)" and next_id: "db_nextFileID db < - 2"
  obtains e d c' where
    "compact_run no_cfaults db = Some (True, db\<lparr>db_nextFileID := db_nextFileID db + 1, db_compact := e, db_disk := d\<rparr>)"
    "disk_holds (o_Dir (db_opts db)) (db_nextFileID db + 1) e c' d S"
proof -
  have "after_round c (db_compact db) = S"
    using after_safe_round [OF _ safe_round_key [OF safe]] disk by (auto simp: disk_holds_def stored_def)
  moreover have "\<forall>f \<in> set (selected_files (db_compact db)). holds (db_disk db) c f"
    using disk selected_filesD(1) by (auto simp: disk_holds_def stored_def)
  note small_round_weight [OF this small]
  ultimately show thesis using compact_run_effect [OF disk needs _ next_id] that by metis
qed

subsection \<open>Loading the directory\<close>

text \<open>The metadata that loading gives to a file.\<close>

definition reloaded :: "dir_map \<Rightarrow> FileMetadata \<Rightarrow> FileMetadata" where
  "reloaded d f = \<lparr>fm_FileID = fm_FileID f, fm_Path = fm_Path f, fm_Size = int (length (the (fmlookup d (fm_Path f)))),
     fm_Level = 0, fm_MinKey = None, fm_MaxKey = None, fm_Entries = 0\<rparr>"

lemma reloaded_fields [simp]: "fm_FileID (reloaded d f) = fm_FileID f" "fm_Path (reloaded d f) = fm_Path f"
  by (simp_all add: reloaded_def)

lemma load_loop_ok:
  assumes "\<forall>f \<in> set fs. fm_Path f = sst_path dir (fm_FileID f) \<and> holds (db_disk db) c f \<and> fm_FileID f < - 1"
  shows "\<exists>rs n. load_loop no_dfaults (map fm_Path fs) db = Inr (db\<lparr>db_readers := rev rs @ db_readers db,
      db_compact := (db_compact db)\<lparr>en_files := en_files (db_compact db) @ map (reloaded (db_disk db)) fs\<rparr>,
      db_nextFileID := n\<rparr>) \<and> list_all2 serves rs (map c fs) \<and> db_nextFileID db \<le> n \<and> (\<forall>f \<in> set fs. fm_FileID f < n)"
  using assms
proof (induction fs arbitrary: db)
  case Nil
  show ?case by (intro exI [of _ "[]"] exI [of _ "db_nextFileID db"]) simp
next
  case (Cons f fs)
  then have f: "fm_Path f = sst_path dir (fm_FileID f)" "holds (db_disk db) c f" "fm_FileID f < - 1" by simp_all
  then obtain img where img: "fmlookup (db_disk db) (fm_Path f) = Some img" "sst_image img (c f)"
    by (auto simp: holds_def)
  obtain r where r: "rd_Open no_rfaults (Some img) = Inr r" "serves r (c f)" using rd_Open_image [OF img(2)] by blast
  let ?n = "if db_nextFileID db \<le> fm_FileID f then fm_FileID f + 1 else db_nextFileID db"
  have n: "fm_FileID f < ?n" "db_nextFileID db \<le> ?n"
    using succ_u64(1) [OF f(3)] by (auto intro: le_less_trans less_imp_le)
  let ?db = "db\<lparr>db_readers := r # db_readers db, db_compact := AddFile (reloaded (db_disk db) f) (db_compact db),
    db_nextFileID := ?n\<rparr>"
  obtain rs m where IH: "load_loop no_dfaults (map fm_Path fs) ?db = Inr (?db\<lparr>db_readers := rev rs @ db_readers ?db,
      db_compact := (db_compact ?db)\<lparr>en_files := en_files (db_compact ?db) @ map (reloaded (db_disk db)) fs\<rparr>,
      db_nextFileID := m\<rparr>)" "list_all2 serves rs (map c fs)" "?n \<le> m" "\<forall>f \<in> set fs. fm_FileID f < m"
    using Cons.IH [of ?db] Cons.prems by auto
  have "load_loop no_dfaults (map fm_Path (f # fs)) db = load_loop no_dfaults (map fm_Path fs) ?db"
    using img(1) r(1) f(1) by (simp add: Let_def reloaded_def)
  also have "\<dots> = Inr (db\<lparr>db_readers := rev (r # rs) @ db_readers db,
      db_compact := (db_compact db)\<lparr>en_files := en_files (db_compact db) @ map (reloaded (db_disk db)) (f # fs)\<rparr>,
      db_nextFileID := m\<rparr>)"
    using IH(1) by (simp add: AddFile_def)
  finally show ?case using IH(2-4) r(2) n
    by (intro exI [of _ "r # rs"] exI [of _ m]) (auto intro: order_trans less_le_trans)
qed

lemma loadSSTables_shows:
  assumes disk: "disk_holds dir n0 e0 cc (db_disk db) S"
    and db: "o_Dir (db_opts db) = dir" "db_readers db = []" "en_files (db_compact db) = []"
      "en_dir (db_compact db) = dir" "\<not> en_running (db_compact db)" "0 < en_threshold (db_compact db)"
  obtains rs e n c' where
    "loadSSTables no_dfaults db = Inr (db\<lparr>db_readers := rs, db_compact := e, db_nextFileID := n\<rparr>)"
    "readers_show rs S" "disk_holds dir n e c' (db_disk db) S"
proof -
  let ?d = "db_disk db" and ?fs = "sort_key fm_FileID (en_files e0)"
  have st: "distinct (map fm_FileID (en_files e0))" "fmdom' ?d = fm_Path ` set (en_files e0)"
    "\<forall>f \<in> set (en_files e0). fm_Path f = sst_path dir (fm_FileID f) \<and> holds ?d cc f \<and> fm_FileID f < -1"
    using disk by (auto simp: disk_holds_def stored_def)
  then obtain rs n where l: "load_loop no_dfaults (map fm_Path ?fs) db = Inr (db\<lparr>db_readers := rev rs,
      db_compact := (db_compact db)\<lparr>en_files := map (reloaded ?d) ?fs\<rparr>, db_nextFileID := n\<rparr>)"
    "list_all2 serves rs (map cc ?fs)" "\<forall>f \<in> set ?fs. fm_FileID f < n"
    using load_loop_ok [of ?fs dir db cc] db(2,3) by auto
  have view: "visible (newest (map cc ?fs) k) = S k" for k using disk by (simp add: disk_holds_def merged_def)
  then have rs: "readers_show (rev rs) S" using l(2) by (auto simp: readers_show_def)
  define c' where "c' = cc \<circ> inv_into (set ?fs) (reloaded ?d)"
  have "inj_on (reloaded ?d) (set ?fs)" using st(1)
    by (auto simp: inj_on_def distinct_map dest: arg_cong [of _ _ fm_FileID])
  then have c': "c' (reloaded ?d f) = cc f" if "f \<in> set ?fs" for f using that by (simp add: c'_def)
  let ?gs = "map (reloaded ?d) ?fs"
  have "map fm_FileID ?gs = map fm_FileID ?fs" by simp
  moreover from this have "sort_key fm_FileID ?gs = ?gs" by (metis sort_key_id_if_sorted sorted_sort_key)
  moreover have "map c' ?gs = map cc ?fs" using c' by simp
  ultimately have "merged c' ?gs = newest (map cc ?fs)" by (simp only: merged_def)
  moreover have "stored ?d c' ((db_compact db)\<lparr>en_files := ?gs\<rparr>)"
    using st(1,3) db(4) c' by (auto simp: stored_def holds_def comp_def distinct_map inj_on_def)
  ultimately have "disk_holds dir n ((db_compact db)\<lparr>en_files := ?gs\<rparr>) c' ?d S"
    using db st l(3) view by (auto simp: disk_holds_def image_image less_imp_le)
  moreover have "loadSSTables no_dfaults db = Inr (db\<lparr>db_readers := rev rs,
      db_compact := (db_compact db)\<lparr>en_files := ?gs\<rparr>, db_nextFileID := n\<rparr>)"
    using l(1) db(1) Glob_stored [OF disk] by (simp add: loadSSTables_def)
  ultimately show thesis using that rs by blast
qed

subsection \<open>Replaying the log\<close>

text \<open>A write is a key with a value, or with none for a deletion; it is plain when the calls that accept
  it are: a key that is not empty, a value that is not nil, and lengths that fit the log's fields.\<close>

type_synonym kv_write = "bytes \<times> slice option"

fun record_of :: "kv_write \<Rightarrow> Record" where
  "record_of (k, None) = \<lparr>rec_Op = OpDelete, rec_Key = k, rec_Value = None\<rparr>"
| "record_of (k, Some v) = \<lparr>rec_Op = OpSet, rec_Key = k, rec_Value = v\<rparr>"

definition plain_write :: "kv_write \<Rightarrow> bool" where
  "plain_write w \<longleftrightarrow> fst w \<noteq> [] \<and> snd w \<noteq> Some None \<and> wf_record (record_of w)"

lemma op_codes [simp]: "OpSet \<noteq> OpDelete" "OpDelete \<noteq> OpSet"
  by (simp_all add: OpSet_def OpDelete_def)

lemma replayed_plain: "plain_write w \<Longrightarrow> replayed (record_of w) = record_of w"
  by (cases w rule: record_of.cases) (auto simp: plain_write_def replayed_def)

lemma replay_writes:
  assumes "list_all plain_write ws" "mt_inv mt"
  shows "\<exists>mt'. mt_inv mt' \<and> map_of (mt_table mt') = map_writes ws (map_of (mt_table mt)) \<and>
    (\<forall>nxt. foldr (replay_turn (replay_record coins)) (map record_of ws) nxt (mt, n) = nxt (mt', n + length ws))"
  using assms
proof (induction ws arbitrary: mt n)
  case Nil
  then show ?case by auto
next
  case (Cons w ws)
  obtain k c where w: "w = (k, c)" by (cases w)
  have w_ok: "replayed (record_of w) = record_of w" using Cons.prems(1) replayed_plain by simp
  obtain mt1 where mt1: "mt_inv mt1" "mt_table mt1 = table_upd k (write_cell c) (mt_table mt)"
    "replay_record coins (mt, n) (record_of w) = (None, mt1, n + 1)"
    using mem.put_ok [OF Cons.prems(2), of "coins n" k] mem.del_ok [OF Cons.prems(2), of "coins n" k]
    unfolding w by (cases c) (fastforce simp: replay_record_def Let_def)+
  obtain mt' where mt': "mt_inv mt'" "map_of (mt_table mt') = map_writes ws (map_of (mt_table mt1))"
    "\<forall>nxt. foldr (replay_turn (replay_record coins)) (map record_of ws) nxt (mt1, n + 1) = nxt (mt', n + 1 + length ws)"
    using Cons.IH [of mt1 "n + 1"] mt1(1) Cons.prems(1) by auto
  have "map_of (mt_table mt') = map_writes (w # ws) (map_of (mt_table mt))"
    using mt'(2) mt1(2) map_of_table_upd [OF mem.tab_sorted [OF Cons.prems(2)]] w by (simp del: fun_upd_apply)
  moreover have "replay_turn (replay_record coins) (record_of w) nxt (mt, n) = nxt (mt1, n + 1)" for nxt
    using mt1(3) w_ok by (simp add: replay_turn_def)
  ultimately show ?case using mt'(1,3) by auto
qed

text \<open>The log of the writes \<open>ws\<close> and then nothing, or a part of one more record that holds its header and some
  of its payload.\<close>

definition log_of :: "kv_write list \<Rightarrow> kv_write \<Rightarrow> nat \<Rightarrow> bytes" where
  "log_of ws w m = log_bytes (map record_of ws) @ take m (encode_record (record_of w))"

definition torn_at :: "kv_write \<Rightarrow> nat \<Rightarrow> bool" where
  "torn_at w m \<longleftrightarrow> m = 0 \<or> 13 < m \<and> m < length (encode_record (record_of w))"

lemma replayWAL_log:
  assumes ws: "list_all plain_write ws" "plain_write w" "m \<noteq> 13" "m < length (encode_record (record_of w))"
    and log: "wal_data (db_walLog db) = log_of ws w m" "\<not> wal_closed (db_walLog db)" and mt: "mt_inv (db_active db)"
  obtains mt' wl where "replayWAL no_faults coins db = (None, db\<lparr>db_walLog := wl, db_active := mt'\<rparr>)"
    "mt_inv mt'" "map_of (mt_table mt') = map_writes ws (map_of (mt_table (db_active db)))"
    "wal_data wl = log_of ws w (if m < 13 then m else 0)" "\<not> wal_closed wl" "wal_SyncOnAppend wl = wal_SyncOnAppend (db_walLog db)"
proof -
  let ?fn = "replay_record coins" and ?recs = "map record_of ws" and ?w = "db_walLog db"
  let ?t = "take m (encode_record (record_of w))"
  obtain mt' where mt': "mt_inv mt'" "map_of (mt_table mt') = map_writes ws (map_of (mt_table (db_active db)))"
    "\<forall>nxt. foldr (replay_turn ?fn) ?recs nxt (db_active db, 0) = nxt (mt', length ws)"
    using replay_writes [OF ws(1) mt, of coins 0] by auto
  have wf: "list_all wf_record ?recs" "wf_record (record_of w)"
    using ws by (auto simp: plain_write_def list_all_iff)
  have loop: "replay_loop no_faults ?fn (wal_data ?w) 0 (db_active db, 0) =
      replay_loop no_faults ?fn (log_bytes ?recs @ ?t) (length (log_bytes ?recs)) (mt', length ws)"
    using log.scan_from_start [OF wf(1), of ?fn ?t] mt'(3) by (simp add: log(1) log_of_def)
  show thesis
  proof (cases "m < 13")
    case True
    then have "replay_loop no_faults ?fn (wal_data ?w) 0 (db_active db, 0) = Break (mt', length ws)"
      using loop replay_loop_short [of ?t ?fn "log_bytes ?recs"] by simp
    then have "replayWAL no_faults coins db = (None, db\<lparr>db_walLog := ?w, db_active := mt'\<rparr>)"
      using log(2) by (simp add: replayWAL_def Replay_open)
    from that [OF this mt'(1,2)] log True show thesis by simp
  next
    case False
    let ?n = "length (log_bytes ?recs)"
    have "replay_loop no_faults ?fn (wal_data ?w) 0 (db_active db, 0) = Truncate ?n (mt', length ws)"
      using loop replay_loop_torn [OF wf(2), of m ?fn "log_bytes ?recs"] ws(3,4) False by simp
    then have "replayWAL no_faults coins db = (None, db\<lparr>db_walLog :=
        ?w\<lparr>wal_data := take ?n (wal_data ?w), wal_synced := min ?n (wal_synced ?w)\<rparr>, db_active := mt'\<rparr>)"
      using log(2) by (simp add: replayWAL_def Replay_open)
    from that [OF this mt'(1,2)] log False show thesis by (simp add: log_of_def)
  qed
qed

subsection \<open>Opening a directory\<close>

text \<open>The state of a handle that was just opened: its MemTable holds the writes \<open>ws\<close> of the log, its readers and
  files show \<open>S\<close>; \<open>opened\<close> says besides that nothing but their records is left in the log.\<close>

definition loaded :: "Options \<Rightarrow> kv_write list \<Rightarrow> (bytes \<Rightarrow> slice) \<Rightarrow> dir_map \<Rightarrow> DB \<Rightarrow> bool" where
  "loaded opts ws S d db \<longleftrightarrow> db_opts db = withDefaults opts \<and> db_disk db = d \<and> db_immutable db = None \<and>
     \<not> db_flushChan db \<and> \<not> db_compactChan db \<and> \<not> db_closeChan db \<and> \<not> db_closed db \<and>
     mt_inv (db_active db) \<and> map_of (mt_table (db_active db)) = map_writes ws Map.empty \<and>
     readers_show (db_readers db) S \<and> (\<exists>c. disk_holds (o_Dir opts) (db_nextFileID db) (db_compact db) c d S) \<and>
     \<not> wal_closed (db_walLog db) \<and> wal_SyncOnAppend (db_walLog db) = (o_SyncMode (withDefaults opts) = SyncFull)"

definition opened :: "Options \<Rightarrow> kv_write list \<Rightarrow> (bytes \<Rightarrow> slice) \<Rightarrow> dir_map \<Rightarrow> DB \<Rightarrow> bool" where
  "opened opts ws S d db \<longleftrightarrow> loaded opts ws S d db \<and> wal_data (db_walLog db) = log_bytes (map record_of ws)"

lemma NewEngine_fields [simp]: "en_files (NewEngine dir t) = []" "en_dir (NewEngine dir t) = dir"
  "\<not> en_running (NewEngine dir t)" "0 < en_threshold (NewEngine dir t)"
  by (simp_all add: NewEngine_def Let_def)

lemma db_Open_loads:
  assumes dir: "o_Dir opts \<noteq> ''''" and disk: "disk_holds (o_Dir opts) nn ee cc d S"
    and ws: "list_all plain_write ws" "plain_write w" "m \<noteq> 13" "m < length (encode_record (record_of w))"
    and log: "(case log of None \<Rightarrow> [] | Some b \<Rightarrow> b) = log_of ws w m"
  obtains db where "db_Open no_dfaults coins opts d log = Inr db" "loaded opts ws S d db"
    "wal_data (db_walLog db) = log_of ws w (if m < 13 then m else 0)"
proof -
  let ?o = "withDefaults opts"
  let ?e = "NewEngine (o_Dir ?o) (o_SizeTieredThreshold ?o)"
  define wl where "wl = \<lparr>wal_data = log_of ws w m, wal_synced = 0, wal_closed = False,
      wal_path = o_Dir ?o @ ''/'' @ walFileName, wal_SyncOnAppend = (o_SyncMode ?o = SyncFull)\<rparr>"
  have wal: "Wal.Open no_faults (o_Dir ?o) (o_SyncMode ?o = SyncFull) log = Inr wl"
    using log by (simp add: Wal.Open_def wl_def Let_def)
  define db where "db = \<lparr>db_opts = ?o, db_walLog = wl, db_active = New, db_immutable = None, db_nextFileID = 1,
      db_readers = [], db_compact = ?e, db_flushChan = False, db_compactChan = False, db_closeChan = False,
      db_closed = False, db_disk = d\<rparr>"
  have "disk_holds (o_Dir opts) nn ee cc (db_disk db) S" using disk by (simp add: db_def)
  then obtain rs e' n c' where load:
    "loadSSTables no_dfaults db = Inr (db\<lparr>db_readers := rs, db_compact := e', db_nextFileID := n\<rparr>)"
    "readers_show rs S" "disk_holds (o_Dir opts) n e' c' (db_disk db) S"
    by (rule loadSSTables_shows) (simp_all add: db_def)
  let ?db = "db\<lparr>db_readers := rs, db_compact := e', db_nextFileID := n\<rparr>"
  have "wal_data (db_walLog ?db) = log_of ws w m" "\<not> wal_closed (db_walLog ?db)" "mt_inv (db_active ?db)"
    using mem.inv_empty by (simp_all add: db_def wl_def)
  then obtain mt' wl' where replay:
    "replayWAL no_faults coins ?db = (None, ?db\<lparr>db_walLog := wl', db_active := mt'\<rparr>)" "mt_inv mt'"
    "map_of (mt_table mt') = map_writes ws (map_of (mt_table (db_active ?db)))"
    "wal_data wl' = log_of ws w (if m < 13 then m else 0)" "\<not> wal_closed wl'"
    "wal_SyncOnAppend wl' = wal_SyncOnAppend (db_walLog ?db)"
    by (rule replayWAL_log [OF ws])
  have "db_Open no_dfaults coins opts d log = Inr (?db\<lparr>db_walLog := wl', db_active := mt'\<rparr>)"
    using dir wal load(1) replay(1) by (simp add: db_Open_def Let_def db_def)
  moreover have "loaded opts ws S d (?db\<lparr>db_walLog := wl', db_active := mt'\<rparr>)"
    using load(2,3) replay(2-6) mem.tab_empty by (auto simp: loaded_def db_def wl_def)
  ultimately show thesis by (rule that) (simp add: replay(4))
qed

lemma db_Open_shows:
  assumes "o_Dir opts \<noteq> ''''" "disk_holds (o_Dir opts) nn ee cc d S"
    and "list_all plain_write ws" "plain_write w" "torn_at w m"
    and "(case log of None \<Rightarrow> [] | Some b \<Rightarrow> b) = log_of ws w m"
  obtains db where "db_Open no_dfaults coins opts d log = Inr db" "opened opts ws S d db"
proof -
  have "0 < length (encode_record (record_of w))"
    using assms(4) by (simp add: plain_write_def length_encode_record)
  then have m: "m \<noteq> 13" "m < length (encode_record (record_of w))" "m < 13 \<longrightarrow> m = 0" using assms(5) by (auto simp: torn_at_def)
  obtain db where "db_Open no_dfaults coins opts d log = Inr db" "loaded opts ws S d db"
    "wal_data (db_walLog db) = log_of ws w (if m < 13 then m else 0)"
    by (rule db_Open_loads [OF assms(1-4) m(1,2) assms(6)])
  then show thesis using that m(3) by (auto simp: opened_def log_of_def split: if_splits)
qed

end
