(* ===== verification/Database_Steps.thy ===== *)
theory Database_Steps
  imports Database_View
begin

text \<open>
  The database as a state machine.  Clients, the flushing, compacting and syncing goroutines and \<^verbatim>\<open>Close\<close> take
  turns in steps of the size of a critical section; a write is two steps, the append to the log and the change
  of the MemTable.  A round of compaction is one step: it works on files that no other step changes.  The writing of the file of a flush
  and its installing are one step too, and so are the question of a write whether the database is closed and its append.  Two
  history variables record the writes in the order of the log and in the order in which they took effect.
\<close>

subsection \<open>States and steps\<close>

text \<open>Where the flushing goroutine is: waiting, with a rotated MemTable (and whether it returns afterwards),
  with the flush over, or returned; likewise the compacting one.\<close>

datatype flusher = FIdle | FWriting u64 bool | FInstalled bool | FDone
datatype compactor = CIdle | CReload | CSwap "Reader list" | CDone

record Sys =
  sy_db :: DB
  sy_flush :: flusher
  sy_compact :: compactor
  sy_pending :: "kv_write list"
  sy_logged :: "kv_write list"
  sy_applied :: "kv_write list"

datatype action =
    LogWrite faults kv_write
  | ApplyWrite nat "nat \<Rightarrow> bool"
  | FlushSignal
  | FlushQuit
  | FlushWrite dfaults
  | FlushEnd
  | CompactSignal cfaults
  | CompactQuit
  | ReloadOpen "string \<Rightarrow> rfaults"
  | ReloadSwap
  | SyncTick faults
  | CloseBegin
  | CloseEnd faults

definition write_log :: "faults \<Rightarrow> kv_write \<Rightarrow> DB \<Rightarrow> error option \<times> DB" where
  "write_log ft w db = (case w of (k, None) \<Rightarrow> delete_log ft k db | (k, Some v) \<Rightarrow> set_log ft k v db)"

definition write_apply :: "(nat \<Rightarrow> bool) \<Rightarrow> kv_write \<Rightarrow> DB \<Rightarrow> error option \<times> DB" where
  "write_apply coin w db = (case w of (k, None) \<Rightarrow> delete_apply coin k db | (k, Some v) \<Rightarrow> set_apply coin k v db)"

inductive step :: "Sys \<Rightarrow> action \<Rightarrow> Sys \<Rightarrow> bool" where
  log_ok: "write_log ft w (sy_db s) = (None, db') \<Longrightarrow>
    step s (LogWrite ft w) (s\<lparr>sy_db := db', sy_pending := sy_pending s @ [w], sy_logged := sy_logged s @ [w]\<rparr>)"
| log_error: "write_log ft w (sy_db s) = (Some e, db') \<Longrightarrow> step s (LogWrite ft w) (s\<lparr>sy_db := db'\<rparr>)"
| apply_write: "i < length (sy_pending s) \<Longrightarrow> write_apply coin (sy_pending s ! i) (sy_db s) = (None, db') \<Longrightarrow>
    step s (ApplyWrite i coin) (s\<lparr>sy_db := db', sy_pending := take i (sy_pending s) @ drop (Suc i) (sy_pending s),
      sy_applied := sy_applied s @ [sy_pending s ! i]\<rparr>)"
| flush_signal: "sy_flush s = FIdle \<Longrightarrow> db_flushChan (sy_db s) \<Longrightarrow>
    flush_rotate ((sy_db s)\<lparr>db_flushChan := False\<rparr>) = (r, db') \<Longrightarrow>
    step s FlushSignal (s\<lparr>sy_db := db', sy_flush := (case r of None \<Rightarrow> FIdle | Some i \<Rightarrow> FWriting i False)\<rparr>)"
| flush_quit: "sy_flush s = FIdle \<Longrightarrow> db_closeChan (sy_db s) \<Longrightarrow> flush_rotate (sy_db s) = (r, db') \<Longrightarrow>
    step s FlushQuit (s\<lparr>sy_db := db', sy_flush := (case r of None \<Rightarrow> FDone | Some i \<Rightarrow> FWriting i True)\<rparr>)"
| flush_write: "sy_flush s = FWriting i quit \<Longrightarrow>
    flushMemTable df (the (db_immutable (sy_db s))) i (sy_db s) = (e, db') \<Longrightarrow>
    step s (FlushWrite df) (s\<lparr>sy_db := db', sy_flush := FInstalled quit\<rparr>)"
| flush_end: "sy_flush s = FInstalled quit \<Longrightarrow>
    step s FlushEnd (s\<lparr>sy_db := flush_clear (sy_db s), sy_flush := (if quit then FDone else FIdle)\<rparr>)"
| compact_signal: "sy_compact s = CIdle \<Longrightarrow> db_compactChan (sy_db s) \<Longrightarrow>
    compact_run cf ((sy_db s)\<lparr>db_compactChan := False\<rparr>) = Some (reload, db') \<Longrightarrow>
    step s (CompactSignal cf) (s\<lparr>sy_db := db', sy_compact := (if reload then CReload else CIdle)\<rparr>)"
| compact_quit: "sy_compact s = CIdle \<Longrightarrow> db_closeChan (sy_db s) \<Longrightarrow> step s CompactQuit (s\<lparr>sy_compact := CDone\<rparr>)"
| reload_open: "sy_compact s = CReload \<Longrightarrow>
    step s (ReloadOpen rf) (s\<lparr>sy_compact := CSwap (reload_open rf (sy_db s))\<rparr>)"
| reload_swap: "sy_compact s = CSwap rs \<Longrightarrow>
    step s ReloadSwap (s\<lparr>sy_db := fst (reload_swap rs (sy_db s)), sy_compact := CIdle\<rparr>)"
| sync_tick: "o_SyncMode (db_opts (sy_db s)) = SyncBatched \<Longrightarrow>
    step s (SyncTick ft) (s\<lparr>sy_db := sync_turn ft (sy_db s)\<rparr>)"
| close_begin: "close_begin (sy_db s) = (e, db') \<Longrightarrow> step s CloseBegin (s\<lparr>sy_db := db'\<rparr>)"
| close_end: "sy_flush s = FDone \<Longrightarrow> sy_compact s = CDone \<Longrightarrow> close_end ft (sy_db s) = (e, db') \<Longrightarrow>
    step s (CloseEnd ft) (s\<lparr>sy_db := db'\<rparr>)"

inductive_simps step_simps:
  "step s (LogWrite ft w) s'" "step s (ApplyWrite i coin) s'" "step s FlushSignal s'" "step s FlushQuit s'"
  "step s (FlushWrite df) s'" "step s FlushEnd s'" "step s (CompactSignal cf) s'" "step s CompactQuit s'"
  "step s (ReloadOpen rf) s'" "step s ReloadSwap s'" "step s (SyncTick ft) s'" "step s CloseBegin s'"
  "step s (CloseEnd ft) s'"

definition start :: "DB \<Rightarrow> kv_write list \<Rightarrow> Sys" where
  "start db ws = \<lparr>sy_db = db, sy_flush = FIdle, sy_compact = CIdle, sy_pending = [], sy_logged = ws, sy_applied = ws\<rparr>"

subsection \<open>Calm executions\<close>

text \<open>The steps under which the database is shown to be correct: nothing fails, writes are plain, file
  identifiers do not wrap, MemTables and rounds stay below the size limit of a file, a compaction neither begins
  while a flush is under way nor lets one slip between opening the new readers and installing them, and a
  round leaves no newer file behind.\<close>

fun calm :: "Sys \<Rightarrow> action \<Rightarrow> bool" where
  "calm s (LogWrite ft w) \<longleftrightarrow> ft = no_faults \<and> (fst w = [] \<or> plain_write w)"
| "calm s FlushSignal \<longleftrightarrow> db_nextFileID (sy_db s) < - 2"
| "calm s FlushQuit \<longleftrightarrow> db_nextFileID (sy_db s) < - 2"
| "calm s (FlushWrite df) \<longleftrightarrow> df = no_dfaults \<and> (\<forall>rs. sy_compact s \<noteq> CSwap rs) \<and>
     (let mt = the (db_immutable (sy_db s)) in 16 * mt_Len mt + mt_ByteSize mt + 4 < 2 ^ 32)"
| "calm s (CompactSignal cf) \<longleftrightarrow> cf = no_cfaults \<and> (\<forall>i quit. sy_flush s \<noteq> FWriting i quit) \<and>
     (NeedsCompaction (db_compact (sy_db s)) \<longrightarrow> safe_round (db_compact (sy_db s)) \<and>
        small_round (db_disk (sy_db s)) (db_compact (sy_db s)) \<and> db_nextFileID (sy_db s) < - 2)"
| "calm s (ReloadOpen rf) \<longleftrightarrow> rf = (\<lambda>_. no_rfaults)"
| "calm s _ \<longleftrightarrow> True"

text \<open>Reachable from an empty directory by calm steps and by restarts, in which the process is killed between any two steps,
  perhaps while it appends one more record to the log, and the directory is opened again; the log that was written is all there.\<close>

inductive calm_reach :: "Sys \<Rightarrow> bool" where
  fresh: "o_Dir opts \<noteq> '''' \<Longrightarrow> db_Open no_dfaults coins opts fmempty None = Inr db \<Longrightarrow> calm_reach (start db [])"
| step: "calm_reach s \<Longrightarrow> step s a s' \<Longrightarrow> calm s a \<Longrightarrow> calm_reach s'"
| restart: "calm_reach s \<Longrightarrow> o_Dir opts = o_Dir (db_opts (sy_db s)) \<Longrightarrow> plain_write w \<Longrightarrow> torn_at w m \<Longrightarrow>
    db_Open no_dfaults coins opts (db_disk (sy_db s)) (Some (log_of (sy_logged s) w m)) = Inr db \<Longrightarrow>
    calm_reach (start db (sy_logged s))"

subsection \<open>The invariant\<close>

abbreviation imm_table :: "DB \<Rightarrow> table" where
  "imm_table db \<equiv> (case db_immutable db of None \<Rightarrow> [] | Some mt \<Rightarrow> mt_table mt)"

definition mem_ok :: "kv_write list \<Rightarrow> MemTable \<Rightarrow> bool" where
  "mem_ok ws mt \<longleftrightarrow> mt_inv mt \<and> fst ` set (mt_table mt) \<subseteq> fst ` set ws \<and> Val None \<notin> snd ` set (mt_table mt)"

fun imm_ok :: "kv_write list \<Rightarrow> MemTable option \<Rightarrow> bool" where
  "imm_ok ws None \<longleftrightarrow> True"
| "imm_ok ws (Some mt) \<longleftrightarrow> mem_ok ws mt"

definition flusher_ok :: "flusher \<Rightarrow> DB \<Rightarrow> (bytes \<Rightarrow> slice) \<Rightarrow> bool" where
  "flusher_ok fl db S \<longleftrightarrow>
     (case fl of
        FIdle \<Rightarrow> db_immutable db = None
      | FWriting i quit \<Rightarrow> db_immutable db \<noteq> None \<and> (\<forall>f \<in> set (en_files (db_compact db)). fm_FileID f < i) \<and>
          i \<le> db_nextFileID db \<and> i < - 1 \<and> (quit \<longrightarrow> db_closed db)
      | FInstalled quit \<Rightarrow> db_immutable db \<noteq> None \<and> over (imm_table db) S = S \<and> (quit \<longrightarrow> db_closed db)
      | FDone \<Rightarrow> db_immutable db = None \<and> db_closed db)"

definition compactor_ok :: "compactor \<Rightarrow> (bytes \<Rightarrow> slice) \<Rightarrow> bool" where
  "compactor_ok cp S \<longleftrightarrow> (case cp of CSwap rs \<Rightarrow> readers_show rs S | _ \<Rightarrow> True)"

definition log_ok_inv :: "Sys \<Rightarrow> bool" where
  "log_ok_inv s \<longleftrightarrow> wal_data (db_walLog (sy_db s)) = log_bytes (map record_of (sy_logged s)) \<and>
     (\<not> db_closed (sy_db s) \<longrightarrow> \<not> wal_closed (db_walLog (sy_db s))) \<and>
     (o_SyncMode (db_opts (sy_db s)) = SyncFull \<longrightarrow> wal_SyncOnAppend (db_walLog (sy_db s))) \<and>
     list_all plain_write (sy_logged s) \<and>
     mset (sy_logged s) = mset (sy_applied s) + mset (sy_pending s)"

definition view_ok :: "Sys \<Rightarrow> (bytes \<Rightarrow> slice) \<Rightarrow> bool" where
  "view_ok s S \<longleftrightarrow>
     (let db = sy_db s in
      (sy_flush s = FDone \<and> sy_compact s = CDone \<and> db_readers db = [] \<or> readers_show (db_readers db) S) \<and>
      (\<exists>c. disk_holds (o_Dir (db_opts db)) (db_nextFileID db) (db_compact db) c (db_disk db) S) \<and>
      flusher_ok (sy_flush s) db S \<and> compactor_ok (sy_compact s) S \<and>
      over (mt_table (db_active db)) (over (imm_table db) S) = (\<lambda>k. visible (map_writes (sy_applied s) Map.empty k)))"

definition sys_inv :: "Sys \<Rightarrow> bool" where
  "sys_inv s \<longleftrightarrow> o_Dir (db_opts (sy_db s)) \<noteq> '''' \<and> db_closeChan (sy_db s) = db_closed (sy_db s) \<and>
     mem_ok (sy_applied s) (db_active (sy_db s)) \<and>
     imm_ok (sy_applied s) (db_immutable (sy_db s)) \<and>
     log_ok_inv s \<and> (\<exists>S. view_ok s S)"

lemma sys_invI:
  assumes "sys_inv s" "view_ok s' S" "log_ok_inv s'" "o_Dir (db_opts (sy_db s')) = o_Dir (db_opts (sy_db s))"
    "db_closeChan (sy_db s') = db_closed (sy_db s')" "mem_ok (sy_applied s') (db_active (sy_db s'))"
    "imm_ok (sy_applied s') (db_immutable (sy_db s'))"
  shows "sys_inv s'"
  using assms by (auto simp: sys_inv_def)

lemma flusher_ok_upd [simp]:
  "flusher_ok fl (db\<lparr>db_active := mt\<rparr>) S = flusher_ok fl db S"
  "flusher_ok fl (db\<lparr>db_flushChan := b\<rparr>) S = flusher_ok fl db S"
  "flusher_ok fl (db\<lparr>db_compactChan := b\<rparr>) S = flusher_ok fl db S"
  "flusher_ok fl (db\<lparr>db_walLog := w\<rparr>) S = flusher_ok fl db S"
  "flusher_ok fl (db\<lparr>db_readers := rs\<rparr>) S = flusher_ok fl db S"
  by (simp_all add: flusher_ok_def cong: flusher.case_cong)

subsection \<open>Reading\<close>

lemma mem_ok_get:
  assumes "mem_ok ws mt"
  shows "map_of (mt_table mt) k = None \<Longrightarrow> \<exists>ent. mt_Get k mt = Some (ent, False)"
    and "map_of (mt_table mt) k = Some c \<Longrightarrow>
      \<exists>ent. mt_Get k mt = Some (ent, True) \<and> (if e_Deleted ent then None else e_Value ent) = visible (Some c)"
proof -
  have inv: "mt_inv mt" and nil: "Val None \<notin> snd ` set (mt_table mt)" using assms by (simp_all add: mem_ok_def)
  show "map_of (mt_table mt) k = None \<Longrightarrow> \<exists>ent. mt_Get k mt = Some (ent, False)"
    by (simp add: mt_Get_table [OF inv])
  assume c: "map_of (mt_table mt) k = Some c"
  show "\<exists>ent. mt_Get k mt = Some (ent, True) \<and> (if e_Deleted ent then None else e_Value ent) = visible (Some c)"
  proof (cases c)
    case (Val v)
    moreover have "c \<noteq> Val None" using nil map_of_SomeD [OF c] by (force simp: image_iff)
    ultimately show ?thesis using c by (cases v) (simp_all add: mt_Get_table [OF inv])
  qed (use c in \<open>simp add: mt_Get_table [OF inv]\<close>)
qed

lemma get_view:
  assumes inv: "sys_inv s" and alive: "\<not> db_closed (sy_db s)"
  shows "db_Get (\<lambda>_. no_rfaults) k (sy_db s) = Inr (visible (map_writes (sy_applied s) Map.empty k))"
proof -
  let ?db = "sy_db s"
  obtain S where S: "view_ok s S" and act: "mem_ok (sy_applied s) (db_active ?db)"
    using inv by (auto simp: sys_inv_def)
  have imm: "mem_ok (sy_applied s) mt" if "db_immutable ?db = Some mt" for mt
    using inv that by (simp add: sys_inv_def)
  have "sy_flush s \<noteq> FDone" using S alive by (auto simp: view_ok_def Let_def flusher_ok_def)
  then have rs: "get_readers (\<lambda>_. no_rfaults) (db_readers ?db) k = Inr (S k)"
    using S get_readers_show by (auto simp: view_ok_def Let_def)
  have view: "visible (map_writes (sy_applied s) Map.empty k) = over (mt_table (db_active ?db)) (over (imm_table ?db) S) k"
    using S by (simp add: view_ok_def Let_def)
  show ?thesis
  proof (cases "map_of (mt_table (db_active ?db)) k")
    case (Some c)
    with mem_ok_get(2) [OF act Some] alive show ?thesis unfolding view by (auto simp: db_Get_def over_def)
  next
    case act_None: None
    show ?thesis
    proof (cases "db_immutable ?db")
      case None
      with mem_ok_get(1) [OF act act_None] act_None alive rs show ?thesis
        unfolding view by (auto simp: db_Get_def over_def)
    next
      case (Some mt)
      then show ?thesis
        using mem_ok_get(1) [OF act act_None] act_None alive rs mem_ok_get [OF imm [OF Some], of k]
        unfolding view by (cases "map_of (mt_table mt) k") (fastforce simp: db_Get_def over_def)+
    qed
  qed
qed

subsection \<open>Writing\<close>

lemma map_writes_snoc: "map_writes (ws @ [(k, w)]) m = (map_writes ws m)(k \<mapsto> write_cell w)"
  by (simp add: map_writes_def)

lemma write_apply_ok:
  assumes act: "mem_ok ws (db_active db)" and w: "snd w \<noteq> Some None"
  obtains mt where "mem_ok (ws @ [w]) mt"
    "map_of (mt_table mt) = (map_of (mt_table (db_active db)))(fst w \<mapsto> write_cell (snd w))"
    "\<exists>b. write_apply coin w db = (None, db\<lparr>db_active := mt, db_flushChan := b\<rparr>)"
proof -
  obtain k c where kc: "w = (k, c)" by (cases w)
  have inv: "mt_inv (db_active db)" and keys: "fst ` set (mt_table (db_active db)) \<subseteq> fst ` set ws"
    and nil: "Val None \<notin> snd ` set (mt_table (db_active db))"
    using act by (simp_all add: mem_ok_def)
  obtain mt where mt: "mt_inv mt" "mt_table mt = table_upd k (write_cell c) (mt_table (db_active db))"
    "\<exists>b. write_apply coin w db = (None, db\<lparr>db_active := mt, db_flushChan := b\<rparr>)"
  proof (cases c)
    case None
    obtain mt where "mt_Delete coin k (db_active db) = Some mt" "mt_inv mt" "mt_table mt = table_upd k Tomb (mt_table (db_active db))"
      using mem.del_ok [OF inv, of coin k] by blast
    moreover from this have "write_apply coin w db = (None, db\<lparr>db_active := mt, db_flushChan := db_flushChan db\<rparr>)"
      using None kc by (simp add: write_apply_def delete_apply_def)
    then have "\<exists>b. write_apply coin w db = (None, db\<lparr>db_active := mt, db_flushChan := b\<rparr>)" by (rule exI)
    ultimately show thesis using None that [of mt] by simp
  next
    case (Some v)
    obtain mt where mt: "mt_Set coin k v (db_active db) = Some mt" "mt_inv mt" "mt_table mt = table_upd k (Val v) (mt_table (db_active db))"
      using mem.put_ok [OF inv, of coin k v] by blast
    let ?b = "db_flushChan db \<or> mt_ByteSize mt \<ge> o_MemTableSize (db_opts db)"
    have "write_apply coin w db = (None, db\<lparr>db_active := mt, db_flushChan := ?b\<rparr>)"
      using mt Some kc by (simp add: write_apply_def set_apply_def Let_def)
    with Some mt that show thesis by auto
  qed
  have sorted: "sorted_table (mt_table (db_active db))" by (rule mem.tab_sorted [OF inv])
  have m: "map_of (mt_table mt) = (map_of (mt_table (db_active db)))(k \<mapsto> write_cell c)"
    unfolding mt(2) using map_of_table_upd [OF sorted] by (simp add: fun_eq_iff)
  have d: "distinct (map fst (mt_table mt))" using sorted_table_distinct [OF mem.tab_sorted [OF mt(1)]] .
  have "fst ` set (mt_table mt) \<subseteq> fst ` set (ws @ [w])"
    using m keys kc by (auto simp: dom_map_of_conv_image_fst [symmetric])
  moreover have "Val None \<notin> snd ` set (mt_table mt)"
  proof
    assume "Val None \<in> snd ` set (mt_table mt)"
    then obtain x where "(x, Val None) \<in> set (mt_table mt)" by force
    then have "map_of (mt_table mt) x = Some (Val None)" using d by simp
    then have "map_of (mt_table (db_active db)) x = Some (Val None) \<or> write_cell c = Val None"
      using m by (auto split: if_splits)
    with nil w kc show False by (cases c) (force dest!: map_of_SomeD simp: image_iff)+
  qed
  ultimately have "mem_ok (ws @ [w]) mt" using mt(1) by (simp add: mem_ok_def)
  with m mt(3) kc show thesis by (intro that [of mt]) simp_all
qed

lemma over_write:
  assumes "map_of t' = (map_of t)(k \<mapsto> write_cell c)" "over t S = (\<lambda>k. visible (map_writes ws Map.empty k))"
  shows "over t' S = (\<lambda>x. visible (map_writes (ws @ [(k, c)]) Map.empty x))"
  using assms fun_cong [OF assms(2)] by (auto simp: over_def map_writes_snoc fun_eq_iff)

lemma imm_ok_more: "imm_ok ws m \<Longrightarrow> imm_ok (ws @ vs) m"
  by (cases m) (auto simp: mem_ok_def)

lemma apply_keeps:
  assumes inv: "sys_inv s" and "step s (ApplyWrite i coin) s'"
  shows "sys_inv s'"
proof -
  let ?w = "sy_pending s ! i" and ?db = "sy_db s"
  obtain db' where 1: "s' = s\<lparr>sy_db := db', sy_pending := take i (sy_pending s) @ drop (Suc i) (sy_pending s),
      sy_applied := sy_applied s @ [?w]\<rparr>" "i < length (sy_pending s)" "write_apply coin ?w ?db = (None, db')"
    using assms(2) by (auto simp: step_simps)
  obtain S where S: "view_ok s S" using inv by (auto simp: sys_inv_def)
  have log: "log_ok_inv s" and act: "mem_ok (sy_applied s) (db_active ?db)" using inv by (simp_all add: sys_inv_def)
  have "?w \<in> set (sy_logged s)"
    using log 1(2) by (metis (no_types) UnCI log_ok_inv_def nth_mem set_mset_mset set_mset_union)
  then have w: "snd ?w \<noteq> Some None" using log by (auto simp: log_ok_inv_def list_all_iff plain_write_def)
  from write_apply_ok [OF act w] obtain mt b where mt: "mem_ok (sy_applied s @ [?w]) mt"
    "map_of (mt_table mt) = (map_of (mt_table (db_active ?db)))(fst ?w \<mapsto> write_cell (snd ?w))"
    "write_apply coin ?w ?db = (None, ?db\<lparr>db_active := mt, db_flushChan := b\<rparr>)"
    by metis
  have db': "db' = ?db\<lparr>db_active := mt, db_flushChan := b\<rparr>" using 1(3) mt(3) by simp
  have "over (mt_table mt) (over (imm_table ?db) S) = (\<lambda>x. visible (map_writes (sy_applied s @ [?w]) Map.empty x))"
    using over_write [OF mt(2), of "over (imm_table ?db) S"] S by (simp add: view_ok_def Let_def)
  then have "view_ok s' S" using S by (simp add: view_ok_def Let_def 1(1) db')
  moreover have "mset (sy_pending s) = add_mset ?w (mset (take i (sy_pending s) @ drop (Suc i) (sy_pending s)))"
    using 1(2) by (metis add_mset_add_single append.assoc append_Cons append_Nil id_take_nth_drop mset.simps(2) mset_append union_mset_add_mset_right)
  then have "log_ok_inv s'" using log by (simp add: log_ok_inv_def 1(1) db')
  ultimately show ?thesis
    using inv mt(1) imm_ok_more [of "sy_applied s"] by (auto simp: sys_inv_def 1(1) db')
qed

lemma write_log_ok:
  assumes "\<not> db_closed db" "\<not> wal_closed (db_walLog db)" "fst w \<noteq> []"
  shows "\<exists>wl. write_log no_faults w db = (None, db\<lparr>db_walLog := wl\<rparr>) \<and>
    wal_data wl = wal_data (db_walLog db) @ encode_record (record_of w) \<and> \<not> wal_closed wl \<and>
    wal_SyncOnAppend wl = wal_SyncOnAppend (db_walLog db) \<and> (wal_SyncOnAppend wl \<longrightarrow> wal_synced wl = length (wal_data wl))"
  using assms by (cases w rule: record_of.cases)
    (auto simp: write_log_def set_log_def delete_log_def Append_no_faults)

lemma write_log_rejected:
  assumes "db_closed db \<or> fst w = []"
  shows "\<exists>e. write_log ft w db = (Some e, db)"
  using assms by (cases w rule: record_of.cases) (auto simp: write_log_def set_log_def delete_log_def)

lemma log_keeps:
  assumes inv: "sys_inv s" and st: "step s (LogWrite ft w) s'" and calm: "calm s (LogWrite ft w)"
  shows "sys_inv s'"
proof (cases "db_closed (sy_db s) \<or> fst w = []")
  case True
  then have "s' = s" using st write_log_rejected [OF True, of ft] by (auto simp: step_simps)
  then show ?thesis using inv by simp
next
  case False
  obtain S where S: "view_ok s S" using inv by (auto simp: sys_inv_def)
  have log: "log_ok_inv s" using inv by (simp add: sys_inv_def)
  obtain wl where wl: "write_log no_faults w (sy_db s) = (None, (sy_db s)\<lparr>db_walLog := wl\<rparr>)"
    "wal_data wl = wal_data (db_walLog (sy_db s)) @ encode_record (record_of w)" "\<not> wal_closed wl"
    "wal_SyncOnAppend wl = wal_SyncOnAppend (db_walLog (sy_db s))" "wal_SyncOnAppend wl \<longrightarrow> wal_synced wl = length (wal_data wl)"
    using write_log_ok [of "sy_db s" w] log False by (auto simp: log_ok_inv_def)
  have s': "s' = s\<lparr>sy_db := (sy_db s)\<lparr>db_walLog := wl\<rparr>, sy_pending := sy_pending s @ [w], sy_logged := sy_logged s @ [w]\<rparr>"
    using st calm wl(1) by (auto simp: step_simps)
  have "view_ok s' S" using S by (simp add: view_ok_def Let_def s')
  moreover have "log_ok_inv s'" using log wl(2-5) calm False by (simp add: log_ok_inv_def s')
  ultimately show ?thesis using inv by (auto simp: sys_inv_def s')
qed

subsection \<open>Flushing\<close>

lemma rotate_keeps:
  assumes inv: "sys_inv s" and fl: "sy_flush s = FIdle" and next_id: "db_nextFileID (sy_db s) < - 2"
    and rot: "flush_rotate ((sy_db s)\<lparr>db_flushChan := b\<rparr>) = (r, db')"
    and quit: "quit \<longrightarrow> db_closed (sy_db s)"
    and s': "s' = s\<lparr>sy_db := db', sy_flush := (case r of None \<Rightarrow> if quit then FDone else FIdle | Some i \<Rightarrow> FWriting i quit)\<rparr>"
  shows "sys_inv s'"
proof -
  let ?db = "sy_db s"
  obtain S where S: "view_ok s S" using inv by (auto simp: sys_inv_def)
  have imm: "db_immutable ?db = None" using S fl by (simp add: view_ok_def Let_def flusher_ok_def)
  show ?thesis
  proof (cases r)
    case None
    then have "db' = ?db\<lparr>db_flushChan := b\<rparr>"
      using rot by (auto simp: flush_rotate_def Let_def nextSSTableID_def split: if_splits)
    moreover from this have "view_ok s' S" "log_ok_inv s'"
      using S inv None fl imm quit by (auto simp: view_ok_def Let_def s' flusher_ok_def sys_inv_def log_ok_inv_def)
    ultimately show ?thesis using inv by (intro sys_invI [of s s' S]) (auto simp: sys_inv_def s')
  next
    case (Some i)
    then have db': "db' = ?db\<lparr>db_flushChan := b, db_immutable := Some (db_active ?db), db_active := New, db_nextFileID := i\<rparr>"
      and i: "i = db_nextFileID ?db + 1"
      using rot by (auto simp: flush_rotate_def Let_def nextSSTableID_def split: if_splits)
    have less: "db_nextFileID ?db < i" "i < - 1" using succ_u64 [of "db_nextFileID ?db"] next_id by (simp_all add: i)
    obtain c where disk: "disk_holds (o_Dir (db_opts ?db)) (db_nextFileID ?db) (db_compact ?db) c (db_disk ?db) S"
      using S by (auto simp: view_ok_def Let_def)
    then have ids: "\<forall>f \<in> set (en_files (db_compact ?db)). fm_FileID f < i"
      using less(1) by (auto simp: disk_holds_def intro: le_less_trans)
    have "disk_holds (o_Dir (db_opts ?db)) i (db_compact ?db) c (db_disk ?db) S"
      using disk less(1) by (auto simp: disk_holds_def)
    then have "view_ok s' S"
      using S ids less quit imm fl mem.tab_empty by (auto simp: view_ok_def Let_def s' Some db' flusher_ok_def)
    moreover have "mem_ok ws New" for ws using mem.inv_empty mem.tab_empty by (simp add: mem_ok_def)
    ultimately show ?thesis
      using inv by (intro sys_invI [of s s' S]) (auto simp: sys_inv_def s' Some db' log_ok_inv_def)
  qed
qed

lemma flush_write_view:
  assumes inv: "sys_inv s" and st: "step s (FlushWrite df) s'" and calm: "calm s (FlushWrite df)" and S: "view_ok s S"
  shows "sys_inv s'" and "view_ok s' (over (imm_table (sy_db s)) S)"
proof -
  let ?db = "sy_db s"
  obtain i quit e db' where fl: "sy_flush s = FWriting i quit"
    "flushMemTable df (the (db_immutable ?db)) i ?db = (e, db')"
    and s': "s' = s\<lparr>sy_db := db', sy_flush := FInstalled quit\<rparr>"
    using st by (auto simp: step_simps)
  obtain mt where mt: "db_immutable ?db = Some mt" and ids: "\<forall>f \<in> set (en_files (db_compact ?db)). fm_FileID f < i"
    "i \<le> db_nextFileID ?db" "i < - 1" "quit \<longrightarrow> db_closed ?db"
    using S fl(1) by (auto simp: view_ok_def Let_def flusher_ok_def)
  obtain c where rs: "readers_show (db_readers ?db) S"
    and disk: "disk_holds (o_Dir (db_opts ?db)) (db_nextFileID ?db) (db_compact ?db) c (db_disk ?db) S"
    using S fl(1) by (auto simp: view_ok_def Let_def)
  have ok: "mem_ok (sy_applied s) mt" using inv mt by (simp add: sys_inv_def)
  have "[] \<notin> fst ` set (sy_logged s)" "set (sy_applied s) \<subseteq> set (sy_logged s)"
    using inv by (auto simp: sys_inv_def log_ok_inv_def list_all_iff plain_write_def dest!: arg_cong [of _ _ set_mset])
  moreover have "fst ` set (mt_table mt) \<subseteq> fst ` set (sy_applied s)" using ok by (simp add: mem_ok_def)
  ultimately have "[] \<notin> fst ` set (mt_table mt)" by (meson image_mono subsetD)
  then have fit: "flushable mt" using calm mt by (simp add: flushable_def Let_def)
  have inv_mt: "mt_inv mt" using ok by (simp add: mem_ok_def)
  obtain r e' d c' where f:
    "flushMemTable no_dfaults mt i ?db = (None, ?db\<lparr>db_readers := r, db_compact := e', db_disk := d\<rparr>)"
    "readers_show r (over (mt_table mt) S)"
    "disk_holds (o_Dir (db_opts ?db)) (db_nextFileID ?db) e' c' d (over (mt_table mt) S)"
    by (rule flushMemTable_shows [OF inv_mt fit rs disk ids(1-3)])
  have db': "db' = ?db\<lparr>db_readers := r, db_compact := e', db_disk := d\<rparr>" using fl(2) f(1) mt calm by simp
  have "compactor_ok (sy_compact s) (over (mt_table mt) S)"
    using calm by (auto simp: compactor_ok_def split: compactor.splits)
  then have "view_ok s' (over (mt_table mt) S)"
    using S f(2,3) mt ids(4) by (auto simp: view_ok_def Let_def s' db' flusher_ok_def)
  then show "sys_inv s'" "view_ok s' (over (imm_table ?db) S)" using inv mt by (auto simp: sys_inv_def s' db' log_ok_inv_def)
qed

lemma flush_write_keeps:
  assumes inv: "sys_inv s" and st: "step s (FlushWrite df) s'" and calm: "calm s (FlushWrite df)"
  shows "sys_inv s'"
  using flush_write_view(1) [OF assms] inv by (auto simp: sys_inv_def)

lemma flush_end_keeps:
  assumes inv: "sys_inv s" and st: "step s FlushEnd s'"
  shows "sys_inv s'"
proof -
  obtain quit where fl: "sy_flush s = FInstalled quit"
    and s': "s' = s\<lparr>sy_db := flush_clear (sy_db s), sy_flush := (if quit then FDone else FIdle)\<rparr>"
    using st by (auto simp: step_simps)
  obtain S where S: "view_ok s S" using inv by (auto simp: sys_inv_def)
  then have "view_ok s' S"
    using fl by (auto simp: view_ok_def Let_def s' flush_clear_def flusher_ok_def)
  then show ?thesis using inv by (auto simp: sys_inv_def s' log_ok_inv_def flush_clear_def)
qed

subsection \<open>Compacting\<close>

lemma compact_keeps:
  assumes inv: "sys_inv s" and st: "step s (CompactSignal cf) s'" and calm: "calm s (CompactSignal cf)"
  shows "sys_inv s'"
proof -
  let ?db = "(sy_db s)\<lparr>db_compactChan := False\<rparr>"
  obtain reload db' where cp: "sy_compact s = CIdle" "compact_run no_cfaults ?db = Some (reload, db')"
    and s': "s' = s\<lparr>sy_db := db', sy_compact := (if reload then CReload else CIdle)\<rparr>"
    using st calm by (auto simp: step_simps)
  obtain S where S: "view_ok s S" using inv by (auto simp: sys_inv_def)
  have fl: "sy_flush s \<noteq> FWriting i quit" for i quit using calm by simp
  show ?thesis
  proof (cases "NeedsCompaction (db_compact (sy_db s))")
    case False
    then have "db' = ?db" "\<not> reload" using cp(2) by (auto simp: compact_run_def)
    moreover from this have "view_ok s' S" "log_ok_inv s'"
      using S inv cp(1) by (auto simp: view_ok_def Let_def s' sys_inv_def log_ok_inv_def compactor_ok_def)
    ultimately show ?thesis using inv by (intro sys_invI [of s s' S]) (auto simp: sys_inv_def s')
  next
    case True
    obtain c where "disk_holds (o_Dir (db_opts ?db)) (db_nextFileID ?db) (db_compact ?db) c (db_disk ?db) S"
      using S by (auto simp: view_ok_def Let_def)
    then obtain e d c' where r:
      "compact_run no_cfaults ?db = Some (True, ?db\<lparr>db_nextFileID := db_nextFileID ?db + 1, db_compact := e, db_disk := d\<rparr>)"
      "disk_holds (o_Dir (db_opts ?db)) (db_nextFileID ?db + 1) e c' d S"
      by (rule compact_run_shows) (use True calm in simp_all)
    have db': "db' = ?db\<lparr>db_nextFileID := db_nextFileID ?db + 1, db_compact := e, db_disk := d\<rparr>" and reload
      using cp(2) r(1) by auto
    then have "view_ok s' S"
      using S r(2) fl cp(1)
      by (auto simp: view_ok_def Let_def s' flusher_ok_def compactor_ok_def split: flusher.splits)
    then show ?thesis
      using inv by (intro sys_invI [of s s' S]) (auto simp: sys_inv_def s' db' log_ok_inv_def)
  qed
qed

lemma reload_open_keeps:
  assumes inv: "sys_inv s" and st: "step s (ReloadOpen rf) s'" and calm: "calm s (ReloadOpen rf)"
  shows "sys_inv s'"
proof -
  obtain S where S: "view_ok s S" using inv by (auto simp: sys_inv_def)
  have s': "s' = s\<lparr>sy_compact := CSwap (reload_open (\<lambda>_. no_rfaults) (sy_db s))\<rparr>" and cp: "sy_compact s = CReload"
    using st calm by (auto simp: step_simps)
  have "readers_show (reload_open (\<lambda>_. no_rfaults) (sy_db s)) S"
    using S reload_open_shows by (auto simp: view_ok_def Let_def)
  then have "view_ok s' S" using S cp by (auto simp: view_ok_def Let_def s' compactor_ok_def)
  then show ?thesis using inv by (intro sys_invI [of s s' S]) (auto simp: sys_inv_def s' log_ok_inv_def)
qed

lemma reload_swap_keeps:
  assumes inv: "sys_inv s" and st: "step s ReloadSwap s'"
  shows "sys_inv s'"
proof -
  obtain S where S: "view_ok s S" using inv by (auto simp: sys_inv_def)
  obtain rs where cp: "sy_compact s = CSwap rs"
    and s': "s' = s\<lparr>sy_db := (sy_db s)\<lparr>db_readers := rs\<rparr>, sy_compact := CIdle\<rparr>"
    using st by (auto simp: step_simps reload_swap_def)
  have "view_ok s' S" using S cp by (auto simp: view_ok_def Let_def s' compactor_ok_def)
  then show ?thesis using inv by (intro sys_invI [of s s' S]) (auto simp: sys_inv_def s' log_ok_inv_def)
qed

subsection \<open>Syncing and closing\<close>

lemma Sync_wal: "Wal.Sync ft w = (e, w') \<Longrightarrow> wal_data w' = wal_data w \<and> wal_closed w' = wal_closed w \<and>
    wal_SyncOnAppend w' = wal_SyncOnAppend w \<and> wal_synced w' \<in> {wal_synced w, length (wal_data w)}"
  by (auto simp: Sync_def file_Sync_def split: if_splits)

lemma Close_wal: "Wal.Close ft w = (e, w') \<Longrightarrow> wal_data w' = wal_data w \<and>
    wal_SyncOnAppend w' = wal_SyncOnAppend w \<and> wal_synced w' \<in> {wal_synced w, length (wal_data w)}"
  by (auto simp: Close_def file_Sync_def file_Close_def split: if_splits prod.splits option.splits)

lemma sync_keeps:
  assumes inv: "sys_inv s" and st: "step s (SyncTick ft) s'"
  shows "sys_inv s'"
proof -
  obtain S where S: "view_ok s S" using inv by (auto simp: sys_inv_def)
  obtain e w where sync: "Wal.Sync ft (db_walLog (sy_db s)) = (e, w)" by (cases "Wal.Sync ft (db_walLog (sy_db s))")
  then have s': "s' = s\<lparr>sy_db := (sy_db s)\<lparr>db_walLog := w\<rparr>\<rparr>" using st by (simp add: step_simps sync_turn_def)
  note w = Sync_wal [OF sync]
  have "view_ok s' S" "log_ok_inv s'" using S inv w by (auto simp: view_ok_def Let_def s' sys_inv_def log_ok_inv_def)
  then show ?thesis using inv by (intro sys_invI [of s s' S]) (auto simp: sys_inv_def s')
qed

lemma quit_keeps:
  assumes inv: "sys_inv s" and st: "step s CompactQuit s'"
  shows "sys_inv s'"
proof -
  obtain S where S: "view_ok s S" using inv by (auto simp: sys_inv_def)
  have s': "s' = s\<lparr>sy_compact := CDone\<rparr>" using st by (auto simp: step_simps)
  have "view_ok s' S" "log_ok_inv s'"
    using S inv by (auto simp: view_ok_def Let_def s' sys_inv_def log_ok_inv_def compactor_ok_def)
  then show ?thesis using inv by (intro sys_invI [of s s' S]) (auto simp: sys_inv_def s')
qed

lemma close_begin_keeps:
  assumes inv: "sys_inv s" and st: "step s CloseBegin s'"
  shows "sys_inv s'"
proof (cases "db_closed (sy_db s)")
  case True
  then have "s' = s" using st by (auto simp: step_simps close_begin_def)
  then show ?thesis using inv by simp
next
  case False
  obtain S where S: "view_ok s S" using inv by (auto simp: sys_inv_def)
  have s': "s' = s\<lparr>sy_db := (sy_db s)\<lparr>db_closed := True, db_closeChan := True, db_flushChan := True\<rparr>\<rparr>"
    using st False by (auto simp: step_simps close_begin_def)
  have "view_ok s' S" "log_ok_inv s'"
    using S inv by (auto simp: view_ok_def Let_def s' sys_inv_def log_ok_inv_def flusher_ok_def split: flusher.splits)
  then show ?thesis using inv by (intro sys_invI [of s s' S]) (auto simp: sys_inv_def s')
qed

lemma close_end_keeps:
  assumes inv: "sys_inv s" and st: "step s (CloseEnd ft) s'"
  shows "sys_inv s'"
proof -
  obtain S where S: "view_ok s S" using inv by (auto simp: sys_inv_def)
  obtain e w where close: "Wal.Close ft (db_walLog (sy_db s)) = (e, w)" by (cases "Wal.Close ft (db_walLog (sy_db s))")
  then have s': "s' = s\<lparr>sy_db := (sy_db s)\<lparr>db_readers := [], db_walLog := w\<rparr>\<rparr>"
    and fl: "sy_flush s = FDone" "sy_compact s = CDone"
    using st by (auto simp: step_simps close_end_def)
  note w = Close_wal [OF close]
  have "db_closed (sy_db s)" using S fl by (simp add: view_ok_def Let_def flusher_ok_def)
  then have "view_ok s' S" "log_ok_inv s'"
    using S inv fl w by (auto simp: view_ok_def Let_def s' sys_inv_def log_ok_inv_def)
  then show ?thesis using inv by (intro sys_invI [of s s' S]) (auto simp: sys_inv_def s')
qed

subsection \<open>Every calm step keeps the invariant\<close>

lemma calm_step_keeps:
  assumes inv: "sys_inv s" and st: "step s a s'" and calm: "calm s a"
  shows "sys_inv s'"
proof (cases a)
  case FlushSignal
  then obtain r db' where "sy_flush s = FIdle" "flush_rotate ((sy_db s)\<lparr>db_flushChan := False\<rparr>) = (r, db')"
    "s' = s\<lparr>sy_db := db', sy_flush := (case r of None \<Rightarrow> FIdle | Some i \<Rightarrow> FWriting i False)\<rparr>"
    using st by (auto simp: step_simps)
  then show ?thesis using rotate_keeps [OF inv _ _ _ _, of False r db' False s'] calm FlushSignal by simp
next
  case FlushQuit
  have closed: "db_closeChan (sy_db s) = db_closed (sy_db s)" using inv by (simp add: sys_inv_def)
  from FlushQuit obtain r db' where r: "sy_flush s = FIdle" "db_closeChan (sy_db s)" "flush_rotate (sy_db s) = (r, db')"
    "s' = s\<lparr>sy_db := db', sy_flush := (case r of None \<Rightarrow> FDone | Some i \<Rightarrow> FWriting i True)\<rparr>"
    using st by (auto simp: step_simps)
  moreover have "sy_db s = (sy_db s)\<lparr>db_flushChan := db_flushChan (sy_db s)\<rparr>" by simp
  ultimately show ?thesis
    using rotate_keeps [OF inv r(1), of "db_flushChan (sy_db s)" r db' True s'] calm FlushQuit closed by simp
qed (use inv st calm in \<open>auto simp del: calm.simps intro: log_keeps apply_keeps flush_write_keeps flush_end_keeps compact_keeps
      quit_keeps reload_open_keeps reload_swap_keeps sync_keeps close_begin_keeps close_end_keeps\<close>)

subsection \<open>Starting\<close>

lemma plain_cells: "list_all plain_write ws \<Longrightarrow> map_writes ws Map.empty k \<noteq> Some (Val None)"
proof (induction ws rule: rev_induct)
  case (snoc w ws)
  obtain x c where w: "w = (x, c)" by (cases w)
  then have "write_cell c \<noteq> Val None" using snoc.prems by (cases c) (auto simp: plain_write_def)
  with snoc w show ?case by (simp add: map_writes_snoc)
qed simp

lemma loaded_mem:
  assumes op: "loaded opts ws S d db" and ws: "list_all plain_write ws"
  shows "mem_ok ws (db_active db)"
proof -
  let ?t = "mt_table (db_active db)"
  have m: "map_of ?t = map_writes ws Map.empty" and inv: "mt_inv (db_active db)" using op by (simp_all add: loaded_def)
  have dom: "fst ` set ?t = fst ` set ws"
    using dom_map_writes [of ws Map.empty] by (simp add: m [symmetric] dom_map_of_conv_image_fst)
  have "Val None \<notin> snd ` set ?t"
  proof
    assume "Val None \<in> snd ` set ?t"
    then obtain x where "(x, Val None) \<in> set ?t" by force
    then have "map_of ?t x = Some (Val None)" using sorted_table_distinct [OF mem.tab_sorted [OF inv]] by simp
    then show False using plain_cells [OF ws] m by simp
  qed
  then show ?thesis using inv dom by (simp add: mem_ok_def)
qed

lemma loaded_over:
  assumes "loaded opts ws S d db"
  shows "over (mt_table (db_active db)) S k = (if k \<in> fst ` set ws then visible (map_writes ws Map.empty k) else S k)"
  using assms dom_map_writes [of ws Map.empty] by (auto simp: over_def loaded_def split: option.split)

lemma opened_inv:
  assumes op: "opened opts ws S d db" and dir: "o_Dir opts \<noteq> ''''" and ws: "list_all plain_write ws"
    and keys: "\<forall>k. k \<notin> fst ` set ws \<longrightarrow> S k = None"
  shows "sys_inv (start db ws)"
proof -
  have ld: "loaded opts ws S d db" using op by (simp add: opened_def)
  have act: "mem_ok ws (db_active db)" using ld ws by (rule loaded_mem)
  have "map_writes ws Map.empty k = None" if "k \<notin> fst ` set ws" for k
    using dom_map_writes [of ws Map.empty] that by (auto simp: domIff [symmetric])
  then have "over (mt_table (db_active db)) S k = visible (map_writes ws Map.empty k)" for k
    using keys loaded_over [OF ld, of k] by auto
  then have "view_ok (start db ws) S"
    using op by (auto simp: view_ok_def Let_def start_def opened_def loaded_def flusher_ok_def compactor_ok_def)
  moreover have "log_ok_inv (start db ws)" using op ws by (simp add: log_ok_inv_def start_def opened_def loaded_def)
  ultimately show ?thesis using act op dir by (auto simp: sys_inv_def start_def opened_def loaded_def)
qed

lemma loaded_get:
  assumes op: "loaded opts ws S d db" and ws: "list_all plain_write ws"
  shows "db_Get (\<lambda>_. no_rfaults) k db = Inr (if k \<in> fst ` set ws then visible (map_writes ws Map.empty k) else S k)"
proof -
  have "get_readers (\<lambda>_. no_rfaults) (db_readers db) k = Inr (S k)" "db_immutable db = None" "\<not> db_closed db"
    using op get_readers_show by (auto simp: loaded_def)
  then have "db_Get (\<lambda>_. no_rfaults) k db = Inr (over (mt_table (db_active db)) S k)"
    using mem_ok_get [OF loaded_mem [OF op ws], of k]
    by (cases "map_of (mt_table (db_active db)) k") (fastforce simp: db_Get_def over_def)+
  then show ?thesis by (simp only: loaded_over [OF op])
qed

lemma empty_disk: "disk_holds dir n (NewEngine dir t) c fmempty (\<lambda>_. None)"
  by (simp add: disk_holds_def stored_def merged_def)

lemma fresh_ok:
  assumes "o_Dir opts \<noteq> ''''"
  shows "\<exists>db. db_Open no_dfaults coins opts fmempty None = Inr db \<and> opened opts [] (\<lambda>_. None) fmempty db"
proof -
  obtain db where "db_Open no_dfaults coins opts fmempty None = Inr db" "opened opts [] (\<lambda>_. None) fmempty db"
    by (rule db_Open_shows [OF assms empty_disk, of "[]" "([0], None)" 0 None coins])
      (simp_all add: plain_write_def torn_at_def wf_record_def log_of_def)
  then show ?thesis by blast
qed

lemma mem_ok_absent: "mem_ok ws mt \<Longrightarrow> k \<notin> fst ` set ws \<Longrightarrow> map_of (mt_table mt) k = None"
  by (auto simp: mem_ok_def map_of_eq_None_iff)

lemma recover_ok:
  assumes inv: "sys_inv s" and dir: "o_Dir opts = o_Dir (db_opts (sy_db s))" and w: "plain_write w" "torn_at w m"
  shows "\<exists>db. db_Open no_dfaults coins opts (db_disk (sy_db s)) (Some (log_of (sy_logged s) w m)) = Inr db \<and>
    \<not> db_closed db \<and> sys_inv (start db (sy_logged s))"
proof -
  let ?db = "sy_db s"
  obtain S c where S: "view_ok s S"
    and disk: "disk_holds (o_Dir opts) (db_nextFileID ?db) (db_compact ?db) c (db_disk ?db) S"
    using inv dir by (auto simp: sys_inv_def view_ok_def Let_def)
  have ws: "list_all plain_write (sy_logged s)" and dir': "o_Dir opts \<noteq> ''''"
    and sub: "set (sy_applied s) \<subseteq> set (sy_logged s)"
    using inv dir by (auto simp: sys_inv_def log_ok_inv_def dest!: arg_cong [of _ _ set_mset])
  obtain db where db: "db_Open no_dfaults coins opts (db_disk ?db) (Some (log_of (sy_logged s) w m)) = Inr db"
    "opened opts (sy_logged s) S (db_disk ?db) db"
    by (rule db_Open_shows [OF dir' disk ws w, of "Some (log_of (sy_logged s) w m)" coins]) simp_all
  have "S k = None" if k: "k \<notin> fst ` set (sy_logged s)" for k
  proof -
    have k': "k \<notin> fst ` set (sy_applied s)" using k sub by blast
    have "map_of (mt_table (db_active ?db)) k = None" "map_of (imm_table ?db) k = None"
      using inv mem_ok_absent [OF _ k'] by (auto simp: sys_inv_def split: option.split)
    then have "S k = over (mt_table (db_active ?db)) (over (imm_table ?db) S) k" by (simp add: over_def)
    also have "\<dots> = visible (map_writes (sy_applied s) Map.empty k)" using S by (simp add: view_ok_def Let_def)
    also have "map_writes (sy_applied s) Map.empty k = None"
      using dom_map_writes [of "sy_applied s" Map.empty] k' by (auto simp: domIff [symmetric])
    finally show ?thesis by simp
  qed
  then have "sys_inv (start db (sy_logged s))" using opened_inv [OF db(2) dir' ws] by blast
  moreover have "\<not> db_closed db" using db(2) by (simp add: opened_def loaded_def)
  ultimately show ?thesis using db(1) by blast
qed

lemma calm_reach_inv: "calm_reach s \<Longrightarrow> sys_inv s"
proof (induction rule: calm_reach.induct)
  case (fresh opts coins db)
  then have "opened opts [] (\<lambda>_. None) fmempty db" using fresh_ok [OF fresh(1), of coins] by auto
  then show ?case by (rule opened_inv) (use fresh(1) in simp_all)
next
  case (step s a s')
  then show ?case using calm_step_keeps by blast
next
  case (restart s opts w m coins db)
  then show ?case using recover_ok [of s opts w m coins] by auto
qed

end
