(* ===== verification/Database_Runs.thy ===== *)
theory Database_Runs
  imports Database_Steps "HOL-Library.Sublist"
begin

text \<open>
  Executions of the state machine: a write that nothing prevents goes through, and every history of plain writes
  is the history of some reachable state.
\<close>

subsection \<open>Runs of a write\<close>

text \<open>A write that nothing prevents goes through its two steps.\<close>

lemma calm_write:
  assumes s: "calm_reach s" and alive: "\<not> db_closed (sy_db s)" and w: "plain_write w"
  obtains db1 db2 s' where "write_log no_faults w (sy_db s) = (None, db1)" "write_apply coin w db1 = (None, db2)"
    "calm_reach s'" "sy_db s' = db2" "\<not> db_closed db2" "sy_applied s' = sy_applied s @ [w]"
    "sy_logged s' = sy_logged s @ [w]" "sy_pending s' = sy_pending s" "sy_flush s' = sy_flush s" "sy_compact s' = sy_compact s"
    "db_opts db2 = db_opts (sy_db s)" "db_nextFileID db2 = db_nextFileID (sy_db s)" "db_readers db2 = db_readers (sy_db s)"
    "map_of (mt_table (db_active db2)) = (map_of (mt_table (db_active (sy_db s))))(fst w \<mapsto> write_cell (snd w))"
proof -
  have inv: "sys_inv s" using s by (rule calm_reach_inv)
  have key: "fst w \<noteq> []" and val: "snd w \<noteq> Some None" using w by (simp_all add: plain_write_def)
  obtain wl where log: "write_log no_faults w (sy_db s) = (None, (sy_db s)\<lparr>db_walLog := wl\<rparr>)"
    using write_log_ok [of "sy_db s" w] inv alive key by (auto simp: sys_inv_def log_ok_inv_def)
  define db1 where "db1 = (sy_db s)\<lparr>db_walLog := wl\<rparr>"
  define s1 where "s1 = s\<lparr>sy_db := db1, sy_pending := sy_pending s @ [w], sy_logged := sy_logged s @ [w]\<rparr>"
  have "step s (LogWrite no_faults w) s1" using log by (auto simp: step_simps s1_def db1_def)
  then have s1: "calm_reach s1" using s w by (auto intro: calm_reach.step)
  have "mem_ok (sy_applied s) (db_active db1)" using inv by (simp add: sys_inv_def db1_def)
  then obtain mt b where app: "write_apply coin w db1 = (None, db1\<lparr>db_active := mt, db_flushChan := b\<rparr>)"
    "map_of (mt_table mt) = (map_of (mt_table (db_active db1)))(fst w \<mapsto> write_cell (snd w))"
    using write_apply_ok [OF _ val] by metis
  let ?i = "length (sy_pending s)"
  define s2 where "s2 = s1\<lparr>sy_db := db1\<lparr>db_active := mt, db_flushChan := b\<rparr>, sy_pending := sy_pending s,
    sy_applied := sy_applied s @ [w]\<rparr>"
  have "step s1 (ApplyWrite ?i coin) s2" using app(1) by (auto simp: step_simps s1_def s2_def)
  then have "calm_reach s2" using s1 by (auto intro: calm_reach.step)
  with log app alive show thesis
    by (intro that [of db1 "db1\<lparr>db_active := mt, db_flushChan := b\<rparr>" s2]) (auto simp: s1_def s2_def db1_def)
qed

lemma db_Set_log: "db_Set ft coin k v db = (case write_log ft (k, Some v) db of
    (Some e, db) \<Rightarrow> (Some e, db) | (None, db) \<Rightarrow> write_apply coin (k, Some v) db)"
  by (simp add: db_Set_def write_log_def write_apply_def split: prod.split option.split)

lemma db_Delete_log: "db_Delete ft coin k db = (case write_log ft (k, None) db of
    (Some e, db) \<Rightarrow> (Some e, db) | (None, db) \<Rightarrow> write_apply coin (k, None) db)"
  by (simp add: db_Delete_def write_log_def write_apply_def split: prod.split option.split)

text \<open>A fresh database that went through the writes \<open>ws\<close>.\<close>

definition wrote :: "Options \<Rightarrow> kv_write list \<Rightarrow> Sys \<Rightarrow> bool" where
  "wrote opts ws s \<longleftrightarrow> calm_reach s \<and> \<not> db_closed (sy_db s) \<and> sy_applied s = ws \<and> sy_logged s = ws \<and>
     sy_pending s = [] \<and> sy_flush s = FIdle \<and> sy_compact s = CIdle \<and> db_opts (sy_db s) = withDefaults opts \<and>
     db_nextFileID (sy_db s) = 1 \<and> readers_show (db_readers (sy_db s)) (\<lambda>_. None) \<and> map_of (mt_table (db_active (sy_db s))) = map_writes ws Map.empty"

lemma fresh_next_id: "db_Open no_dfaults coins opts fmempty None = Inr db \<Longrightarrow> db_nextFileID db = 1"
  by (auto simp: db_Open_def loadSSTables_def Glob_def sorted_list_of_fset.rep_eq replayWAL_def Let_def
      split: if_splits sum.splits prod.splits option.splits)

lemma calm_run:
  assumes "o_Dir opts \<noteq> ''''" "list_all plain_write ws"
  shows "\<exists>s. wrote opts ws s"
  using assms(2)
proof (induction ws rule: rev_induct)
  case Nil
  obtain db where "db_Open no_dfaults (\<lambda>_ _. True) opts fmempty None = Inr db" "opened opts [] (\<lambda>_. None) fmempty db"
    using fresh_ok [OF assms(1)] by blast
  then have "wrote opts [] (start db [])"
    using calm_reach.fresh [OF assms(1)] fresh_next_id by (auto simp: wrote_def start_def opened_def loaded_def)
  then show ?case ..
next
  case (snoc w ws)
  then obtain s where s: "wrote opts ws s" by auto
  have "calm_reach s" "\<not> db_closed (sy_db s)" using s by (simp_all add: wrote_def)
  moreover have "plain_write w" using snoc.prems by simp
  ultimately obtain db1 db2 s' where "calm_reach s'" "sy_db s' = db2" "\<not> db_closed db2" "sy_applied s' = sy_applied s @ [w]"
    "sy_logged s' = sy_logged s @ [w]" "sy_pending s' = sy_pending s" "sy_flush s' = sy_flush s"
    "sy_compact s' = sy_compact s" "db_opts db2 = db_opts (sy_db s)" "db_nextFileID db2 = db_nextFileID (sy_db s)"
    "db_readers db2 = db_readers (sy_db s)"
    "map_of (mt_table (db_active db2)) = (map_of (mt_table (db_active (sy_db s))))(fst w \<mapsto> write_cell (snd w))"
    by (rule calm_write [where coin = "\<lambda>_. True"])
  then have "wrote opts (ws @ [w]) s'" using s by (cases w) (simp add: wrote_def map_writes_snoc)
  then show ?case ..
qed

lemmas calm_reads = get_view [OF calm_reach_inv]

subsection \<open>An example\<close>

definition opts_example :: Options where
  "opts_example = DefaultOptions\<lparr>o_Dir := ''data''\<rparr>"

definition writes_example :: "kv_write list" where
  "writes_example = [([1], Some (Some [7])), ([2], Some (Some [8])), ([1], None), ([2], Some (Some [9]))]"

lemma writes_example_plain: "list_all plain_write writes_example"
  by (simp add: writes_example_def plain_write_def wf_record_def)

lemma wrote_example: "\<exists>s. wrote opts_example writes_example s"
  by (rule calm_run) (simp_all add: writes_example_plain opts_example_def)

lemma sorted_table_unique:
  assumes "map_of t = map_of u" "sorted_table (t :: table)" "sorted_table u"
  shows "t = u"
proof -
  have keys: "map fst t = sorted_list_of_set (dom (map_of t))" if "sorted_table t" for t :: table
    using that by (metis List.finite_set dom_map_of_conv_image_fst list.set_map
        sorted_list_of_set.idem_if_sorted_distinct strict_sorted_iff)
  have vals: "t = map (\<lambda>k. (k, the (map_of t k))) (map fst t)" if "sorted_table t" for t :: table
    using sorted_table_distinct [OF that] by (auto intro!: map_idI [symmetric] simp: comp_def)
  from vals [OF assms(2)] vals [OF assms(3)] keys [OF assms(2)] keys [OF assms(3)] assms(1) show ?thesis by metis
qed

subsection \<open>Calm steps\<close>

text \<open>Calm steps of the other goroutines, without a restart.\<close>

inductive calm_steps :: "Sys \<Rightarrow> Sys \<Rightarrow> bool" where
  refl: "calm_steps s s"
| snoc: "calm_steps s t \<Longrightarrow> step t a t' \<Longrightarrow> calm t a \<Longrightarrow> calm_steps s t'"

declare calm_steps.refl [simp, intro]

lemma calm_steps_reach: "calm_steps s t \<Longrightarrow> calm_reach s \<Longrightarrow> calm_reach t"
  by (induction rule: calm_steps.induct) (auto intro: calm_reach.step)

lemma calm_steps_trans: "calm_steps t u \<Longrightarrow> calm_steps s t \<Longrightarrow> calm_steps s u"
  by (induction rule: calm_steps.induct) (auto intro: calm_steps.snoc)

text \<open>Later states: after calm steps and after restarts, as in \<open>calm_reach\<close>.\<close>

inductive calm_later :: "Sys \<Rightarrow> Sys \<Rightarrow> bool" where
  refl: "calm_later s s"
| step: "calm_later s t \<Longrightarrow> step t a t' \<Longrightarrow> calm t a \<Longrightarrow> calm_later s t'"
| restart: "calm_later s t \<Longrightarrow> o_Dir opts = o_Dir (db_opts (sy_db t)) \<Longrightarrow> plain_write w \<Longrightarrow> torn_at w m \<Longrightarrow>
    db_Open no_dfaults coins opts (db_disk (sy_db t)) (Some (log_of (sy_logged t) w m)) = Inr db \<Longrightarrow>
    calm_later s (start db (sy_logged t))"

declare calm_later.refl [simp, intro]

lemma calm_later_reach: "calm_later s t \<Longrightarrow> calm_reach s \<Longrightarrow> calm_reach t"
  by (induction rule: calm_later.induct) (auto intro: calm_reach.step calm_reach.restart)

lemmas step_unfold = write_log_def set_log_def delete_log_def write_apply_def set_apply_def delete_apply_def flush_rotate_def
  nextSSTableID_def flushMemTable_def flush_clear_def compact_run_def reload_swap_def sync_turn_def close_begin_def
  close_end_def Let_def

text \<open>A database that is open at the end of a step was open before it.\<close>

lemma step_closed: "step t a t' \<Longrightarrow> db_closed (sy_db t) \<Longrightarrow> db_closed (sy_db t')"
  by (induction rule: step.induct)
    (auto simp: step_unfold split: option.splits prod.splits if_splits sum.splits)

lemma step_logged: "step t a t' \<Longrightarrow> prefix (sy_logged t) (sy_logged t')"
  by (induction rule: step.induct) simp_all

lemma calm_later_logged: "calm_later s t \<Longrightarrow> prefix (sy_logged s) (sy_logged t)"
  by (induction rule: calm_later.induct) (auto simp: start_def dest: step_logged intro: prefix_order.trans)

end
