(* ===== verification/Server.thy ===== *)
theory Server
  imports Database_Runs
begin

text \<open>
  The TCP server of \<^verbatim>\<open>cmd/server/main.go\<close>: the sync flag, the lines of a connection and the handler of a request.
  Go strings are byte strings.  Texts that depend on Unicode tables or on the arguments of an error are
  parameters: upper case and quotation of strings with bytes outside ASCII, and the text of an error.
\<close>

subsection \<open>Strings\<close>

definition str :: "string \<Rightarrow> bytes" where
  "str s = map of_char s"

definition LF :: byte where "LF = 10"
definition CR :: byte where "CR = 13"
definition SP :: byte where "SP = 32"

definition crlf :: bytes where "crlf = [CR, LF]"

record texts =
  tx_upper :: "bytes \<Rightarrow> bytes"
  tx_quote :: "bytes \<Rightarrow> bytes"
  tx_error :: "error \<Rightarrow> bytes"

definition is_ascii :: "bytes \<Rightarrow> bool" where
  "is_ascii s \<longleftrightarrow> list_all (\<lambda>c. c < 128) s"

definition upper_byte :: "byte \<Rightarrow> byte" where
  "upper_byte c = (if 97 \<le> c \<and> c \<le> 122 then c - 32 else c)"

definition ToUpper :: "texts \<Rightarrow> bytes \<Rightarrow> bytes" where
  "ToUpper tx s = (if is_ascii s then map upper_byte s else tx_upper tx s)"

text \<open>\<^verbatim>\<open>strings.TrimRight(s, "\r\n")\<close> and \<^verbatim>\<open>strings.SplitN(s, " ", n)\<close>.\<close>

definition TrimRight :: "bytes \<Rightarrow> bytes" where
  "TrimRight s = rev (dropWhile (\<lambda>c. c = CR \<or> c = LF) (rev s))"

fun SplitN :: "bytes \<Rightarrow> nat \<Rightarrow> bytes list" where
  "SplitN s 0 = []"
| "SplitN s (Suc 0) = [s]"
| "SplitN s (Suc (Suc n)) =
     (case dropWhile (\<lambda>c. c \<noteq> SP) s of
        [] \<Rightarrow> [s]
      | _ # rest \<Rightarrow> takeWhile (\<lambda>c. c \<noteq> SP) s # SplitN rest (Suc n))"

text \<open>The verbs \<^verbatim>\<open>%d\<close> and \<^verbatim>\<open>%q\<close>.\<close>

fun show_nat :: "nat \<Rightarrow> bytes" where
  "show_nat n = (if n < 10 then [of_nat (48 + n)] else show_nat (n div 10) @ [of_nat (48 + n mod 10)])"

declare show_nat.simps [simp del]

definition show_int :: "int \<Rightarrow> bytes" where
  "show_int i = (if i < 0 then 45 # show_nat (nat (- i)) else show_nat (nat i))"

definition hex_byte :: "byte \<Rightarrow> bytes" where
  "hex_byte c = map (\<lambda>d. of_char (hex_char d)) [uint c div 16, uint c mod 16]"

definition quote_byte :: "byte \<Rightarrow> bytes" where
  "quote_byte c =
     (if c = 34 \<or> c = 92 then [92, c]
      else if c = 7 then str [CHR 92, CHR ''a''] else if c = 8 then str [CHR 92, CHR ''b'']
      else if c = 12 then str [CHR 92, CHR ''f''] else if c = 10 then str [CHR 92, CHR ''n'']
      else if c = 13 then str [CHR 92, CHR ''r''] else if c = 9 then str [CHR 92, CHR ''t'']
      else if c = 11 then str [CHR 92, CHR ''v'']
      else if 32 \<le> c \<and> c < 127 then [c]
      else str [CHR 92, CHR ''x''] @ hex_byte c)"

definition Quote :: "texts \<Rightarrow> bytes \<Rightarrow> bytes" where
  "Quote tx s = (if is_ascii s then 34 # concat (map quote_byte s) @ [34] else tx_quote tx s)"

subsection \<open>The sync flag\<close>

text \<open>The switch of \<^verbatim>\<open>main\<close>; without a mode the process exits.\<close>

definition sync_flag :: "string \<Rightarrow> SyncMode option" where
  "sync_flag syncMode =
     (if syncMode = ''full'' then Some SyncFull
      else if syncMode = ''batched'' then Some SyncBatched
      else if syncMode = ''none'' then Some SyncNone
      else None)"

definition server_options :: "string \<Rightarrow> SyncMode \<Rightarrow> int \<Rightarrow> Options" where
  "server_options dataDir sm memMB =
     \<lparr>o_Dir = dataDir, o_MemTableSize = signed_take_bit 63 (memMB * 1024 * 1024), o_SyncMode = sm, o_SyncIntervalMs = 0,
      o_CompactionStrategy = '''', o_SizeTieredThreshold = 0, o_BloomFPRate = F64 0 0, o_BlockSize = 0,
      o_MaxOpenFiles = 0\<rparr>"

subsection \<open>Lines\<close>

text \<open>\<^verbatim>\<open>bufio.Scanner\<close> with its default split function: a line ends at a line feed, which has to come within the
  64 KiB of the buffer, or with the input; one carriage return before it is dropped.  \<open>None\<close> ends the loop.\<close>

definition dropCR :: "bytes \<Rightarrow> bytes" where
  "dropCR s = (if s \<noteq> [] \<and> last s = CR then butlast s else s)"

definition maxTokenSize :: nat where "maxTokenSize = 65536"

definition Scan :: "bytes \<Rightarrow> (bytes \<times> bytes) option" where
  "Scan input =
     (let line = takeWhile (\<lambda>c. c \<noteq> LF) input; rest = dropWhile (\<lambda>c. c \<noteq> LF) input in
      if length line \<ge> maxTokenSize then None
      else if rest \<noteq> [] then Some (dropCR line, tl rest)
      else if line \<noteq> [] then Some (dropCR line, [])
      else None)"

lemma Scan_shorter: "Scan input = Some (line, rest) \<Longrightarrow> length rest < length input"
proof -
  assume "Scan input = Some (line, rest)"
  then have "rest = [] \<and> input \<noteq> [] \<or> dropWhile (\<lambda>c. c \<noteq> LF) input \<noteq> [] \<and> rest = tl (dropWhile (\<lambda>c. c \<noteq> LF) input)"
    by (auto simp: Scan_def Let_def split: if_splits)
  then show ?thesis
    using length_dropWhile_le [of "\<lambda>c. c \<noteq> LF" input]
    by (cases "dropWhile (\<lambda>c. c \<noteq> LF) input") auto
qed

subsection \<open>Requests\<close>

text \<open>What the environment decides during one request: failures of the log and of the readers, and the random
  source of the MemTable.\<close>

record request_env =
  re_wal :: faults
  re_coin :: "nat \<Rightarrow> bool"
  re_read :: "Reader \<Rightarrow> rfaults"

text \<open>A request is answered, or skipped when its line is blank, or ends the process with a panic, which nothing
  recovers.\<close>

datatype outcome = Skipped | Reply bytes | Crash

definition reply_error :: "texts \<Rightarrow> error \<Rightarrow> outcome" where
  "reply_error tx e = (if e = Panic then Crash else Reply (str ''-ERR '' @ tx_error tx e @ crlf))"

definition stat_reply :: "DB \<Rightarrow> bytes" where
  "stat_reply db =
     (let s = Stats db in
      str ''+{\"memtable_bytes\":'' @ show_int (st_MemTableBytes s) @
      str '',\"memtable_entries\":'' @ show_int (st_MemTableEntries s) @
      str '',\"sstables\":'' @ show_int (st_SSTables s) @
      str '',\"disk_bytes\":'' @ show_int (st_TotalDiskBytes s) @ str ''}'' @ crlf)"

definition handle_line :: "texts \<Rightarrow> request_env \<Rightarrow> bytes \<Rightarrow> DB \<Rightarrow> outcome \<times> DB" where
  "handle_line tx env text db =
     (let line = TrimRight text in
      if line = [] then (Skipped, db)
      else
        let parts = SplitN line 3;
            cmd = ToUpper tx (parts ! 0)
        in if cmd = str ''SET'' then
             if length parts < 3 then (Reply (str ''-ERR SET requires key and value'' @ crlf), db)
             else
               (case db_Set (re_wal env) (re_coin env) (parts ! 1) (Some (parts ! 2)) db of
                  (Some e, db) \<Rightarrow> (reply_error tx e, db)
                | (None, db) \<Rightarrow> (Reply (str ''+OK'' @ crlf), db))
           else if cmd = str ''GET'' then
             if length parts < 2 then (Reply (str ''-ERR GET requires key'' @ crlf), db)
             else
               (case db_Get (re_read env) (parts ! 1) db of
                  Inl e \<Rightarrow> (reply_error tx e, db)
                | Inr None \<Rightarrow> (Reply (str ''-ERR not found'' @ crlf), db)
                | Inr (Some v) \<Rightarrow> (Reply (str ''+'' @ v @ crlf), db))
           else if cmd = str ''DEL'' then
             if length parts < 2 then (Reply (str ''-ERR DEL requires key'' @ crlf), db)
             else
               (case db_Delete (re_wal env) (re_coin env) (parts ! 1) db of
                  (Some e, db) \<Rightarrow> (reply_error tx e, db)
                | (None, db) \<Rightarrow> (Reply (str ''+OK'' @ crlf), db))
           else if cmd = str ''PING'' then (Reply (str ''+PONG'' @ crlf), db)
           else if cmd = str ''STAT'' then (Reply (stat_reply db), db)
           else (Reply (str ''-ERR unknown command '' @ Quote tx cmd @ crlf), db))"

text \<open>The loop of a connection that sends the bytes \<open>input\<close>: the replies, in order, whether a panic ended it, and
  the database afterwards.\<close>

function handleConn :: "texts \<Rightarrow> (nat \<Rightarrow> request_env) \<Rightarrow> bytes \<Rightarrow> DB \<Rightarrow> bytes list \<times> bool \<times> DB" where
  "handleConn tx env input db =
     (case Scan input of
        None \<Rightarrow> ([], False, db)
      | Some (text, rest) \<Rightarrow>
          (case handle_line tx (env 0) text db of
             (Crash, db) \<Rightarrow> ([], True, db)
           | (Skipped, db) \<Rightarrow> handleConn tx (\<lambda>i. env (Suc i)) rest db
           | (Reply r, db) \<Rightarrow>
               (case handleConn tx (\<lambda>i. env (Suc i)) rest db of (replies, crashed, db) \<Rightarrow> (r # replies, crashed, db))))"
  by pat_completeness auto
termination by (relation "measure (\<lambda>(tx, env, input, db). length input)") (auto dest: Scan_shorter)

declare handleConn.simps [simp del]

subsection \<open>Lines and words\<close>

lemma char_codes [simp]: "CR \<noteq> LF" "LF \<noteq> CR" "SP \<noteq> LF" "LF \<noteq> SP" "SP \<noteq> CR" "CR \<noteq> SP"
  by (simp_all add: CR_def LF_def SP_def)

lemma Scan_line:
  assumes "LF \<notin> set l" "length l + 1 < maxTokenSize"
  shows "Scan (l @ crlf @ rest) = Some (l, rest)"
proof -
  have "takeWhile (\<lambda>c. c \<noteq> LF) (l @ crlf @ rest) = l @ [CR]" "dropWhile (\<lambda>c. c \<noteq> LF) (l @ crlf @ rest) = LF # rest"
    using assms(1) by (auto simp: crlf_def takeWhile_append dropWhile_append takeWhile_eq_all_conv [THEN iffD2])
  then show ?thesis using assms(2) by (simp add: Scan_def dropCR_def Let_def)
qed

lemma TrimRight_same: "l \<noteq> [] \<Longrightarrow> last l \<noteq> CR \<Longrightarrow> last l \<noteq> LF \<Longrightarrow> TrimRight l = l"
  by (cases l rule: rev_cases) (simp_all add: TrimRight_def)

lemma SplitN_words:
  assumes "SP \<notin> set a"
  shows "SplitN a 3 = [a]" "SP \<notin> set k \<Longrightarrow> SplitN (a @ SP # k) 3 = [a, k]"
    "SP \<notin> set k \<Longrightarrow> SplitN (a @ SP # k @ SP # v) 3 = [a, k, v]"
proof -
  have word: "takeWhile (\<lambda>c. c \<noteq> SP) (x @ SP # y) = x" "dropWhile (\<lambda>c. c \<noteq> SP) (x @ SP # y) = SP # y"
    "dropWhile (\<lambda>c. c \<noteq> SP) x = []" if "SP \<notin> set x" for x y
    using that by (auto simp: takeWhile_append dropWhile_append takeWhile_eq_all_conv [THEN iffD2] dropWhile_eq_Nil_conv)
  show "SplitN a 3 = [a]" "SP \<notin> set k \<Longrightarrow> SplitN (a @ SP # k) 3 = [a, k]"
    "SP \<notin> set k \<Longrightarrow> SplitN (a @ SP # k @ SP # v) 3 = [a, k, v]"
    using assms by (simp_all add: numeral_3_eq_3 word del: dropWhile_eq_Nil_conv)
qed

lemma length_str [simp]: "length (str s) = length s"
  by (simp add: str_def)

lemma commands [simp]:
  "ToUpper tx (str ''SET'') = str ''SET''" "ToUpper tx (str ''GET'') = str ''GET''" "ToUpper tx (str ''DEL'') = str ''DEL''"
  "str ''GET'' \<noteq> str ''SET''" "str ''DEL'' \<noteq> str ''SET''" "str ''DEL'' \<noteq> str ''GET''"
  "SP \<notin> set (str ''SET'')" "SP \<notin> set (str ''GET'')" "SP \<notin> set (str ''DEL'')"
  "LF \<notin> set (str ''SET'')" "LF \<notin> set (str ''GET'')" "LF \<notin> set (str ''DEL'')"
  by (simp_all add: str_def ToUpper_def is_ascii_def upper_byte_def SP_def LF_def)

text \<open>Keys and values that the protocol can carry.\<close>

definition word_ok :: "bytes \<Rightarrow> bool" where
  "word_ok k \<longleftrightarrow> k \<noteq> [] \<and> SP \<notin> set k \<and> LF \<notin> set k \<and> CR \<notin> set k"

definition text_ok :: "bytes \<Rightarrow> bool" where
  "text_ok v \<longleftrightarrow> LF \<notin> set v \<and> (v = [] \<or> last v \<noteq> CR)"

definition set_request :: "bytes \<Rightarrow> bytes \<Rightarrow> bytes" where
  "set_request k v = str ''SET'' @ SP # k @ SP # v"

definition get_request :: "bytes \<Rightarrow> bytes" where
  "get_request k = str ''GET'' @ SP # k"

definition del_request :: "bytes \<Rightarrow> bytes" where
  "del_request k = str ''DEL'' @ SP # k"

lemma last_word: "word_ok k \<Longrightarrow> last k \<noteq> CR \<and> last k \<noteq> LF \<and> last k \<noteq> SP"
  by (metis last_in_set word_ok_def)

lemma handle_set:
  assumes "word_ok k" "text_ok v"
  shows "handle_line tx env (set_request k v) db =
    (case db_Set (re_wal env) (re_coin env) k (Some v) db of
       (Some e, db) \<Rightarrow> (reply_error tx e, db) | (None, db) \<Rightarrow> (Reply (str ''+OK'' @ crlf), db))"
proof -
  have "TrimRight (set_request k v) = set_request k v"
    using assms by (intro TrimRight_same) (auto simp: set_request_def text_ok_def dest: last_in_set)
  moreover have "SplitN (set_request k v) 3 = [str ''SET'', k, v]"
    using assms SplitN_words(3) [of "str ''SET''" k v] by (simp add: set_request_def word_ok_def)
  ultimately show ?thesis by (simp add: handle_line_def Let_def set_request_def)
qed

lemma handle_get:
  assumes "word_ok k"
  shows "handle_line tx env (get_request k) db =
    (case db_Get (re_read env) k db of Inl e \<Rightarrow> (reply_error tx e, db)
     | Inr None \<Rightarrow> (Reply (str ''-ERR not found'' @ crlf), db) | Inr (Some v) \<Rightarrow> (Reply (str ''+'' @ v @ crlf), db))"
proof -
  have "TrimRight (get_request k) = get_request k"
    using last_word [OF assms] assms by (intro TrimRight_same) (auto simp: get_request_def word_ok_def)
  moreover have "SplitN (get_request k) 3 = [str ''GET'', k]"
    using assms SplitN_words(2) [of "str ''GET''" k] by (simp add: get_request_def word_ok_def)
  ultimately show ?thesis by (simp add: handle_line_def Let_def get_request_def)
qed

lemma handle_del:
  assumes "word_ok k"
  shows "handle_line tx env (del_request k) db =
    (case db_Delete (re_wal env) (re_coin env) k db of
       (Some e, db) \<Rightarrow> (reply_error tx e, db) | (None, db) \<Rightarrow> (Reply (str ''+OK'' @ crlf), db))"
proof -
  have "TrimRight (del_request k) = del_request k"
    using last_word [OF assms] assms by (intro TrimRight_same) (auto simp: del_request_def word_ok_def)
  moreover have "SplitN (del_request k) 3 = [str ''DEL'', k]"
    using assms SplitN_words(2) [of "str ''DEL''" k] by (simp add: del_request_def word_ok_def)
  ultimately show ?thesis by (simp add: handle_line_def Let_def del_request_def)
qed

lemma handleConn_line:
  assumes "LF \<notin> set l" "length l + 1 < maxTokenSize" "handle_line tx (env 0) l db = (Reply r, db')"
    "handleConn tx (\<lambda>i. env (Suc i)) rest db' = (rs, False, db'')"
  shows "handleConn tx env (l @ crlf @ rest) db = (r # rs, False, db'')"
  using assms Scan_line [OF assms(1,2), of rest] by (subst handleConn.simps) simp

lemma handleConn_end: "handleConn tx env [] db = ([], False, db)"
  by (subst handleConn.simps) (simp add: Scan_def maxTokenSize_def)

subsection \<open>Properties\<close>

definition calm_env :: "nat \<Rightarrow> request_env" where
  "calm_env i = \<lparr>re_wal = no_faults, re_coin = (\<lambda>_. True), re_read = (\<lambda>_. no_rfaults)\<rparr>"

lemma calm_line:
  assumes "LF \<notin> set l" "length l + 1 < maxTokenSize" "handle_line tx (calm_env 0) l db = (Reply r, db')"
    "handleConn tx calm_env rest db' = (rs, False, db'')"
  shows "handleConn tx calm_env (l @ crlf @ rest) db = (r # rs, False, db'')"
proof -
  have "(\<lambda>i. calm_env (Suc i)) = calm_env" by (simp add: calm_env_def fun_eq_iff)
  then show ?thesis using handleConn_line [of l tx calm_env db r db' rest rs db''] assms by simp
qed

text \<open>C27. A session of a client: over a connection, \<^verbatim>\<open>SET\<close> of a key to a value, \<^verbatim>\<open>GET\<close>, \<^verbatim>\<open>DEL\<close> and \<^verbatim>\<open>GET\<close> again are
  answered \<^verbatim>\<open>+OK\<close>, with the value, \<^verbatim>\<open>+OK\<close> and not found, for every key without blanks and every value of one
  line, also one with blanks in it, as long as a line fits the buffer of the scanner.\<close>

theorem server_session:
  assumes "calm_reach s" "\<not> db_closed (sy_db s)" "word_ok k" "text_ok v" "length k + length v + 6 < maxTokenSize"
  shows "\<exists>db. handleConn tx calm_env (set_request k v @ crlf @ get_request k @ crlf @ del_request k @ crlf @
      get_request k @ crlf) (sy_db s) =
    ([str ''+OK'' @ crlf, str ''+'' @ v @ crlf, str ''+OK'' @ crlf, str ''-ERR not found'' @ crlf], False, db)"
proof -
  have k: "LF \<notin> set k" "k \<noteq> []" using assms(3) by (simp_all add: word_ok_def)
  have w: "plain_write (k, Some (Some v))" "plain_write (k, None)"
    using assms(5) k(2) by (simp_all add: plain_write_def wf_record_def maxTokenSize_def)
  obtain d1 d2 s1 where 1: "write_log no_faults (k, Some (Some v)) (sy_db s) = (None, d1)"
    "write_apply (\<lambda>_. True) (k, Some (Some v)) d1 = (None, d2)" "calm_reach s1" "sy_db s1 = d2" "\<not> db_closed d2"
    "sy_applied s1 = sy_applied s @ [(k, Some (Some v))]"
    by (rule calm_write [OF assms(1,2) w(1)])
  have "\<not> db_closed (sy_db s1)" using 1(4,5) by simp
  then obtain d3 d4 s2 where 2: "write_log no_faults (k, None) (sy_db s1) = (None, d3)"
    "write_apply (\<lambda>_. True) (k, None) d3 = (None, d4)" "calm_reach s2" "sy_db s2 = d4" "\<not> db_closed d4"
    "sy_applied s2 = sy_applied s1 @ [(k, None)]"
    by (rule calm_write [OF 1(3) _ w(2)])
  have set: "db_Set no_faults (\<lambda>_. True) k (Some v) (sy_db s) = (None, d2)" using 1(1,2) by (simp add: db_Set_log)
  have del: "db_Delete no_faults (\<lambda>_. True) k d2 = (None, d4)" using 2(1,2) 1(4) by (simp add: db_Delete_log)
  have get: "db_Get (\<lambda>_. no_rfaults) k d2 = Inr (Some v)"
    using calm_reads [OF 1(3), of k] 1(4-6) by (simp add: map_writes_snoc)
  have gone: "db_Get (\<lambda>_. no_rfaults) k d4 = Inr None"
    using calm_reads [OF 2(3), of k] 2(4-6) by (simp add: map_writes_snoc)
  have reply: "handle_line tx (calm_env 0) (set_request k v) (sy_db s) = (Reply (str ''+OK'' @ crlf), d2)"
    "handle_line tx (calm_env 0) (get_request k) d2 = (Reply (str ''+'' @ v @ crlf), d2)"
    "handle_line tx (calm_env 0) (del_request k) d2 = (Reply (str ''+OK'' @ crlf), d4)"
    "handle_line tx (calm_env 0) (get_request k) d4 = (Reply (str ''-ERR not found'' @ crlf), d4)"
    using set get del gone by (simp_all add: handle_set handle_get handle_del assms(3,4) calm_env_def)
  have lines: "LF \<notin> set (set_request k v)" "LF \<notin> set (get_request k)" "LF \<notin> set (del_request k)"
    "length (set_request k v) + 1 < maxTokenSize" "length (get_request k) + 1 < maxTokenSize"
    "length (del_request k) + 1 < maxTokenSize"
    using k(1) assms(4,5) by (simp_all add: set_request_def get_request_def del_request_def text_ok_def)
  have "handleConn tx calm_env (set_request k v @ crlf @ get_request k @ crlf @ del_request k @ crlf @
      get_request k @ crlf @ []) (sy_db s) =
    ([str ''+OK'' @ crlf, str ''+'' @ v @ crlf, str ''+OK'' @ crlf, str ''-ERR not found'' @ crlf], False, d4)"
    by (rule calm_line [OF lines(1,4) reply(1) calm_line [OF lines(2,5) reply(2) calm_line [OF lines(3,6) reply(3)
          calm_line [OF lines(2,5) reply(4) handleConn_end]]]])
  then show ?thesis by simp
qed

theorem server_session_witness:
  "\<exists>s. calm_reach s \<and> \<not> db_closed (sy_db s) \<and> word_ok [107] \<and> text_ok [97, 32, 98] \<and>
    length [107 :: byte] + length [97 :: byte, 32, 98] + 6 < maxTokenSize \<and>
    (\<exists>db. handleConn \<lparr>tx_upper = id, tx_quote = id, tx_error = (\<lambda>_. [])\<rparr> calm_env (set_request [107] [97, 32, 98] @ crlf @
        get_request [107] @ crlf @ del_request [107] @ crlf @ get_request [107] @ crlf) (sy_db s) =
      ([str ''+OK'' @ crlf, str ''+'' @ [97, 32, 98] @ crlf, str ''+OK'' @ crlf, str ''-ERR not found'' @ crlf], False, db))"
proof -
  obtain s where s: "wrote opts_example writes_example s" using wrote_example ..
  then have r: "calm_reach s" "\<not> db_closed (sy_db s)" by (simp_all add: wrote_def)
  have k: "word_ok [107]" "text_ok [97, 32, 98]" by (simp_all add: word_ok_def text_ok_def SP_def LF_def CR_def)
  have l: "length [107 :: byte] + length [97 :: byte, 32, 98] + 6 < maxTokenSize" by (simp add: maxTokenSize_def)
  from server_session [OF r k l] r k l show ?thesis by blast
qed

text \<open>The lines that the scanner yields.\<close>

function scan_lines :: "bytes \<Rightarrow> bytes list" where
  "scan_lines input = (case Scan input of None \<Rightarrow> [] | Some (line, rest) \<Rightarrow> line # scan_lines rest)"
  by pat_completeness auto
termination by (relation "measure length") (auto dest: Scan_shorter)

declare scan_lines.simps [simp del]

lemma handle_line_replies: "fst (handle_line tx env text db) = Skipped \<longleftrightarrow> TrimRight text = []"
  by (auto simp: handle_line_def reply_error_def Let_def split: prod.split option.split sum.split)

text \<open>C28. The server answers every request exactly once: whatever a client sends, whatever calls fail, the loop of
  the connection ends, and unless a panic ends the process it gives one reply for each line that is not blank,
  and none for the others.\<close>

theorem server_replies_once:
  "case handleConn tx env input db of (replies, crashed, db') \<Rightarrow>
     let requests = length (filter (\<lambda>l. TrimRight l \<noteq> []) (scan_lines input)) in
     if crashed then length replies < requests else length replies = requests"
proof (induction tx env input db rule: handleConn.induct)
  case (1 tx env input db)
  show ?case
  proof (cases "Scan input")
    case None
    then show ?thesis by (simp add: handleConn.simps [of tx env input] scan_lines.simps [of input])
  next
    case (Some p)
    obtain l rest where p: "p = (l, rest)" by (cases p)
    obtain r db1 where h: "handle_line tx (env 0) l db = (r, db1)" by fastforce
    show ?thesis
      using handle_line_replies [of tx "env 0" l db] 1 [OF Some p [symmetric] h [symmetric]] Some p h
      by (cases r) (auto simp: handleConn.simps [of tx env input] scan_lines.simps [of input] Let_def split: prod.splits)
  qed
qed

text \<open>C36. Requests that the server rejects change nothing: blank lines, \<^verbatim>\<open>PING\<close>, \<^verbatim>\<open>GET\<close>, \<^verbatim>\<open>STAT\<close>, unknown commands and
  commands without their arguments leave the database as it was.\<close>

theorem server_rejects_without_effect:
  assumes "TrimRight text = [] \<or> (let parts = SplitN (TrimRight text) 3; cmd = ToUpper tx (parts ! 0) in
      cmd \<noteq> str ''SET'' \<and> cmd \<noteq> str ''DEL'' \<or> cmd = str ''SET'' \<and> length parts < 3 \<or> cmd = str ''DEL'' \<and> length parts < 2)"
  shows "snd (handle_line tx env text db) = db"
  using assms unfolding handle_line_def Let_def
  by (elim disjE conjE) (simp_all split: sum.split option.split)

theorem server_rejects_without_effect_witness:
  "\<exists>tx :: texts. (let parts = SplitN (TrimRight (str ''set'')) 3; cmd = ToUpper tx (parts ! 0) in
      cmd = str ''SET'' \<and> length parts < 3) \<and>
    (\<forall>env db. snd (handle_line tx env (str ''set'') db) = db)"
proof -
  let ?tx = "\<lparr>tx_upper = id, tx_quote = id, tx_error = (\<lambda>_. [])\<rparr> :: texts"
  have "TrimRight (str ''set'') = str ''set''" by (rule TrimRight_same) (simp_all add: str_def CR_def LF_def)
  moreover have "SplitN (str ''set'') 3 = [str ''set'']" by (rule SplitN_words(1)) (simp add: str_def SP_def)
  moreover have "ToUpper ?tx (str ''set'') = str ''SET''" by (simp add: ToUpper_def is_ascii_def upper_byte_def str_def)
  ultimately have h: "let parts = SplitN (TrimRight (str ''set'')) 3; cmd = ToUpper ?tx (parts ! 0) in
      cmd = str ''SET'' \<and> length parts < 3"
    by (simp add: Let_def)
  then have "snd (handle_line ?tx env (str ''set'') db) = db" for env db
    by (intro server_rejects_without_effect) (simp add: Let_def)
  with h show ?thesis by blast
qed

end
