(* ===== verification/Cli.thy ===== *)
theory Cli
  imports Server "HOL-Library.Sublist"
begin

text \<open>
  The command-line client of \<^verbatim>\<open>cmd/cli/main.go\<close>: the loop that reads commands from the standard input, sends them
  and shows the replies, against any peer and against the server of \<^verbatim>\<open>cmd/server/main.go\<close>.  The behaviour of
  \<^verbatim>\<open>strings.TrimSpace\<close> and \<^verbatim>\<open>strings.ToLower\<close> on texts with bytes outside ASCII is a parameter, as are the texts of
  the errors.
\<close>

subsection \<open>Strings\<close>

record client_texts =
  ct_trim :: "bytes \<Rightarrow> bytes"
  ct_lower :: "bytes \<Rightarrow> bytes"
  ct_read_error :: bytes

definition is_space :: "byte \<Rightarrow> bool" where
  "is_space c \<longleftrightarrow> 9 \<le> c \<and> c \<le> 13 \<or> c = SP"

definition TrimSpace :: "client_texts \<Rightarrow> bytes \<Rightarrow> bytes" where
  "TrimSpace ct s = (if is_ascii s then rev (dropWhile is_space (rev (dropWhile is_space s))) else ct_trim ct s)"

definition lower_byte :: "byte \<Rightarrow> byte" where
  "lower_byte c = (if 65 \<le> c \<and> c \<le> 90 then c + 32 else c)"

definition ToLower :: "client_texts \<Rightarrow> bytes \<Rightarrow> bytes" where
  "ToLower ct s = (if is_ascii s then map lower_byte s else ct_lower ct s)"

subsection \<open>The loop\<close>

text \<open>\<^verbatim>\<open>ReadString\<close> on the connection yields a line with its line feed or an error, or waits for ever.  The peer is
  a function: what becomes of the connection when the bytes of a request are written and a reply is read.\<close>

datatype read_result = Line bytes | Failed | Waits

datatype shown = Stdout bytes | Stderr bytes

datatype ending = Exits int | Hangs

definition prompt :: shown where "prompt = Stdout (str ''> '')"

definition is_exit :: "client_texts \<Rightarrow> bytes \<Rightarrow> bool" where
  "is_exit ct line \<longleftrightarrow> ToLower ct line = str ''exit'' \<or> ToLower ct line = str ''quit''"

function cli_loop :: "client_texts \<Rightarrow> ('s \<Rightarrow> bytes \<Rightarrow> read_result \<times> 's) \<Rightarrow> 's \<Rightarrow> bytes \<Rightarrow> shown list \<times> ending \<times> 's" where
  "cli_loop ct peer s stdin =
     (case Scan stdin of
        None \<Rightarrow> ([prompt], Exits 0, s)
      | Some (text, rest) \<Rightarrow>
          let line = TrimSpace ct text in
          if line = [] then (case cli_loop ct peer s rest of (out, fin) \<Rightarrow> (prompt # out, fin))
          else if is_exit ct line then ([prompt, Stdout (str ''Bye.'' @ [LF])], Exits 0, s)
          else
            (case peer s (line @ crlf) of
               (Waits, s') \<Rightarrow> ([prompt], Hangs, s')
             | (Failed, s') \<Rightarrow> ([prompt, Stderr (str ''read response: '' @ ct_read_error ct @ [LF])], Exits 0, s')
             | (Line resp, s') \<Rightarrow>
                 (case cli_loop ct peer s' rest of (out, fin) \<Rightarrow>
                    (prompt # Stdout (TrimRight resp @ [LF]) # out, fin))))"
  by pat_completeness auto
termination by (relation "measure (\<lambda>(ct, peer, s, stdin). length stdin)") (auto dest: Scan_shorter)

declare cli_loop.simps [simp del]

text \<open>\<^verbatim>\<open>main\<close>, with the outcome of \<^verbatim>\<open>net.Dial\<close>: the text of an error or a connection.\<close>

definition cli_main :: "client_texts \<Rightarrow> ('s \<Rightarrow> bytes \<Rightarrow> read_result \<times> 's) \<Rightarrow> bytes \<Rightarrow> bytes + 's \<Rightarrow> bytes \<Rightarrow> shown list \<times> ending" where
  "cli_main ct peer addr dial stdin =
     (case dial of
        Inl e \<Rightarrow> ([Stderr (str ''connect to '' @ addr @ str '': '' @ e @ [LF])], Exits 1)
      | Inr s \<Rightarrow>
          (case cli_loop ct peer s stdin of (out, fin, _) \<Rightarrow>
             (Stdout (str ''Connected to VaultKV at '' @ addr @ [LF] @
                str ''Type SET/GET/DEL/PING/STAT or '' @ [39] @ str ''exit'' @ [39] @ str '' to quit.'' @ [LF, LF]) # out, fin)))"

subsection \<open>What is sent\<close>

text \<open>The requests that the client sends for an input: its lines up to a line that ends the session, trimmed and
  without the empty ones.\<close>

definition typed :: "client_texts \<Rightarrow> bytes \<Rightarrow> bytes list" where
  "typed ct stdin = map (TrimSpace ct) (scan_lines stdin)"

definition cli_requests :: "client_texts \<Rightarrow> bytes \<Rightarrow> bytes list" where
  "cli_requests ct stdin = filter (\<lambda>l. l \<noteq> []) (takeWhile (\<lambda>l. \<not> is_exit ct l) (typed ct stdin))"

definition bye :: "client_texts \<Rightarrow> bytes \<Rightarrow> shown list" where
  "bye ct stdin = (if list_ex (is_exit ct) (typed ct stdin) then [Stdout (str ''Bye.'' @ [LF])] else [])"

text \<open>What the documentation of \<^verbatim>\<open>strings.TrimSpace\<close> says: it returns a part of the text, which does not end with
  white space.\<close>

definition trim_ok :: "client_texts \<Rightarrow> bool" where
  "trim_ok ct \<longleftrightarrow> (\<forall>s. sublist (ct_trim ct s) s \<and> (ct_trim ct s = [] \<or> \<not> is_space (last (ct_trim ct s))))"

definition sendable :: "bytes \<Rightarrow> bool" where
  "sendable l \<longleftrightarrow> l \<noteq> [] \<and> LF \<notin> set l \<and> last l \<noteq> CR \<and> length l + 1 < maxTokenSize"

lemma TrimSpace_sublist:
  assumes "trim_ok ct"
  shows "sublist (TrimSpace ct s) s" "TrimSpace ct s \<noteq> [] \<Longrightarrow> \<not> is_space (last (TrimSpace ct s))"
proof -
  let ?r = "dropWhile is_space (rev (dropWhile is_space s))"
  have "suffix ?r (rev (dropWhile is_space s))" by (rule suffix_dropWhile)
  then have "prefix (rev ?r) (dropWhile is_space s)" by (simp add: suffix_to_prefix)
  then have "sublist (rev ?r) s" by (meson prefix_imp_sublist sublist_order.order_trans suffix_dropWhile suffix_imp_sublist)
  then show "sublist (TrimSpace ct s) s" using assms by (simp add: TrimSpace_def trim_ok_def)
  show "TrimSpace ct s \<noteq> [] \<Longrightarrow> \<not> is_space (last (TrimSpace ct s))"
    using assms hd_dropWhile [of is_space "rev (dropWhile is_space s)"]
    by (auto simp: TrimSpace_def trim_ok_def last_rev)
qed

lemma scan_lines_no_LF: "l \<in> set (scan_lines stdin) \<Longrightarrow> LF \<notin> set l"
proof (induction stdin rule: scan_lines.induct)
  case (1 input)
  have line: "LF \<notin> set line" if "Scan input = Some (line, rest)" for line rest
  proof -
    have "LF \<notin> set (takeWhile (\<lambda>c. c \<noteq> LF) input)" by (auto dest: set_takeWhileD)
    then have "LF \<notin> set (dropCR (takeWhile (\<lambda>c. c \<noteq> LF) input))" by (auto simp: dropCR_def dest: in_set_butlastD)
    then show ?thesis using that by (auto simp: Scan_def Let_def split: if_splits)
  qed
  show ?case
  proof (cases "Scan input")
    case None
    then show ?thesis using 1(2) by (simp add: scan_lines.simps [of input])
  next
    case (Some p)
    then show ?thesis using 1(1) [OF Some] 1(2) line by (cases p) (auto simp: scan_lines.simps [of input])
  qed
qed

lemma TrimSpace_sendable:
  assumes "trim_ok ct" "l \<in> set (scan_lines stdin)" "length l + 1 < maxTokenSize" "TrimSpace ct l \<noteq> []"
  shows "sendable (TrimSpace ct l)"
proof -
  have "is_space CR" by (simp add: is_space_def CR_def)
  then show ?thesis
    using TrimSpace_sublist [OF assms(1), of l] scan_lines_no_LF [OF assms(2)] assms(3,4)
      set_mono_sublist [of "TrimSpace ct l" l] sublist_length_le [of "TrimSpace ct l" l]
    by (auto simp: sendable_def)
qed

lemma not_exit_Nil [simp]: "\<not> is_exit ct []"
  by (simp add: is_exit_def ToLower_def is_ascii_def str_def)

subsection \<open>Against a peer that answers\<close>

text \<open>The contract of a peer: from a good state every request of one line is answered with one line, and the state
  stays good.\<close>

locale line_peer =
  fixes peer :: "'s \<Rightarrow> bytes \<Rightarrow> read_result \<times> 's"
    and good :: "'s \<Rightarrow> bool"
    and answer :: "'s \<Rightarrow> bytes \<Rightarrow> bytes \<times> 's"
  assumes answers: "good s \<Longrightarrow> sendable l \<Longrightarrow> peer s (l @ crlf) = (Line (fst (answer s l)), snd (answer s l))"
    and stays_good: "good s \<Longrightarrow> sendable l \<Longrightarrow> good (snd (answer s l))"
begin

primrec answer_all :: "'s \<Rightarrow> bytes list \<Rightarrow> bytes list \<times> 's" where
  "answer_all s [] = ([], s)"
| "answer_all s (l # ls) =
     (case answer s l of (r, s') \<Rightarrow> (case answer_all s' ls of (rs, s'') \<Rightarrow> (r # rs, s'')))"

lemma answer_all_length: "length (fst (answer_all s ls)) = length ls"
  by (induction ls arbitrary: s) (auto split: prod.split simp: prod.case_eq_if)

lemma cli_loop_answers:
  assumes "trim_ok ct" "good s" "\<forall>l \<in> set (scan_lines stdin). length l + 1 < maxTokenSize"
    "answer_all s (cli_requests ct stdin) = (rs, s')"
  shows "\<exists>out. cli_loop ct peer s stdin = (out, Exits 0, s') \<and>
    filter (\<lambda>x. x \<noteq> prompt) out = map (\<lambda>r. Stdout (TrimRight r @ [LF])) rs @ bye ct stdin"
  using assms(2-)
proof (induction stdin arbitrary: s rs rule: scan_lines.induct)
  case (1 stdin)
  show ?case
  proof (cases "Scan stdin")
    case None
    then show ?thesis
      using 1(4) by (auto simp: cli_loop.simps [of ct peer _ stdin] scan_lines.simps [of stdin] cli_requests_def bye_def typed_def)
  next
    case (Some p)
    obtain raw rest where p: "p = (raw, rest)" by (cases p)
    let ?l = "TrimSpace ct raw"
    have lines: "scan_lines stdin = raw # scan_lines rest" using Some p by (simp add: scan_lines.simps [of stdin])
    note loop = cli_loop.simps [of ct peer _ stdin] and spec = cli_requests_def bye_def typed_def lines
    have IH: "\<exists>out. cli_loop ct peer t rest = (out, Exits 0, s') \<and>
        filter (\<lambda>x. x \<noteq> prompt) out = map (\<lambda>r. Stdout (TrimRight r @ [LF])) qs @ bye ct rest"
      if "good t" "answer_all t (cli_requests ct rest) = (qs, s')" for t qs
      using 1(1) [OF Some p [symmetric] that(1) _ that(2)] 1(3) lines by simp
    consider "?l = []" | "?l \<noteq> []" "is_exit ct ?l" | "?l \<noteq> []" "\<not> is_exit ct ?l" by blast
    then show ?thesis
    proof cases
      case 1
      then have "cli_requests ct stdin = cli_requests ct rest" "bye ct stdin = bye ct rest"
        by (simp_all add: spec not_exit_Nil)
      then show ?thesis using IH [of s rs] "1.prems" 1 Some p by (auto simp: loop)
    next
      case 2
      then show ?thesis using "1.prems"(3) Some p by (auto simp: loop spec prompt_def str_def)
    next
      case 3
      then have req: "cli_requests ct stdin = ?l # cli_requests ct rest" and b: "bye ct stdin = bye ct rest"
        by (simp_all add: spec)
      have send: "sendable ?l" using TrimSpace_sendable [OF assms(1), of raw stdin] 3(1) "1.prems"(2) lines by simp
      obtain r t where a: "answer s ?l = (r, t)" by fastforce
      then obtain qs where q: "answer_all t (cli_requests ct rest) = (qs, s')" "rs = r # qs"
        using "1.prems"(3) req by (auto split: prod.splits)
      have t: "good t" "peer s (?l @ crlf) = (Line r, t)"
        using answers [OF "1.prems"(1) send] stays_good [OF "1.prems"(1) send] a by simp_all
      have "Stdout (x @ [LF]) \<noteq> prompt" for x by (auto simp: prompt_def str_def LF_def append_eq_Cons_conv Cons_eq_append_conv)
      then show ?thesis using IH [OF t(1) q(1)] t(2) q(2) b 3 Some p by (auto simp: loop)
    qed
  qed
qed

end

subsection \<open>Replies of one line\<close>

lemma SplitN_part: "p \<in> set (SplitN s n) \<Longrightarrow> set p \<subseteq> set s \<and> length p \<le> length s"
proof (induction s n rule: SplitN.induct)
  case (3 s n)
  show ?case
  proof (cases "dropWhile (\<lambda>c. c \<noteq> SP) s")
    case Nil
    then show ?thesis using 3 by (simp del: dropWhile_eq_Nil_conv)
  next
    case (Cons c rest)
    have "set (c # rest) \<subseteq> set s" "length (c # rest) \<le> length s"
      using Cons set_dropWhileD [of _ "\<lambda>c. c \<noteq> SP" s] length_dropWhile_le [of "\<lambda>c. c \<noteq> SP" s] by (auto simp del: set_simps)
    moreover have "set (takeWhile (\<lambda>c. c \<noteq> SP) s) \<subseteq> set s" "length (takeWhile (\<lambda>c. c \<noteq> SP) s) \<le> length s"
      by (auto dest: set_takeWhileD intro: length_takeWhile_le)
    ultimately show ?thesis using 3 Cons by fastforce
  qed
qed simp_all

lemma SplitN_3: "SplitN s 3 \<noteq> []"
  by (auto simp: numeral_3_eq_3 split: list.splits)

lemma digit_not_LF: "d < 10 \<Longrightarrow> of_nat (48 + d) \<noteq> LF"
proof
  assume d: "d < 10" and "of_nat (48 + d) = LF"
  then have "unat (of_nat (48 + d) :: byte) = unat LF" by metis
  then show False using d by (simp add: unat_of_nat LF_def del: of_nat_add)
qed

lemma show_nat_no_LF: "LF \<notin> set (show_nat n)"
proof (induction n rule: show_nat.induct)
  case (1 n)
  show ?case
    using 1 digit_not_LF [of n] digit_not_LF [of "n mod 10"] by (auto simp: show_nat.simps [of n] simp del: of_nat_add)
qed

lemma show_int_no_LF: "LF \<notin> set (show_int i)"
  using show_nat_no_LF by (auto simp: show_int_def LF_def)

lemma hex_byte_no_LF: "LF \<notin> set (hex_byte c)"
proof -
  have char: "of_char (hex_char d) \<noteq> LF" if "0 \<le> d" "d < 16" for d
  proof -
    have "hex_char d \<in> set ''0123456789abcdef''" unfolding hex_char_def by (rule nth_mem) (use that in simp)
    then show ?thesis by (auto simp: LF_def)
  qed
  have "uint c < 256" using uint_bounded [of c] by simp
  then have "0 \<le> uint c div 16" "uint c div 16 < 16" by (simp_all add: pos_imp_zdiv_nonneg_iff)
  then show ?thesis using char [of "uint c div 16"] char [of "uint c mod 16"] by (auto simp: hex_byte_def)
qed

lemma quote_byte_no_LF: "LF \<notin> set (quote_byte c)"
  using hex_byte_no_LF [of c] by (auto simp: quote_byte_def str_def LF_def)

text \<open>What the server relies on: the text of the one error that a calm database returns, and the quotation of
  strings, have no line feed.\<close>

definition texts_ok :: "texts \<Rightarrow> bool" where
  "texts_ok tx \<longleftrightarrow> LF \<notin> set (tx_error tx errEmptyKey) \<and> (\<forall>s. LF \<notin> set (tx_quote tx s))"

lemma Quote_no_LF: "texts_ok tx \<Longrightarrow> LF \<notin> set (Quote tx s)"
  using quote_byte_no_LF by (auto simp: Quote_def texts_ok_def LF_def)

definition one_line :: "kv_write \<Rightarrow> bool" where
  "one_line w \<longleftrightarrow> (case snd w of Some (Some v) \<Rightarrow> LF \<notin> set v | _ \<Rightarrow> True)"

text \<open>The databases that calm executions reach and that hold values of one line.\<close>

definition serving :: "DB \<Rightarrow> bool" where
  "serving db \<longleftrightarrow> \<not> db_closed db \<and> (\<exists>s. calm_reach s \<and> sy_db s = db \<and> list_all one_line (sy_applied s))"

lemma map_writes_from: "map_writes ws Map.empty k = Some c \<Longrightarrow> \<exists>w. (k, w) \<in> set ws \<and> c = write_cell w"
proof (induction ws rule: rev_induct)
  case Nil
  then show ?case by (simp add: map_writes_def)
next
  case (snoc x ws)
  then show ?case by (cases x) (auto simp: map_writes_snoc split: if_splits)
qed

lemma serving_read:
  assumes "serving db"
  obtains x where "db_Get (\<lambda>_. no_rfaults) k db = Inr x" "\<And>v. x = Some v \<Longrightarrow> LF \<notin> set v"
proof -
  obtain s where s: "calm_reach s" "sy_db s = db" "list_all one_line (sy_applied s)" "\<not> db_closed db"
    using assms by (auto simp: serving_def)
  let ?c = "map_writes (sy_applied s) Map.empty k"
  have "LF \<notin> set v" if v: "visible ?c = Some v" for v
  proof -
    obtain u where u: "?c = Some (Val u)" "v = slice_bytes u" using v by (cases ?c; cases "the ?c") auto
    then obtain w where "(k, w) \<in> set (sy_applied s)" "Val u = write_cell w" using map_writes_from by metis
    then show ?thesis using s(3) u(2) by (cases w; cases u) (auto simp: one_line_def list_all_iff)
  qed
  then show thesis using calm_reads [OF s(1)] s(2,4) that by metis
qed

lemma serving_write:
  assumes "serving db" "one_line w" "plain_write w"
  obtains db1 db2 where "write_log no_faults w db = (None, db1)" "write_apply coin w db1 = (None, db2)" "serving db2"
proof -
  obtain s where s: "calm_reach s" "sy_db s = db" "list_all one_line (sy_applied s)" "\<not> db_closed (sy_db s)"
    using assms(1) by (auto simp: serving_def)
  obtain db1 db2 s' where w: "write_log no_faults w (sy_db s) = (None, db1)" "write_apply coin w db1 = (None, db2)"
    and s': "calm_reach s'" "sy_db s' = db2" "\<not> db_closed db2" "sy_applied s' = sy_applied s @ [w]"
    by (rule calm_write [OF s(1,4) assms(3)])
  have "list_all one_line (sy_applied s')" using s'(4) s(3) assms(2) by simp
  with s' have "serving db2" unfolding serving_def by blast
  then show thesis using that w s(2) by simp
qed

lemma serving_set:
  assumes "serving db" "LF \<notin> set v" "length k < maxTokenSize" "length v < maxTokenSize"
  obtains "k = []" "db_Set no_faults coin k (Some v) db = (Some errEmptyKey, db)"
  | db' where "db_Set no_faults coin k (Some v) db = (None, db')" "serving db'"
proof (cases "k = []")
  case True
  then show thesis using that(1) assms(1) by (simp add: serving_def db_Set_def set_log_def)
next
  case False
  then have "one_line (k, Some (Some v))" "plain_write (k, Some (Some v))"
    using assms by (simp_all add: one_line_def plain_write_def wf_record_def maxTokenSize_def)
  from serving_write [OF assms(1) this, of coin] that(2) show thesis by (metis (no_types, lifting) db_Set_log case_prod_conv option.case(1))
qed

lemma serving_delete:
  assumes "serving db" "length k < maxTokenSize"
  obtains "k = []" "db_Delete no_faults coin k db = (Some errEmptyKey, db)"
  | db' where "db_Delete no_faults coin k db = (None, db')" "serving db'"
proof (cases "k = []")
  case True
  then show thesis using that(1) assms(1) by (simp add: serving_def db_Delete_def delete_log_def)
next
  case False
  then have "one_line (k, None)" "plain_write (k, None)"
    using assms by (simp_all add: one_line_def plain_write_def wf_record_def maxTokenSize_def)
  from serving_write [OF assms(1) this, of coin] that(2) show thesis by (metis (no_types, lifting) db_Delete_log case_prod_conv option.case(1))
qed

text \<open>Every request of one line gets a reply of one line.\<close>

definition replies_line :: "outcome \<times> DB \<Rightarrow> bool" where
  "replies_line o_db \<longleftrightarrow> (\<exists>x db. o_db = (Reply (x @ crlf), db) \<and> LF \<notin> set x \<and> serving db)"

lemma replies_lineI: "LF \<notin> set x \<Longrightarrow> serving db \<Longrightarrow> replies_line (Reply (x @ crlf), db)"
  by (auto simp: replies_line_def)

lemma fixed_texts [simp]:
  "LF \<notin> set (str ''-ERR SET requires key and value'')" "LF \<notin> set (str ''-ERR GET requires key'')"
  "LF \<notin> set (str ''-ERR DEL requires key'')" "LF \<notin> set (str ''-ERR not found'')" "LF \<notin> set (str ''+OK'')"
  "LF \<notin> set (str ''+PONG'')" "LF \<notin> set (str ''-ERR unknown command '')" "LF \<notin> set (str ''-ERR '')" "LF \<notin> set (str ''+'')"
  "LF \<notin> set (str ''+{\"memtable_bytes\":'')" "LF \<notin> set (str '',\"memtable_entries\":'')"
  "LF \<notin> set (str '',\"sstables\":'')" "LF \<notin> set (str '',\"disk_bytes\":'')" "LF \<notin> set (str ''}'')"
  by (simp_all add: str_def LF_def)

lemma empty_key_reply: "texts_ok tx \<Longrightarrow> serving db \<Longrightarrow> replies_line (reply_error tx errEmptyKey, db)"
  using replies_lineI [of "str ''-ERR '' @ tx_error tx errEmptyKey" db]
  by (simp add: reply_error_def errEmptyKey_def texts_ok_def)

lemma stat_reply_line: "serving db \<Longrightarrow> replies_line (Reply (stat_reply db), db)"
  unfolding stat_reply_def Let_def append_assoc [symmetric] by (rule replies_lineI) (simp_all add: show_int_no_LF)

lemma calm_request:
  assumes "texts_ok tx" "serving db" "sendable l"
  shows "replies_line (handle_line tx (calm_env i) l db)"
proof -
  have trim: "TrimRight l = l" using assms(3) by (intro TrimRight_same) (auto simp: sendable_def dest: last_in_set)
  define parts where "parts = SplitN l 3"
  have part: "LF \<notin> set (parts ! j) \<and> length (parts ! j) < maxTokenSize" if "j < length parts" for j
    using SplitN_part [of "parts ! j" l 3] nth_mem [OF that] assms(3) by (auto simp: parts_def sendable_def)
  have l: "l \<noteq> []" using assms(3) by (simp add: sendable_def)
  note handle = handle_line_def trim Let_def l parts_def [symmetric] calm_env_def replies_lineI assms(2)
  define cmd where "cmd = ToUpper tx (parts ! 0)"
  have quote: "LF \<notin> set (Quote tx cmd)" using assms(1) by (rule Quote_no_LF)
  consider (set) "cmd = str ''SET''" "3 \<le> length parts" | (get) "cmd = str ''GET''" "2 \<le> length parts"
    | (del) "cmd = str ''DEL''" "2 \<le> length parts" | (stat) "cmd = str ''STAT''"
    | (rest) "cmd = str ''SET'' \<and> length parts < 3 \<or> cmd = str ''GET'' \<and> length parts < 2 \<or> cmd = str ''DEL'' \<and> length parts < 2 \<or>
        cmd \<noteq> str ''SET'' \<and> cmd \<noteq> str ''GET'' \<and> cmd \<noteq> str ''DEL'' \<and> cmd \<noteq> str ''STAT''"
    by linarith
  then show ?thesis
  proof cases
    case set
    then show ?thesis
      using part [of 1] part [of 2] empty_key_reply [OF assms(1,2)]
      by (cases rule: serving_set [OF assms(2), of "parts ! 2" "parts ! 1" "\<lambda>_. True"])
        (auto simp: handle cmd_def)
  next
    case get
    obtain x where x: "db_Get (\<lambda>_. no_rfaults) (parts ! 1) db = Inr x" "\<And>v. x = Some v \<Longrightarrow> LF \<notin> set v"
      using serving_read [OF assms(2)] by blast
    then show ?thesis using get replies_lineI [of "str ''+'' @ the x" db] assms(2) by (cases x) (auto simp: handle cmd_def)
  next
    case del
    then show ?thesis
      using part [of 1] empty_key_reply [OF assms(1,2)]
      by (cases rule: serving_delete [OF assms(2), of "parts ! 1" "\<lambda>_. True"]) (auto simp: handle cmd_def)
  next
    case stat
    then show ?thesis using stat_reply_line [OF assms(2)] by (simp add: handle cmd_def str_def)
  next
    case rest
    then show ?thesis
      using replies_lineI [of "str ''-ERR unknown command '' @ Quote tx cmd" db] quote assms(2)
      by (auto simp: handle cmd_def)
  qed
qed

subsection \<open>Against the server\<close>

text \<open>A connection with the server at its end: the bytes of its replies that were not read yet, and whether it still
  serves the connection.  A request is written, the server works on it, and a line is read.\<close>

record conn =
  cn_unread :: bytes
  cn_open :: bool
  cn_env :: "nat \<Rightarrow> request_env"
  cn_db :: DB

definition server_exchange :: "texts \<Rightarrow> conn \<Rightarrow> bytes \<Rightarrow> read_result \<times> conn" where
  "server_exchange tx c req =
     (let (replies, crashed, db) = (if cn_open c then handleConn tx (cn_env c) req (cn_db c) else ([], False, cn_db c));
          serves = (cn_open c \<and> \<not> crashed \<and> length (takeWhile (\<lambda>b. b \<noteq> LF) req) < maxTokenSize);
          unread = cn_unread c @ concat replies;
          c = \<lparr>cn_unread = unread, cn_open = serves, cn_env = (\<lambda>i. cn_env c (i + length (scan_lines req))), cn_db = db\<rparr>
      in case dropWhile (\<lambda>b. b \<noteq> LF) unread of
           [] \<Rightarrow> (if serves then Waits else Failed, c)
         | _ # rest \<Rightarrow> (Line (takeWhile (\<lambda>b. b \<noteq> LF) unread @ [LF]), c\<lparr>cn_unread := rest\<rparr>))"

definition connected :: "DB \<Rightarrow> conn" where
  "connected db = \<lparr>cn_unread = [], cn_open = True, cn_env = calm_env, cn_db = db\<rparr>"

definition conn_good :: "texts \<Rightarrow> conn \<Rightarrow> bool" where
  "conn_good tx c \<longleftrightarrow> texts_ok tx \<and> serving (cn_db c) \<and> c = connected (cn_db c)"

definition conn_answer :: "texts \<Rightarrow> conn \<Rightarrow> bytes \<Rightarrow> bytes \<times> conn" where
  "conn_answer tx c l =
     (case handle_line tx (calm_env 0) l (cn_db c) of
        (Reply r, db) \<Rightarrow> (r, connected db)
      | (_, db) \<Rightarrow> ([], connected db))"

lemma calm_env_shift: "(\<lambda>i. calm_env (i + n)) = calm_env"
  by (simp add: calm_env_def fun_eq_iff)

lemma server_exchange_line:
  assumes "conn_good tx c" "sendable l"
  shows "server_exchange tx c (l @ crlf) = (Line (fst (conn_answer tx c l)), snd (conn_answer tx c l)) \<and>
    conn_good tx (snd (conn_answer tx c l))"
proof -
  have l: "LF \<notin> set l" "length l + 1 < maxTokenSize" using assms(2) by (simp_all add: sendable_def)
  have c: "cn_open c" "cn_unread c = []" "cn_env c = calm_env" using assms(1) by (metis conn_good_def connected_def conn.simps)+
  have good: "texts_ok tx" "serving (cn_db c)" using assms(1) by (simp_all add: conn_good_def)
  obtain x db where h: "handle_line tx (calm_env 0) l (cn_db c) = (Reply (x @ crlf), db)" "LF \<notin> set x" "serving db"
    using calm_request [OF good assms(2), of 0] by (auto simp: replies_line_def)
  have a: "conn_answer tx c l = (x @ crlf, connected db)" using h(1) by (simp add: conn_answer_def)
  have run: "handleConn tx calm_env (l @ crlf) (cn_db c) = ([x @ crlf], False, db)"
    using calm_line [OF l h(1), of "[]"] handleConn_end by simp
  have "takeWhile (\<lambda>b. b \<noteq> LF) (y @ crlf) = y @ [CR]" "dropWhile (\<lambda>b. b \<noteq> LF) (y @ crlf) = [LF]" if "LF \<notin> set y" for y
    using that by (auto simp: crlf_def takeWhile_append dropWhile_append takeWhile_eq_all_conv [THEN iffD2])
  then show ?thesis
    using h(2,3) l good(1) c run a
    by (simp add: server_exchange_def Let_def conn_good_def connected_def calm_env_shift crlf_def)
qed

interpretation vault: line_peer "server_exchange tx" "conn_good tx" "conn_answer tx" for tx
  by unfold_locales (simp_all add: server_exchange_line)

text \<open>The replies are those that the server gives when all requests are sent at once.\<close>

lemma answer_all_handleConn:
  assumes "texts_ok tx" "serving db" "list_all sendable ls"
  shows "\<exists>db'. handleConn tx calm_env (concat (map (\<lambda>l. l @ crlf) ls)) db =
      (fst (vault.answer_all tx (connected db) ls), False, db')"
  using assms(2,3)
proof (induction ls arbitrary: db)
  case Nil
  then show ?case by (simp add: handleConn_end)
next
  case (Cons l ls)
  have l: "sendable l" "LF \<notin> set l" "length l + 1 < maxTokenSize" using Cons(3) by (simp_all add: sendable_def)
  obtain x db1 where h: "handle_line tx (calm_env 0) l db = (Reply (x @ crlf), db1)" "serving db1"
    using calm_request [OF assms(1) Cons(2) l(1), of 0] by (auto simp: replies_line_def)
  obtain db2 where rest: "handleConn tx calm_env (concat (map (\<lambda>l. l @ crlf) ls)) db1 =
      (fst (vault.answer_all tx (connected db1) ls), False, db2)"
    using Cons(1) [OF h(2)] Cons(3) by auto
  have "conn_answer tx (connected db) l = (x @ crlf, connected db1)"
    using h(1) by (simp add: conn_answer_def connected_def)
  then show ?case using calm_line [OF l(2,3) h(1) rest] by (auto split: prod.split)
qed

lemma cli_requests_sendable:
  assumes "trim_ok ct" "\<forall>l \<in> set (scan_lines stdin). length l + 1 < maxTokenSize"
  shows "list_all sendable (cli_requests ct stdin)"
  using TrimSpace_sendable [OF assms(1)] assms(2)
  by (auto simp: list_all_iff cli_requests_def typed_def dest!: set_takeWhileD)

subsection \<open>Properties\<close>

text \<open>C29. The client and the server work together: on a database that holds values of one line, for every input whose
  lines fit the buffer of the scanner, the client reads a reply to each of its requests, shows the replies in order,
  exactly those that the server gives to the whole sequence of requests, and exits without an error and without
  waiting for ever.\<close>

theorem cli_relays_replies:
  assumes "calm_reach s" "\<not> db_closed (sy_db s)" "list_all one_line (sy_applied s)" "texts_ok tx" "trim_ok ct"
    "\<forall>l \<in> set (scan_lines stdin). length l + 1 < maxTokenSize"
  shows "\<exists>out replies c db'. cli_loop ct (server_exchange tx) (connected (sy_db s)) stdin = (out, Exits 0, c) \<and>
    handleConn tx calm_env (concat (map (\<lambda>l. l @ crlf) (cli_requests ct stdin))) (sy_db s) = (replies, False, db') \<and>
    length replies = length (cli_requests ct stdin) \<and>
    filter (\<lambda>x. x \<noteq> prompt) out = map (\<lambda>r. Stdout (TrimRight r @ [LF])) replies @ bye ct stdin"
proof -
  have s: "serving (sy_db s)" using assms(1-3) by (auto simp: serving_def)
  then have good: "conn_good tx (connected (sy_db s))" using assms(4) by (simp add: conn_good_def connected_def)
  obtain rs c where a: "vault.answer_all tx (connected (sy_db s)) (cli_requests ct stdin) = (rs, c)" by fastforce
  obtain db' where "handleConn tx calm_env (concat (map (\<lambda>l. l @ crlf) (cli_requests ct stdin))) (sy_db s) = (rs, False, db')"
    using answer_all_handleConn [OF assms(4) s cli_requests_sendable [OF assms(5,6)]] a by auto
  moreover have "length rs = length (cli_requests ct stdin)" using vault.answer_all_length [of tx] a by (metis fst_conv)
  ultimately show ?thesis using vault.cli_loop_answers [OF assms(5) good assms(6) a] by blast
qed

theorem cli_relays_replies_witness:
  "\<exists>s tx ct. calm_reach s \<and> \<not> db_closed (sy_db s) \<and> list_all one_line (sy_applied s) \<and> texts_ok tx \<and> trim_ok ct \<and>
    (\<forall>l \<in> set (scan_lines [112, 105, 110, 103, 32, 10]). length l + 1 < maxTokenSize) \<and>
    (\<exists>out replies c db'. cli_loop ct (server_exchange tx) (connected (sy_db s)) [112, 105, 110, 103, 32, 10] = (out, Exits 0, c) \<and>
      handleConn tx calm_env (concat (map (\<lambda>l. l @ crlf) (cli_requests ct [112, 105, 110, 103, 32, 10]))) (sy_db s) = (replies, False, db') \<and>
      length replies = length (cli_requests ct [112, 105, 110, 103, 32, 10]) \<and>
      filter (\<lambda>x. x \<noteq> prompt) out = map (\<lambda>r. Stdout (TrimRight r @ [LF])) replies @ bye ct [112, 105, 110, 103, 32, 10])"
proof -
  let ?tx = "\<lparr>tx_upper = id, tx_quote = (\<lambda>_. []), tx_error = (\<lambda>_. [])\<rparr> :: texts"
  let ?ct = "\<lparr>ct_trim = (\<lambda>_. []), ct_lower = id, ct_read_error = []\<rparr> :: client_texts"
  obtain s where s: "wrote opts_example writes_example s" using wrote_example ..
  then have r: "calm_reach s" "\<not> db_closed (sy_db s)" "list_all one_line (sy_applied s)"
    by (simp_all add: wrote_def writes_example_def one_line_def LF_def)
  have t: "texts_ok ?tx" "trim_ok ?ct" by (simp_all add: texts_ok_def trim_ok_def)
  have "Scan [112, 105, 110, 103, 32, 10] = Some ([112, 105, 110, 103, 32], [])" "Scan [] = None"
    by (simp_all add: Scan_def LF_def dropCR_def CR_def maxTokenSize_def)
  then have l: "\<forall>l \<in> set (scan_lines [112, 105, 110, 103, 32, 10]). length l + 1 < maxTokenSize"
    by (simp add: scan_lines.simps maxTokenSize_def)
  from cli_relays_replies [OF r t l] r t l show ?thesis by blast
qed

end
