(* ===== verification/Database_Close.thy ===== *)
theory Database_Close
  imports Database_Runs
begin

text \<open>
  \<^verbatim>\<open>Close\<close> next to the goroutines.  It marks the database closed, waits until the flushing and the compacting goroutine have
  returned, and closes the files; in the meantime these may take any turns, so that a compaction may run before, during and after
  the last flush.  The theorem is about every such schedule.  \<open>db_Close\<close> of \<open>Database\<close> is the schedule in which the goroutines do nothing but
  the last flush.
\<close>

subsection \<open>The last flush\<close>

lemma flushMemTable_same [simp]: "db_closed (snd (flushMemTable df m i d)) = db_closed d"
  "db_walLog (snd (flushMemTable df m i d)) = db_walLog d" "db_opts (snd (flushMemTable df m i d)) = db_opts d"
  "db_active (snd (flushMemTable df m i d)) = db_active d"
  by (auto simp: flushMemTable_def Let_def split: prod.split option.split sum.split)

lemma flushIfNeeded_same [simp]: "db_closed (flushIfNeeded df d) = db_closed d"
  "db_walLog (flushIfNeeded df d) = db_walLog d" "db_opts (flushIfNeeded df d) = db_opts d"
  by (auto simp: flushIfNeeded_def flush_rotate_def nextSSTableID_def flush_clear_def Let_def case_prod_beta
      split: option.split)

text \<open>The states of an open and quiet database: no write and no background work is under way.\<close>

definition quiet :: "Sys \<Rightarrow> bool" where
  "quiet s \<longleftrightarrow> calm_reach s \<and> \<not> db_closed (sy_db s) \<and> sy_flush s = FIdle \<and> sy_compact s = CIdle"

lemma final_flush:
  assumes reach: "calm_reach s" and fl: "sy_flush s = FIdle" "sy_compact s = CIdle" "db_closed (sy_db s)"
    and next_id: "db_nextFileID (sy_db s) < - 2"
    and fits: "16 * mt_Len (db_active (sy_db s)) + mt_ByteSize (db_active (sy_db s)) + 4 < 2 ^ 32"
  shows "\<exists>s'. calm_steps s s' \<and> sy_db s' = flushIfNeeded no_dfaults (sy_db s) \<and> sy_applied s' = sy_applied s \<and>
    sy_logged s' = sy_logged s \<and> sy_flush s' = FDone \<and> sy_compact s' = CIdle \<and> mt_table (db_active (sy_db s')) = []"
proof (cases "flush_rotate (sy_db s)")
  case (Pair r db1)
  have inv: "sys_inv s" using reach by (rule calm_reach_inv)
  have chan: "db_closeChan (sy_db s)" using inv fl(3) by (simp add: sys_inv_def)
  have mt: "mt_inv (db_active (sy_db s))" using inv by (simp add: sys_inv_def mem_ok_def)
  show ?thesis
  proof (cases r)
    case None
    then have r: "mt_Len (db_active (sy_db s)) = 0" "db1 = sy_db s"
      using Pair fl(3) by (auto simp: flush_rotate_def Let_def nextSSTableID_def split: if_splits)
    then have "mt_table (db_active (sy_db s)) = []" using mt_sizes(1) [OF mt] by simp
    moreover have "step s FlushQuit (s\<lparr>sy_flush := FDone\<rparr>)" using Pair None fl(1) chan r(2) by (auto simp: step_simps)
    then have "calm_steps s (s\<lparr>sy_flush := FDone\<rparr>)" by (rule calm_steps.snoc [OF calm_steps.refl]) (simp add: next_id)
    ultimately show ?thesis using fl(2) Pair None r(2) by (intro exI [of _ "s\<lparr>sy_flush := FDone\<rparr>"]) (simp add: flushIfNeeded_def)
  next
    case (Some i)
    have db1: "db_immutable db1 = Some (db_active (sy_db s))" "db_active db1 = New"
      using Pair Some by (auto simp: flush_rotate_def Let_def nextSSTableID_def split: if_splits)
    define s1 where "s1 = s\<lparr>sy_db := db1, sy_flush := FWriting i True\<rparr>"
    have "step s FlushQuit s1" using Pair Some fl(1) chan by (auto simp: step_simps s1_def)
    then have s1: "calm_steps s s1" using calm_steps.snoc [OF calm_steps.refl] next_id by simp
    obtain e db2 where db2: "flushMemTable no_dfaults (db_active (sy_db s)) i db1 = (e, db2)" by fastforce
    define s2 where "s2 = s1\<lparr>sy_db := db2, sy_flush := FInstalled True\<rparr>"
    have "step s1 (FlushWrite no_dfaults) s2" using db2 db1 by (auto simp: step_simps s1_def s2_def)
    then have s2: "calm_steps s s2" using calm_steps.snoc [OF s1] fits fl(2) db1 by (simp add: s1_def Let_def)
    define s3 where "s3 = s2\<lparr>sy_db := flush_clear db2, sy_flush := FDone\<rparr>"
    have "step s2 FlushEnd s3" by (auto simp: step_simps s2_def s3_def)
    then have s3: "calm_steps s s3" using calm_steps.snoc [OF s2] by simp
    have "db_active db2 = db_active db1"
      using flushMemTable_same(4) [of no_dfaults "db_active (sy_db s)" i db1] db2 by simp
    then show ?thesis
      using s3 fl(2) Pair Some db1 db2 mem.tab_empty
      by (intro exI [of _ s3]) (simp add: s3_def s2_def s1_def flushIfNeeded_def flush_clear_def)
  qed
qed

text \<open>The beginning of \<^verbatim>\<open>Close\<close> and the last flush of a quiet database.\<close>

lemma closing_flush:
  assumes q: "quiet s" and next_id: "db_nextFileID (sy_db s) < - 2"
    and fits: "16 * mt_Len (db_active (sy_db s)) + mt_ByteSize (db_active (sy_db s)) + 4 < 2 ^ 32"
  obtains s1 s2 where "step s CloseBegin s1" "calm_steps s1 s2" "sy_db s2 = flushIfNeeded no_dfaults (snd (close_begin (sy_db s)))"
    "sy_applied s2 = sy_applied s" "sy_logged s2 = sy_logged s" "sy_flush s2 = FDone" "sy_compact s2 = CIdle"
    "mt_table (db_active (sy_db s2)) = []" "db_immutable (sy_db s2) = None" "calm_reach s2"
proof -
  let ?s1 = "s\<lparr>sy_db := snd (close_begin (sy_db s))\<rparr>"
  have s: "calm_reach s" "\<not> db_closed (sy_db s)" "sy_flush s = FIdle" "sy_compact s = CIdle"
    using q by (simp_all add: quiet_def)
  have st: "step s CloseBegin ?s1" by (rule step.close_begin) (rule prod.collapse [symmetric])
  then have r: "calm_reach ?s1" using calm_reach.step [OF s(1)] by simp
  obtain s2 where s2: "calm_steps ?s1 s2" "sy_db s2 = flushIfNeeded no_dfaults (sy_db ?s1)" "sy_applied s2 = sy_applied ?s1"
    "sy_logged s2 = sy_logged ?s1" "sy_flush s2 = FDone" "sy_compact s2 = CIdle" "mt_table (db_active (sy_db s2)) = []"
    using final_flush [OF r] s next_id fits by (auto simp: close_begin_def)
  have reach: "calm_reach s2" using calm_steps_reach [OF s2(1) r] .
  then have "db_immutable (sy_db s2) = None"
    using calm_reach_inv [OF reach] s2(5) by (auto simp: sys_inv_def view_ok_def Let_def flusher_ok_def)
  with st s2 reach show thesis by (intro that [of ?s1 s2]) simp_all
qed

text \<open>An example of a quiet database with something to flush.\<close>

lemma example_fits:
  "\<exists>s. wrote opts_example writes_example s \<and> quiet s \<and> db_nextFileID (sy_db s) < - 2 \<and>
    16 * mt_Len (db_active (sy_db s)) + mt_ByteSize (db_active (sy_db s)) + 4 < 2 ^ 32"
proof -
  obtain s where s: "wrote opts_example writes_example s" using wrote_example ..
  have mt: "mt_inv (db_active (sy_db s))" using calm_reach_inv [of s] s by (simp add: wrote_def sys_inv_def mem_ok_def)
  have "mt_table (db_active (sy_db s)) = [([1], Tomb), ([2], Val (Some [9]))]"
    using s mem.tab_sorted [OF mt] by (intro sorted_table_unique) (auto simp: wrote_def writes_example_def fun_eq_iff)
  then have "16 * mt_Len (db_active (sy_db s)) + mt_ByteSize (db_active (sy_db s)) + 4 < 2 ^ 32"
    using mt_sizes [OF mt] by (simp add: table_bytes_def cell_bytes_def)
  moreover have "quiet s" "db_nextFileID (sy_db s) < - 2"
    using s by (simp_all add: wrote_def quiet_def word_less_nat_alt unat_top_u64)
  ultimately show ?thesis using s by blast
qed


subsection \<open>Every schedule\<close>

text \<open>A closing database on which no write is under way: when the flushing goroutine is in its last turn or has returned, the
  active MemTable is empty, and stays so.\<close>

definition last_turn :: "flusher \<Rightarrow> bool" where
  "last_turn fl \<longleftrightarrow> fl = FDone \<or> fl = FInstalled True \<or> (\<exists>i. fl = FWriting i True)"

definition closing :: "kv_write list \<Rightarrow> Sys \<Rightarrow> bool" where
  "closing ws s \<longleftrightarrow> calm_reach s \<and> db_closed (sy_db s) \<and> sy_pending s = [] \<and> sy_applied s = ws \<and>
     (last_turn (sy_flush s) \<longrightarrow> mt_table (db_active (sy_db s)) = [])"

lemma rotate_closed:
  assumes "flush_rotate db = (r, db')" "db_closed db" "mt_inv (db_active db)"
  shows "mt_table (db_active db') = []"
  using assms mt_sizes(1) [OF assms(3)] mem.tab_empty
  by (auto simp: flush_rotate_def nextSSTableID_def Let_def split: if_splits)

lemma step_active:
  "step s a s' \<Longrightarrow> case a of ApplyWrite _ _ \<Rightarrow> True | FlushSignal \<Rightarrow> True | FlushQuit \<Rightarrow> True
    | _ \<Rightarrow> db_active (sy_db s') = db_active (sy_db s) \<and> sy_applied s' = sy_applied s \<and>
        (last_turn (sy_flush s') \<longrightarrow> last_turn (sy_flush s))"
  by (induction rule: step.induct)
    (auto simp: step_unfold last_turn_def split: option.splits prod.splits if_splits sum.splits)

lemma closing_step:
  assumes c: "closing ws s" and st: "step s a s'" and calm: "calm s a"
  shows "closing ws s'"
proof -
  have reach: "calm_reach s'" using c st calm calm_reach.step by (auto simp: closing_def)
  have closed: "db_closed (sy_db s')" using step_closed [OF st] c by (simp add: closing_def)
  have mt: "mt_inv (db_active (sy_db s))" using c calm_reach_inv by (auto simp: closing_def sys_inv_def mem_ok_def)
  have pend: "sy_pending s' = []"
    using st c by (induction rule: step.induct)
      (auto simp: closing_def write_log_def set_log_def delete_log_def split: option.splits prod.splits if_splits)
  show ?thesis
  proof (cases a)
    case (ApplyWrite i coin)
    then show ?thesis using st c by (auto simp: step_simps closing_def)
  next
    case FlushSignal
    then show ?thesis using st c reach closed pend by (auto simp: step_simps closing_def last_turn_def split: option.splits)
  next
    case FlushQuit
    then obtain r db' where "flush_rotate (sy_db s) = (r, db')" "sy_db s' = db'" "sy_applied s' = sy_applied s"
      using st by (auto simp: step_simps)
    then show ?thesis using rotate_closed [OF _ _ mt] c reach closed pend by (auto simp: closing_def)
  qed (use step_active [OF st] c reach closed pend in \<open>simp_all add: closing_def\<close>)
qed

lemma closing_steps: "calm_steps s t \<Longrightarrow> closing ws s \<Longrightarrow> closing ws t"
  by (induction rule: calm_steps.induct) (auto intro: closing_step)

lemma closing_begins:
  assumes "calm_reach s" "\<not> db_closed (sy_db s)" "sy_pending s = []" "step s CloseBegin s'"
  shows "closing (sy_applied s) s'"
proof -
  have "calm_reach s'" using calm_reach.step [OF assms(1,4)] by simp
  moreover have "\<not> last_turn (sy_flush s)"
    using calm_reach_inv [OF assms(1)] assms(2) by (auto simp: sys_inv_def view_ok_def Let_def flusher_ok_def last_turn_def)
  ultimately show ?thesis using assms(2-4) by (auto simp: step_simps closing_def close_begin_def)
qed

text \<open>C6. \<^verbatim>\<open>Close\<close> puts everything into the files, in every calm schedule of the goroutines: let \<^verbatim>\<open>Close\<close> begin on an open database on which
  no write is under way, whatever the flushing and the compacting goroutine are doing, and let calm steps follow, flushes and rounds of compaction
  among them, until both have returned.  Then the end of \<^verbatim>\<open>Close\<close> reports no error, and when the directory
  is opened again, even if the log was lost, \<^verbatim>\<open>Get\<close> returns for every key what it returned before.  (Calm steps: no failing call, and
  no round of compaction that leaves a newer file behind.)\<close>

theorem close_flushes_everything:
  assumes "calm_reach s" "\<not> db_closed (sy_db s)" "sy_pending s = []" "step s CloseBegin s1" "calm_steps s1 s2"
    and "sy_flush s2 = FDone" "sy_compact s2 = CDone" "\<not> wal_closed (db_walLog (sy_db s2))"
    and "o_Dir opts = o_Dir (db_opts (sy_db s2))"
  shows "\<exists>db db'. close_end no_faults (sy_db s2) = (None, db) \<and> db_Open no_dfaults coins opts (db_disk db) None = Inr db' \<and>
    (\<forall>k. db_Get (\<lambda>_. no_rfaults) k db' = db_Get (\<lambda>_. no_rfaults) k (sy_db s))"
proof -
  have c: "closing (sy_applied s) s2" using closing_begins [OF assms(1-4)] closing_steps assms(5) by blast
  then have s2: "calm_reach s2" "sy_applied s2 = sy_applied s" "mt_table (db_active (sy_db s2)) = []"
    using assms(6) by (simp_all add: closing_def last_turn_def)
  have inv: "sys_inv s2" using s2(1) by (rule calm_reach_inv)
  then have imm: "imm_table (sy_db s2) = []" using assms(6) by (auto simp: sys_inv_def view_ok_def Let_def flusher_ok_def)
  obtain S c where S: "disk_holds (o_Dir (db_opts (sy_db s2))) (db_nextFileID (sy_db s2)) (db_compact (sy_db s2)) c (db_disk (sy_db s2)) S"
    "S = (\<lambda>k. visible (map_writes (sy_applied s) Map.empty k))"
    using s2(2,3) imm inv by (auto simp: sys_inv_def view_ok_def Let_def)
  have dir: "o_Dir opts \<noteq> ''''" using inv assms(9) by (simp add: sys_inv_def)
  let ?db = "(sy_db s2)\<lparr>db_readers := [], db_walLog := snd (Wal.Close no_faults (db_walLog (sy_db s2)))\<rparr>"
  have close: "close_end no_faults (sy_db s2) = (None, ?db)"
    using assms(8) by (simp add: close_end_def Close_def file_Sync_def file_Close_def)
  have "disk_holds (o_Dir opts) (db_nextFileID (sy_db s2)) (db_compact (sy_db s2)) c (db_disk ?db) S"
    using S(1) assms(9) by simp
  then obtain db' where db': "db_Open no_dfaults coins opts (db_disk ?db) None = Inr db'" "opened opts [] S (db_disk ?db) db'"
    by (rule db_Open_shows [OF dir, of _ _ _ _ _ "[]" "([0], None)" 0 None coins])
      (simp_all add: plain_write_def torn_at_def wf_record_def log_of_def)
  then have "loaded opts [] S (db_disk ?db) db'" by (simp add: opened_def)
  then show ?thesis
    using close db'(1) loaded_get calm_reads [OF assms(1,2)] S(2)
    by (intro exI [of _ ?db] exI [of _ db']) simp
qed

theorem close_flushes_everything_witness:
  "\<exists>s s1 s2. calm_reach s \<and> \<not> db_closed (sy_db s) \<and> sy_pending s = [] \<and> step s CloseBegin s1 \<and> calm_steps s1 s2 \<and>
    sy_flush s2 = FDone \<and> sy_compact s2 = CDone \<and> \<not> wal_closed (db_walLog (sy_db s2)) \<and>
    o_Dir opts_example = o_Dir (db_opts (sy_db s2)) \<and> sy_applied s = writes_example \<and>
    (\<exists>db db'. close_end no_faults (sy_db s2) = (None, db) \<and>
      db_Open no_dfaults (\<lambda>_ _. True) opts_example (db_disk db) None = Inr db' \<and>
      (\<forall>k. db_Get (\<lambda>_. no_rfaults) k db' = db_Get (\<lambda>_. no_rfaults) k (sy_db s)))"
proof -
  obtain s where s: "wrote opts_example writes_example s" "quiet s" "db_nextFileID (sy_db s) < - 2"
    "16 * mt_Len (db_active (sy_db s)) + mt_ByteSize (db_active (sy_db s)) + 4 < 2 ^ 32"
    using example_fits by blast
  obtain s1 s2 where s1: "step s CloseBegin s1" "calm_steps s1 s2" "sy_db s2 = flushIfNeeded no_dfaults (snd (close_begin (sy_db s)))"
    "sy_flush s2 = FDone" "sy_compact s2 = CIdle" "calm_reach s2"
    by (rule closing_flush [OF s(2-4)])
  let ?s3 = "s2\<lparr>sy_compact := CDone\<rparr>"
  have r: "calm_reach s" "\<not> db_closed (sy_db s)" "sy_pending s = []" "sy_applied s = writes_example"
    and o: "db_opts (sy_db s) = withDefaults opts_example" using s(1) by (simp_all add: wrote_def)
  have "db_closeChan (sy_db s2)" using calm_reach_inv [OF s1(6)] s1(3) r(2) by (simp add: sys_inv_def close_begin_def)
  then have "step s2 CompactQuit ?s3" using s1(5) by (auto simp: step_simps)
  then have steps: "calm_steps s1 ?s3" using calm_steps.snoc [OF s1(2)] by simp
  have "\<not> wal_closed (db_walLog (sy_db s))" using calm_reach_inv [OF r(1)] r(2) by (simp add: sys_inv_def log_ok_inv_def)
  then have wal: "\<not> wal_closed (db_walLog (sy_db ?s3))" "o_Dir opts_example = o_Dir (db_opts (sy_db ?s3))"
    using s1(3) o r(2) by (simp_all add: close_begin_def)
  have fl: "sy_flush ?s3 = FDone" "sy_compact ?s3 = CDone" using s1(4) by simp_all
  from close_flushes_everything [OF r(1-3) s1(1) steps fl wal, of "\<lambda>_ _. True"] r s1(1) steps fl wal show ?thesis by blast
qed

end
