(* ===== verification/Database_Reads.thy ===== *)
theory Database_Reads
  imports Database_Close
begin

text \<open>
  \<^verbatim>\<open>Get\<close> next to the other goroutines.  It does not hold a lock from beginning to end: it asks whether the database is
  closed, looks into the MemTables under one lock, copies the list of readers under another, and reads the files without any,
  while a compaction may close them.  The theorem says what it returns nevertheless: the value of some
  moment between its beginning and its end, or an error, unless \<^verbatim>\<open>Close\<close> overtook it, in which case it may find nothing.
\<close>

subsection \<open>The parts of a read\<close>

text \<open>Steps 1 and 2 of \<^verbatim>\<open>Get\<close>; \<open>None\<close> when it goes on to the files.  The immutable MemTable does not change
  any more when it is read after the lock was given up.  \<open>get_memory\<close> includes the question whether the database is closed.\<close>

definition get_tables :: "bytes \<Rightarrow> DB \<Rightarrow> (error + slice) option" where
  "get_tables key db =
     (case mt_Get key (db_active db) of
        None \<Rightarrow> Some (Inl Panic)
      | Some (ent, found) \<Rightarrow>
          if found then Some (Inr (if e_Deleted ent then None else e_Value ent))
          else
            (case db_immutable db of
               None \<Rightarrow> None
             | Some imm \<Rightarrow>
                 (case mt_Get key imm of
                    None \<Rightarrow> Some (Inl Panic)
                  | Some (ent, found) \<Rightarrow>
                      if found then Some (Inr (if e_Deleted ent then None else e_Value ent)) else None)))"

definition get_memory :: "bytes \<Rightarrow> DB \<Rightarrow> (error + slice) option" where
  "get_memory key db = (if db_closed db then Some (Inl errClosed) else get_tables key db)"

text \<open>Step 3 of \<^verbatim>\<open>Get\<close> on a copied list of readers, of which \<open>shut\<close> tells those that were closed since.\<close>

definition get_files :: "(Reader \<Rightarrow> rfaults) \<Rightarrow> (Reader \<Rightarrow> bool) \<Rightarrow> bytes \<Rightarrow> Reader list \<Rightarrow> error + slice" where
  "get_files rf shut key rs = get_readers rf (map (\<lambda>r. if shut r then snd (rd_Close r) else r) rs) key"

lemma db_Get_parts:
  "db_Get rf key db = (case get_memory key db of Some r \<Rightarrow> r | None \<Rightarrow> get_files rf (\<lambda>_. False) key (db_readers db))"
  by (auto simp: db_Get_def get_memory_def get_tables_def get_files_def split: option.split prod.split)

subsection \<open>Failing and closed files\<close>

lemma readBlock_fails:
  "(\<exists>e. readBlock ft (r\<lparr>rd_closed := b\<rparr>) off len = Inl e) \<or>
    readBlock ft (r\<lparr>rd_closed := b\<rparr>) off len = readBlock no_rfaults (r\<lparr>rd_closed := False\<rparr>) off len"
  by (auto simp: readBlock_def ReadAt_def no_rfaults_def Let_def)

lemma rd_Get_fails:
  assumes "\<not> rd_closed r"
  shows "(\<exists>e. rd_Get ft (if b then snd (rd_Close r) else r) k = Inl e) \<or>
    rd_Get ft (if b then snd (rd_Close r) else r) k = rd_Get no_rfaults r k"
proof -
  have r: "r\<lparr>rd_closed := False\<rparr> = r" using assms by simp
  have c: "(if b then snd (rd_Close r) else r) = r\<lparr>rd_closed := b\<rparr>" using assms by (simp add: rd_Close_def)
  let ?ie = "rd_index r ! nat (searchIndex (rd_index r) k)"
  show ?thesis
    unfolding c using readBlock_fails [where ft = ft and r = r and b = b and off = "ie_blockOffset ?ie" and len = "ie_blockLen ?ie"]
    by (auto simp: rd_Get_def Let_def r split: sum.split bool.split)
qed

lemma get_files_fails:
  assumes "list_all (\<lambda>r. \<not> rd_closed r) rs"
  shows "(\<exists>e. get_files rf shut k rs = Inl e) \<or> get_files rf shut k rs = get_readers (\<lambda>_. no_rfaults) rs k"
  using assms
proof (induction rs)
  case Nil
  then show ?case by (simp add: get_files_def)
next
  case (Cons r rs)
  let ?r = "if shut r then snd (rd_Close r) else r"
  have IH: "(\<exists>e. get_files rf shut k rs = Inl e) \<or> get_files rf shut k rs = get_readers (\<lambda>_. no_rfaults) rs k"
    using Cons by simp
  have unfold: "get_files rf shut k (r # rs) =
     (case rd_Get (rf ?r) ?r k of Inl e \<Rightarrow> Inl (wrap ''vaultkv: SSTable read: '' e)
      | Inr (val, deleted) \<Rightarrow> if deleted then Inr None else if val \<noteq> None then Inr val else get_files rf shut k rs)"
    by (simp only: get_files_def list.map get_readers.simps)
  consider e where "rd_Get (rf ?r) ?r k = Inl e" | "rd_Get (rf ?r) ?r k = rd_Get no_rfaults r k"
    using rd_Get_fails [of r "rf ?r" "shut r" k] Cons.prems by auto
  then show ?case
  proof cases
    case 1
    then show ?thesis unfolding unfold by simp
  next
    case 2
    show ?thesis unfolding unfold 2 using IH by (auto split: sum.split prod.split)
  qed
qed

subsection \<open>What happens meanwhile\<close>

text \<open>The value of a key at a moment, in the files and in the immutable MemTable.\<close>

definition value_now :: "bytes \<Rightarrow> Sys \<Rightarrow> slice" where
  "value_now k s = visible (map_writes (sy_applied s) Map.empty k)"

definition filed :: "bytes \<Rightarrow> Sys \<Rightarrow> error + slice" where
  "filed k s = get_readers (\<lambda>_. no_rfaults) (db_readers (sy_db s)) k"

abbreviation imm_cell :: "bytes \<Rightarrow> Sys \<Rightarrow> cell option" where
  "imm_cell k s \<equiv> map_of (imm_table (sy_db s)) k"

text \<open>\<^verbatim>\<open>Close\<close> is over: its goroutines have returned and the readers are gone.\<close>

definition ended :: "Sys \<Rightarrow> bool" where
  "ended s \<longleftrightarrow> sy_flush s = FDone \<and> sy_compact s = CDone \<and> db_readers (sy_db s) = []"

lemma open_not_ended: "calm_reach s \<Longrightarrow> \<not> db_closed (sy_db s) \<Longrightarrow> \<not> ended s"
  using calm_reach_inv by (fastforce simp: ended_def sys_inv_def view_ok_def Let_def flusher_ok_def)

lemma step_ended: "step t a t' \<Longrightarrow> ended t \<Longrightarrow> ended t'"
  by (induction rule: step.induct) (auto simp: ended_def step_unfold split: option.splits prod.splits if_splits)

lemma file_view:
  assumes "calm_reach s" "\<not> ended s"
  obtains S where "view_ok s S" "readers_show (db_readers (sy_db s)) S" "filed k s = Inr (S k)" "sys_inv s"
proof -
  have inv: "sys_inv s" using assms(1) by (rule calm_reach_inv)
  then obtain S where S: "view_ok s S" by (auto simp: sys_inv_def)
  then have "readers_show (db_readers (sy_db s)) S" using assms(2) by (auto simp: view_ok_def Let_def ended_def)
  then show thesis using that S inv get_readers_show by (auto simp: filed_def)
qed

lemma view_now:
  assumes "view_ok s S"
  shows "over (mt_table (db_active (sy_db s))) (over (imm_table (sy_db s)) S) k = value_now k s"
  using assms by (simp add: view_ok_def Let_def value_now_def)

lemma active_now:
  assumes "calm_reach s" "map_of (mt_table (db_active (sy_db s))) k = Some c"
  shows "visible (Some c) = value_now k s"
proof -
  obtain S where "view_ok s S" using calm_reach_inv [OF assms(1)] by (auto simp: sys_inv_def)
  from view_now [OF this, of k] show ?thesis using assms(2) by (simp add: over_def)
qed

lemma imm_now:
  assumes "calm_reach s" "map_of (mt_table (db_active (sy_db s))) k = None" "imm_cell k s = Some c"
  shows "visible (Some c) = value_now k s"
proof -
  obtain S where "view_ok s S" using calm_reach_inv [OF assms(1)] by (auto simp: sys_inv_def)
  from view_now [OF this, of k] show ?thesis using assms(2,3) by (simp add: over_def)
qed

lemma filed_now:
  assumes "calm_reach s" "\<not> ended s" "map_of (mt_table (db_active (sy_db s))) k = None" "imm_cell k s = None"
  shows "filed k s = Inr (value_now k s)"
proof -
  obtain S where S: "view_ok s S" "filed k s = Inr (S k)" by (rule file_view [OF assms(1,2)])
  from view_now [OF this(1), of k] show ?thesis using assms(3,4) S(2) by (simp add: over_def)
qed

text \<open>How a step changes the files and the immutable MemTable.\<close>

lemma step_readers:
  "step t a t' \<Longrightarrow> case a of FlushWrite _ \<Rightarrow> True | ReloadSwap \<Rightarrow> True | CloseEnd _ \<Rightarrow> True
    | _ \<Rightarrow> db_readers (sy_db t') = db_readers (sy_db t)"
  by (induction rule: step.induct) (auto simp: step_unfold split: option.splits prod.splits if_splits)

lemma step_filed:
  assumes reach: "calm_reach t" and st: "step t a t'" and calm: "calm t a" and alive: "\<not> ended t'"
  shows "filed k t' = filed k t \<or> (\<exists>c. imm_cell k t = Some c \<and> filed k t' = Inr (visible (Some c)))"
proof -
  have alive_t: "\<not> ended t" using step_ended [OF st] alive by blast
  obtain S where S: "view_ok t S" "readers_show (db_readers (sy_db t)) S" "filed k t = Inr (S k)" "sys_inv t"
    by (rule file_view [OF reach alive_t])
  show ?thesis
  proof (cases a)
    case (FlushWrite df)
    have "view_ok t' (over (imm_table (sy_db t)) S)" using flush_write_view(2) [OF S(4) _ _ S(1)] st calm FlushWrite by blast
    moreover have "sy_flush t' \<noteq> FDone" using st FlushWrite by (auto simp: step_simps)
    ultimately have "readers_show (db_readers (sy_db t')) (over (imm_table (sy_db t)) S)" by (auto simp: view_ok_def Let_def)
    then have "filed k t' = Inr (over (imm_table (sy_db t)) S k)" by (simp add: filed_def get_readers_show)
    then show ?thesis using S(3) by (cases "imm_cell k t") (simp_all add: over_def)
  next
    case ReloadSwap
    then obtain rs where "sy_compact t = CSwap rs" "db_readers (sy_db t') = rs"
      using st by (auto simp: step_simps reload_swap_def Let_def)
    then have "readers_show (db_readers (sy_db t')) S" using S(1) by (auto simp: view_ok_def Let_def compactor_ok_def)
    then show ?thesis using S(3) by (simp add: filed_def get_readers_show)
  next
    case (CloseEnd ft)
    then have "ended t'" using st by (auto simp: step_simps ended_def close_end_def split: prod.splits)
    then show ?thesis using alive by blast
  qed (use step_readers [OF st] in \<open>simp_all add: filed_def\<close>)
qed

lemma step_imm:
  assumes st: "step t a t'" and c: "imm_cell k t' = Some c"
  shows "imm_cell k t = Some c \<or> map_of (mt_table (db_active (sy_db t))) k = Some c"
  using st c
  by (induction rule: step.induct)
    (auto simp: step_unfold split: option.splits prod.splits if_splits sum.splits)

subsection \<open>On the way to the files\<close>

text \<open>A read that has passed the MemTables will see one of the values \<open>V\<close>: the files hold one, and the immutable MemTable,
  which may be flushed before they are read, does too.  This holds when the read leaves the MemTables, and steps keep
  it if \<open>V\<close> has the values of their moments.\<close>

definition reading :: "bytes \<Rightarrow> slice set \<Rightarrow> Sys \<Rightarrow> bool" where
  "reading k V s \<longleftrightarrow> \<not> ended s \<longrightarrow>
     (\<exists>v \<in> V. filed k s = Inr v) \<and> (\<forall>c. imm_cell k s = Some c \<longrightarrow> visible (Some c) \<in> V)"

lemma reading_mono: "reading k V s \<Longrightarrow> V \<subseteq> W \<Longrightarrow> reading k W s"
  unfolding reading_def by blast

lemma reading_step:
  assumes "reading k V s" "calm_reach s" "step s a s'" "calm s a" "value_now k s \<in> V"
  shows "reading k V s'"
  unfolding reading_def
proof (intro impI conjI allI)
  assume alive: "\<not> ended s'"
  then have V: "\<exists>v \<in> V. filed k s = Inr v" "\<And>c. imm_cell k s = Some c \<Longrightarrow> visible (Some c) \<in> V"
    using assms(1) step_ended [OF assms(3)] by (auto simp: reading_def)
  show "\<exists>v \<in> V. filed k s' = Inr v" using step_filed [OF assms(2-4) alive, of k] V by auto
  show "visible (Some c) \<in> V" if "imm_cell k s' = Some c" for c
    using step_imm [OF assms(3) that] V(2) active_now [OF assms(2), of k c] assms(5) by auto
qed

text \<open>What a look into the MemTables gives.\<close>

lemma get_tables_calm:
  assumes "calm_reach s"
  shows "get_tables k (sy_db s) = None \<Longrightarrow> map_of (mt_table (db_active (sy_db s))) k = None \<and> imm_cell k s = None"
    and "get_tables k (sy_db s) = Some r \<Longrightarrow> r = Inr (value_now k s)"
proof -
  let ?db = "sy_db s"
  have act: "mem_ok (sy_applied s) (db_active ?db)" and imm: "imm_ok (sy_applied s) (db_immutable ?db)"
    using calm_reach_inv [OF assms(1)] by (simp_all add: sys_inv_def)
  have imm': "mem_ok (sy_applied s) mt" if "db_immutable ?db = Some mt" for mt using imm that by simp
  have "case get_tables k ?db of
      None \<Rightarrow> map_of (mt_table (db_active ?db)) k = None \<and> imm_cell k s = None | Some r \<Rightarrow> r = Inr (value_now k s)"
  proof (cases "map_of (mt_table (db_active ?db)) k")
    case (Some c)
    then show ?thesis using mem_ok_get(2) [OF act Some] active_now [OF assms Some] by (auto simp: get_tables_def)
  next
    case None
    note active = mem_ok_get(1) [OF act None]
    show ?thesis
    proof (cases "db_immutable ?db")
      case (Some mt)
      show ?thesis
      proof (cases "map_of (mt_table mt) k")
        case (Some c)
        then show ?thesis
          using mem_ok_get(2) [OF imm' [OF \<open>db_immutable ?db = Some mt\<close>] Some] imm_now [OF assms None, of c] active
            \<open>db_immutable ?db = Some mt\<close> by (auto simp: get_tables_def)
      next
        case missing: None
        then show ?thesis using mem_ok_get(1) [OF imm' [OF Some] missing] active None Some by (auto simp: get_tables_def)
      qed
    qed (use None active in \<open>auto simp: get_tables_def\<close>)
  qed
  then show "get_tables k ?db = None \<Longrightarrow> map_of (mt_table (db_active ?db)) k = None \<and> imm_cell k s = None"
    and "get_tables k ?db = Some r \<Longrightarrow> r = Inr (value_now k s)" by simp_all
qed

lemma reading_start:
  assumes "calm_reach s" "get_tables k (sy_db s) = None" "value_now k s \<in> V"
  shows "reading k V s"
  using filed_now [OF assms(1)] get_tables_calm(1) [OF assms(1,2)] assms(3) by (auto simp: reading_def)

lemma reading_end:
  assumes "reading k V s" "\<not> ended s"
  obtains v where "v \<in> V" "get_files (\<lambda>_. no_rfaults) (\<lambda>_. False) k (db_readers (sy_db s)) = Inr v"
  using assms by (auto simp: reading_def filed_def get_files_def)

subsection \<open>Reads are atomic\<close>

text \<open>\<open>v\<close> is the value of the key at some moment from \<open>s\<close> to \<open>t\<close>.\<close>

definition seen_between :: "bytes \<Rightarrow> Sys \<Rightarrow> Sys \<Rightarrow> slice \<Rightarrow> bool" where
  "seen_between k s t v \<longleftrightarrow> (\<exists>u. calm_steps s u \<and> calm_steps u t \<and> value_now k u = v)"

lemma seen_later: "seen_between k s t v \<Longrightarrow> step t a t' \<Longrightarrow> calm t a \<Longrightarrow> seen_between k s t' v"
  by (auto simp: seen_between_def intro: calm_steps.snoc)

lemma seen_now: "calm_steps s t \<Longrightarrow> seen_between k s t (value_now k t)"
  by (auto simp: seen_between_def)

lemma reading_between:
  assumes "calm_steps s t" "calm_reach s" "get_tables k (sy_db s) = None"
  shows "reading k {v. seen_between k s t v} t"
  using assms
proof (induction rule: calm_steps.induct)
  case (refl s)
  then show ?case using reading_start [of s k] seen_now [of s s k] by simp
next
  case (snoc s t a t')
  have "calm_reach t" "value_now k t \<in> {v. seen_between k s t v}"
    using snoc.hyps(1) snoc.prems(1) calm_steps_reach seen_now [OF snoc.hyps(1)] by auto
  then have "reading k {v. seen_between k s t v} t'"
    using reading_step [OF snoc.IH [OF snoc.prems] _ snoc.hyps(2,3)] by blast
  then show ?case by (rule reading_mono) (use seen_later snoc.hyps(2,3) in blast)
qed

lemma shown_open:
  assumes "readers_show rs S"
  shows "list_all (\<lambda>r. \<not> rd_closed r) rs"
proof -
  obtain ts where "list_all2 serves (rev rs) ts" using assms by (auto simp: readers_show_def)
  then have "list_all (\<lambda>r. \<not> rd_closed r) (rev rs)"
    by (induction rule: list_all2_induct) (auto simp: serves_def reader_of_def)
  then show ?thesis by simp
qed

text \<open>C4. What \<^verbatim>\<open>Get\<close> returns although it holds no lock for its whole length: let calm steps of the other goroutines come between
  its question whether the database is closed, in state \<open>r\<close>, its look into the MemTables, in \<open>s\<close>, and its copy of the list of
  readers, in \<open>t\<close>; let a compaction close some of these readers before they are read, and let reads fail.  A database that was closed
  at first is refused; otherwise \<^verbatim>\<open>Get\<close> returns the value that the last write gave the key at some moment from \<open>s\<close> to \<open>t\<close>; or an error,
  and that only if a read failed or a reader was closed; or nothing, if \<^verbatim>\<open>Close\<close> ended in the meantime.  The last case
  is a race of the code: the key may have a value at every moment, as the example shows.\<close>

theorem get_is_atomic:
  assumes "calm_reach r" "calm_steps r s" "calm_steps s t"
  shows "let res = (if db_closed (sy_db r) then Inl errClosed
        else case get_tables k (sy_db s) of Some x \<Rightarrow> x | None \<Rightarrow> get_files rf shut k (db_readers (sy_db t))) in
    (\<exists>u. calm_steps s u \<and> calm_steps u t \<and> res = Inr (visible (map_writes (sy_applied u) Map.empty k))) \<or>
    (\<exists>e x. res = Inl e \<and> (shut x \<or> rf x \<noteq> no_rfaults)) \<or> (res = Inl errClosed \<and> db_closed (sy_db r)) \<or>
    (res = Inr None \<and> sy_flush t = FDone \<and> sy_compact t = CDone \<and> db_readers (sy_db t) = [])"
proof -
  have s: "calm_reach s" using calm_steps_reach assms(1,2) by blast
  have t: "calm_reach t" using calm_steps_reach assms(3) s by blast
  show ?thesis
  proof (cases "get_tables k (sy_db s)")
    case (Some x)
    then have "x = Inr (visible (map_writes (sy_applied s) Map.empty k))"
      using get_tables_calm(2) [OF s Some] by (simp add: value_now_def)
    then show ?thesis using Some assms(3) by auto
  next
    case None
    show ?thesis
    proof (cases "ended t")
      case True
      then show ?thesis using None by (simp add: ended_def get_files_def)
    next
      case False
      obtain v where v: "seen_between k s t v" "filed k t = Inr v"
        using reading_between [OF assms(3) s None] False by (auto simp: reading_def)
      obtain S where "readers_show (db_readers (sy_db t)) S" by (rule file_view [OF t False])
      note files = get_files_fails [OF shown_open [OF this], of rf shut k]
      have "get_files rf shut k (db_readers (sy_db t)) = filed k t" if "\<forall>x. \<not> shut x \<and> rf x = no_rfaults"
      proof -
        have "rf = (\<lambda>_. no_rfaults)" "shut = (\<lambda>_. False)" using that by (auto simp: fun_eq_iff)
        then show ?thesis by (simp add: filed_def get_files_def)
      qed
      then show ?thesis using None files v by (auto simp: Let_def filed_def seen_between_def value_now_def)
    qed
  qed
qed


text \<open>The race with \<^verbatim>\<open>Close\<close>: the key has the value 9 from beginning to end, and \<^verbatim>\<open>Get\<close> finds nothing.\<close>

theorem get_is_atomic_witness:
  "\<exists>r s t res. calm_reach r \<and> calm_steps r s \<and> calm_steps s t \<and> \<not> db_closed (sy_db r) \<and>
    sy_applied r = writes_example \<and> sy_applied t = writes_example \<and>
    res = (if db_closed (sy_db r) then Inl errClosed
      else case get_tables [2] (sy_db s) of Some x \<Rightarrow> x | None \<Rightarrow> get_files (\<lambda>_. no_rfaults) (\<lambda>_. False) [2] (db_readers (sy_db t))) \<and>
    db_Get (\<lambda>_. no_rfaults) [2] (sy_db r) = Inr (Some [9]) \<and> res = Inr None \<and>
    ((\<exists>u. calm_steps s u \<and> calm_steps u t \<and> res = Inr (visible (map_writes (sy_applied u) Map.empty [2]))) \<or>
     (\<exists>e x. res = Inl e \<and> ((\<lambda>_. False) x \<or> (\<lambda>_. no_rfaults) x \<noteq> no_rfaults)) \<or> (res = Inl errClosed \<and> db_closed (sy_db r)) \<or>
     (res = Inr None \<and> sy_flush t = FDone \<and> sy_compact t = CDone \<and> db_readers (sy_db t) = []))"
proof -
  obtain r where r: "wrote opts_example writes_example r" "quiet r" "db_nextFileID (sy_db r) < - 2"
    "16 * mt_Len (db_active (sy_db r)) + mt_ByteSize (db_active (sy_db r)) + 4 < 2 ^ 32"
    using example_fits by blast
  obtain r1 s where s: "step r CloseBegin r1" "calm_steps r1 s" "sy_db s = flushIfNeeded no_dfaults (snd (close_begin (sy_db r)))"
    "sy_applied s = sy_applied r" "sy_flush s = FDone" "sy_compact s = CIdle" "mt_table (db_active (sy_db s)) = []" "calm_reach s"
    by (rule closing_flush [OF r(2-4)])
  have q: "calm_reach r" "\<not> db_closed (sy_db r)" "sy_applied r = writes_example" using r(1) by (simp_all add: wrote_def)
  have rs: "calm_steps r s" using calm_steps_trans [OF s(2)] calm_steps.snoc [OF calm_steps.refl s(1)] by simp
  have inv: "sys_inv s" using s(8) by (rule calm_reach_inv)
  have imm: "imm_cell [2] s = None" using inv s(5) by (auto simp: sys_inv_def view_ok_def Let_def flusher_ok_def)
  define t1 where "t1 = s\<lparr>sy_compact := CDone\<rparr>"
  define t where "t = t1\<lparr>sy_db := snd (close_end no_faults (sy_db t1))\<rparr>"
  have "db_closeChan (sy_db s)" using inv s(3) q(2) by (simp add: sys_inv_def close_begin_def)
  then have "step s CompactQuit t1" using s(6) by (auto simp: step_simps t1_def)
  then have st1: "calm_steps s t1" using calm_steps.snoc [OF calm_steps.refl] by simp
  have "step t1 (CloseEnd no_faults) t"
    unfolding t_def by (rule step.close_end [OF _ _ prod.collapse [symmetric]]) (use s(5) in \<open>simp_all add: t1_def\<close>)
  then have st: "calm_steps s t" using calm_steps.snoc [OF st1] by simp
  have t: "db_readers (sy_db t) = []" "sy_applied t = writes_example"
    using s(4) q(3) by (simp_all add: t_def t1_def close_end_def case_prod_beta)
  have none: "get_tables [2] (sy_db s) = None"
    using get_tables_calm(2) [OF s(8), of "[2]"] mem_ok_get(1) [of "sy_applied s" "db_active (sy_db s)" "[2]"] inv s(7) imm
      calm_reach_inv [OF s(8)] s(5)
    by (auto simp: get_tables_def sys_inv_def view_ok_def Let_def flusher_ok_def)
  have "db_Get (\<lambda>_. no_rfaults) [2] (sy_db r) = Inr (Some [9])"
    using calm_reads [OF q(1,2), of "[2]"] q(3) by (simp add: writes_example_def)
  then show ?thesis
    using get_is_atomic [where k = "[2]" and rf = "\<lambda>_. no_rfaults" and shut = "\<lambda>_. False", OF q(1) rs st] q rs st t none
    by (intro exI [of _ r] exI [of _ s] exI [of _ t] exI [of _ "Inr None"]) (simp add: get_files_def Let_def)
qed

end
