(* ===== verification/Server_Process.thy ===== *)
theory Server_Process
  imports Cli Database_Reads
begin

text \<open>
  The process of \<^verbatim>\<open>cmd/server/main.go\<close>: how it starts and stops, and the goroutines of its connections next to the
  background work of the database, as a state machine.  A request is cut where the database gives up its locks: a write is logged in
  one step and applied in another, a read looks into the MemTables in one step and into the files in another, so that requests
  of different connections interleave.  The abstract server works on a map and handles each request at once; the theorem is that every
  request is answered as if it had been handled at one moment between its beginning and its end.
\<close>

subsection \<open>Starting and stopping\<close>

text \<open>\<^verbatim>\<open>main\<close> up to the loop over \<^verbatim>\<open>Accept\<close>: it exits, or serves the database.  \<open>listen\<close> is the error of \<^verbatim>\<open>net.Listen\<close>, if
  there is one; \<^verbatim>\<open>os.Exit\<close> skips the deferred \<^verbatim>\<open>Close\<close>.\<close>

datatype startup = Stopped int "shown list" | Serves "shown list" DB

definition server_start :: "texts \<Rightarrow> dfaults \<Rightarrow> (nat \<Rightarrow> nat \<Rightarrow> bool) \<Rightarrow> bytes option \<Rightarrow> string \<Rightarrow> string \<Rightarrow> string \<Rightarrow> int \<Rightarrow>
    dir_map \<Rightarrow> bytes option \<Rightarrow> startup" where
  "server_start tx df coins listen port dataDir syncMode memMB d log =
     (case sync_flag syncMode of
        None \<Rightarrow> Stopped 1 [Stderr (str ''unknown sync mode '' @ Quote tx (str syncMode) @ [32, 226, 128, 148] @
                   str '' use full, batched, or none'' @ [LF])]
      | Some sm \<Rightarrow>
          (case db_Open df coins (server_options dataDir sm memMB) d log of
             Inl (e, _) \<Rightarrow> Stopped 1 [Stderr (str ''vaultkv: open: '' @ tx_error tx e @ [LF])]
           | Inr db \<Rightarrow>
               let addr = str '':'' @ str port in
               (case listen of
                  Some err \<Rightarrow> Stopped 1 [Stderr (str ''listen '' @ addr @ str '': '' @ err @ [LF])]
                | None \<Rightarrow> Serves [Stdout (str ''VaultKV listening on '' @ addr @ str ''  data='' @ str dataDir @
                    str ''  sync='' @ str syncMode @ str ''  mem='' @ show_int memMB @ str ''MB'' @ [LF])] db)))"

text \<open>After a failed \<^verbatim>\<open>Accept\<close>: the message and the deferred \<^verbatim>\<open>Close\<close> of the database, whose error is dropped.\<close>

definition server_stop :: "dfaults \<Rightarrow> DB \<Rightarrow> shown list \<times> DB" where
  "server_stop df db = ([Stdout (str ''VaultKV stopped.'' @ [LF])], snd (db_Close df db))"

subsection \<open>The parts of a request\<close>

text \<open>A request is done at once, or its write is logged, or its key is not in the MemTables.\<close>

datatype begun = Done outcome | Logged kv_write | Missed bytes

definition get_reply :: "texts \<Rightarrow> error + slice \<Rightarrow> outcome" where
  "get_reply tx r =
     (case r of
        Inl e \<Rightarrow> reply_error tx e
      | Inr None \<Rightarrow> Reply (str ''-ERR not found'' @ crlf)
      | Inr (Some v) \<Rightarrow> Reply (str ''+'' @ v @ crlf))"

definition begin_line :: "texts \<Rightarrow> request_env \<Rightarrow> bytes \<Rightarrow> DB \<Rightarrow> begun \<times> DB" where
  "begin_line tx env text db =
     (let line = TrimRight text in
      if line = [] then (Done Skipped, db)
      else
        let parts = SplitN line 3;
            cmd = ToUpper tx (parts ! 0)
        in if cmd = str ''SET'' then
             if length parts < 3 then (Done (Reply (str ''-ERR SET requires key and value'' @ crlf)), db)
             else
               (case set_log (re_wal env) (parts ! 1) (Some (parts ! 2)) db of
                  (Some e, db) \<Rightarrow> (Done (reply_error tx e), db)
                | (None, db) \<Rightarrow> (Logged (parts ! 1, Some (Some (parts ! 2))), db))
           else if cmd = str ''GET'' then
             if length parts < 2 then (Done (Reply (str ''-ERR GET requires key'' @ crlf)), db)
             else
               (case get_memory (parts ! 1) db of
                  Some r \<Rightarrow> (Done (get_reply tx r), db)
                | None \<Rightarrow> (Missed (parts ! 1), db))
           else if cmd = str ''DEL'' then
             if length parts < 2 then (Done (Reply (str ''-ERR DEL requires key'' @ crlf)), db)
             else
               (case delete_log (re_wal env) (parts ! 1) db of
                  (Some e, db) \<Rightarrow> (Done (reply_error tx e), db)
                | (None, db) \<Rightarrow> (Logged (parts ! 1, None), db))
           else if cmd = str ''PING'' then (Done (Reply (str ''+PONG'' @ crlf)), db)
           else if cmd = str ''STAT'' then (Done (Reply (stat_reply db)), db)
           else (Done (Reply (str ''-ERR unknown command '' @ Quote tx cmd @ crlf)), db))"

definition finish_line :: "texts \<Rightarrow> request_env \<Rightarrow> (Reader \<Rightarrow> bool) \<Rightarrow> begun \<Rightarrow> DB \<Rightarrow> outcome \<times> DB" where
  "finish_line tx env shut b db =
     (case b of
        Done out \<Rightarrow> (out, db)
      | Logged w \<Rightarrow>
          (case write_apply (re_coin env) w db of
             (Some e, db) \<Rightarrow> (reply_error tx e, db)
           | (None, db) \<Rightarrow> (Reply (str ''+OK'' @ crlf), db))
      | Missed k \<Rightarrow> (get_reply tx (get_files (re_read env) shut k (db_readers db)), db))"

text \<open>Together the parts are the handler of \<open>Server\<close>.\<close>

lemma handle_line_parts:
  "handle_line tx env raw db = (case begin_line tx env raw db of (b, db) \<Rightarrow> finish_line tx env (\<lambda>_. False) b db)"
  by (auto simp: handle_line_def begin_line_def finish_line_def get_reply_def Let_def db_Set_def db_Delete_def db_Get_parts
      write_apply_def split: option.split prod.split sum.split)

subsection \<open>Serving\<close>

text \<open>A connection: what arrived and was not handled yet, whether the peer has finished, whether its handler still runs,
  the request that it is working on with the number of requests that had been handled when it began, and the replies that were
  sent.\<close>

datatype task = Waiting | Busy bytes begun nat

record client =
  cl_input :: bytes
  cl_eof :: bool
  cl_open :: bool
  cl_task :: task
  cl_replies :: "bytes list"

text \<open>What was handled, in the order of the answers: the connection, whether the database was closed when the request began, its line, what
  came of it, and how many requests had been handled when it began; or a write that was logged when the process died, and was not
  answered.\<close>

datatype handled = Answered nat bool bytes outcome nat | Unanswered kv_write

text \<open>The process: the database with its goroutines, the connections, whether the listener is open, whether \<^verbatim>\<open>main\<close> is still in its
  loop, whether a panic ended the process, what was printed, and the requests that were handled.\<close>

record ServerState =
  sv_sys :: Sys
  sv_clients :: "client list"
  sv_listening :: bool
  sv_accepting :: bool
  sv_dead :: bool
  sv_shown :: "shown list"
  sv_history :: "handled list"

definition server_init :: "shown list \<Rightarrow> Sys \<Rightarrow> ServerState" where
  "server_init out s = \<lparr>sv_sys = s, sv_clients = [], sv_listening = True, sv_accepting = True, sv_dead = False,
     sv_shown = out, sv_history = []\<rparr>"

datatype event =
    Accept
  | AcceptFails
  | Signal
  | Arrive nat bytes
  | HangUp nat
  | BeginRequest nat request_env
  | FinishRequest nat request_env "Reader \<Rightarrow> bool" nat
  | EndConn nat
  | Background action
  | Restart

definition replied :: "outcome \<Rightarrow> bytes list" where
  "replied out = (case out of Reply r \<Rightarrow> [r] | _ \<Rightarrow> [])"

text \<open>The histories of the database record the writes of the requests as \<open>step\<close> does.\<close>

definition begun_sys :: "begun \<Rightarrow> DB \<Rightarrow> Sys \<Rightarrow> Sys" where
  "begun_sys b db s =
     (case b of
        Logged w \<Rightarrow> s\<lparr>sy_db := db, sy_pending := sy_pending s @ [w], sy_logged := sy_logged s @ [w]\<rparr>
      | _ \<Rightarrow> s\<lparr>sy_db := db\<rparr>)"

definition finished_sys :: "begun \<Rightarrow> nat \<Rightarrow> DB \<Rightarrow> Sys \<Rightarrow> Sys" where
  "finished_sys b j db s =
     (case b of
        Logged w \<Rightarrow> s\<lparr>sy_db := db, sy_pending := take j (sy_pending s) @ drop (Suc j) (sy_pending s), sy_applied := sy_applied s @ [w]\<rparr>
      | _ \<Rightarrow> s\<lparr>sy_db := db\<rparr>)"

definition set_task :: "nat \<Rightarrow> bytes \<Rightarrow> task \<Rightarrow> ServerState \<Rightarrow> ServerState" where
  "set_task i rest t sv = sv\<lparr>sv_clients := (sv_clients sv)[i := (sv_clients sv ! i)\<lparr>cl_input := rest, cl_task := t\<rparr>]\<rparr>"

definition answer :: "nat \<Rightarrow> bool \<Rightarrow> bytes \<Rightarrow> outcome \<Rightarrow> nat \<Rightarrow> ServerState \<Rightarrow> ServerState" where
  "answer i shut raw out n sv =
     (let c = sv_clients sv ! i in
      sv\<lparr>sv_clients := (sv_clients sv)[i := c\<lparr>cl_task := Waiting, cl_replies := cl_replies c @ replied out\<rparr>],
         sv_dead := (out = Crash),
         sv_history := sv_history sv @ [Answered i shut raw out n]\<rparr>)"

text \<open>A turn of the loop of \<^verbatim>\<open>handleConn\<close> on the connection \<open>i\<close>, up to the place where the database gives up its locks, and the rest of it.  The
  write that is applied is the one at the place \<open>j\<close> of those that are under way.\<close>

definition begin_request :: "texts \<Rightarrow> nat \<Rightarrow> request_env \<Rightarrow> bytes \<Rightarrow> bytes \<Rightarrow> ServerState \<Rightarrow> ServerState" where
  "begin_request tx i env raw rest sv =
     (case begin_line tx env raw (sy_db (sv_sys sv)) of
        (b, db) \<Rightarrow>
          let n = length (sv_history sv); sv1 = sv\<lparr>sv_sys := begun_sys b db (sv_sys sv)\<rparr> in
          (case b of
             Done out \<Rightarrow> answer i (db_closed (sy_db (sv_sys sv))) raw out n (set_task i rest Waiting sv1)
           | _ \<Rightarrow> set_task i rest (Busy raw b n) sv1))"

definition finish_request :: "texts \<Rightarrow> nat \<Rightarrow> request_env \<Rightarrow> (Reader \<Rightarrow> bool) \<Rightarrow> nat \<Rightarrow> bytes \<Rightarrow> begun \<Rightarrow> nat \<Rightarrow> ServerState \<Rightarrow> ServerState" where
  "finish_request tx i env shut j raw b n sv =
     (case finish_line tx env shut b (sy_db (sv_sys sv)) of
        (out, db) \<Rightarrow> answer i False raw out n (sv\<lparr>sv_sys := finished_sys b j db (sv_sys sv)\<rparr>))"

text \<open>What the goroutines of the database do, and \<^verbatim>\<open>main\<close> on its way out, which runs the deferred \<^verbatim>\<open>Close\<close>.\<close>

fun background :: "ServerState \<Rightarrow> action \<Rightarrow> bool" where
  "background sv (LogWrite _ _) \<longleftrightarrow> False"
| "background sv (ApplyWrite _ _) \<longleftrightarrow> False"
| "background sv CloseBegin \<longleftrightarrow> \<not> sv_accepting sv"
| "background sv (CloseEnd _) \<longleftrightarrow> \<not> sv_accepting sv"
| "background sv _ \<longleftrightarrow> True"

text \<open>The steps of the process.  The loop over \<^verbatim>\<open>Accept\<close> starts a handler for each connection and ends when \<^verbatim>\<open>Accept\<close> fails; a
  signal closes the listener.  A handler waits for a whole line or the end of the input, and is finished when
  \<^verbatim>\<open>Scan\<close> gives none.  The process may be killed at any moment, perhaps while it appends one more record to the log,
  and be started again on the same directory; its connections are gone then, and the writes that were logged are in the log.\<close>

inductive server_step :: "texts \<Rightarrow> ServerState \<Rightarrow> event \<Rightarrow> ServerState \<Rightarrow> bool" for tx where
  accept: "\<not> sv_dead sv \<Longrightarrow> sv_listening sv \<Longrightarrow> sv_accepting sv \<Longrightarrow> server_step tx sv Accept
    (sv\<lparr>sv_clients := sv_clients sv @ [\<lparr>cl_input = [], cl_eof = False, cl_open = True, cl_task = Waiting, cl_replies = []\<rparr>]\<rparr>)"
| accept_fails: "\<not> sv_dead sv \<Longrightarrow> sv_accepting sv \<Longrightarrow> server_step tx sv AcceptFails
    (sv\<lparr>sv_accepting := False, sv_shown := sv_shown sv @ [Stdout (str ''VaultKV stopped.'' @ [LF])]\<rparr>)"
| signal: "\<not> sv_dead sv \<Longrightarrow> sv_listening sv \<Longrightarrow> server_step tx sv Signal
    (sv\<lparr>sv_listening := False, sv_shown := sv_shown sv @ [Stdout (LF # str ''Shutting down...'' @ [LF])]\<rparr>)"
| arrive: "i < length (sv_clients sv) \<Longrightarrow> c = sv_clients sv ! i \<Longrightarrow> \<not> cl_eof c \<Longrightarrow> server_step tx sv (Arrive i bs)
    (sv\<lparr>sv_clients := (sv_clients sv)[i := c\<lparr>cl_input := cl_input c @ bs\<rparr>]\<rparr>)"
| hang_up: "i < length (sv_clients sv) \<Longrightarrow> c = sv_clients sv ! i \<Longrightarrow> server_step tx sv (HangUp i)
    (sv\<lparr>sv_clients := (sv_clients sv)[i := c\<lparr>cl_eof := True\<rparr>]\<rparr>)"
| begin_request: "\<not> sv_dead sv \<Longrightarrow> i < length (sv_clients sv) \<Longrightarrow> c = sv_clients sv ! i \<Longrightarrow> cl_open c \<Longrightarrow> cl_task c = Waiting \<Longrightarrow>
    LF \<in> set (cl_input c) \<or> cl_eof c \<Longrightarrow> Scan (cl_input c) = Some (raw, rest) \<Longrightarrow>
    server_step tx sv (BeginRequest i env) (begin_request tx i env raw rest sv)"
| finish_request: "\<not> sv_dead sv \<Longrightarrow> i < length (sv_clients sv) \<Longrightarrow> cl_task (sv_clients sv ! i) = Busy raw b n \<Longrightarrow>
    (case b of Logged w \<Rightarrow> j < length (sy_pending (sv_sys sv)) \<and> sy_pending (sv_sys sv) ! j = w | _ \<Rightarrow> True) \<Longrightarrow>
    server_step tx sv (FinishRequest i env shut j) (finish_request tx i env shut j raw b n sv)"
| end_conn: "\<not> sv_dead sv \<Longrightarrow> i < length (sv_clients sv) \<Longrightarrow> c = sv_clients sv ! i \<Longrightarrow> cl_open c \<Longrightarrow> cl_task c = Waiting \<Longrightarrow>
    cl_eof c \<or> maxTokenSize \<le> length (cl_input c) \<Longrightarrow> Scan (cl_input c) = None \<Longrightarrow>
    server_step tx sv (EndConn i) (sv\<lparr>sv_clients := (sv_clients sv)[i := c\<lparr>cl_open := False\<rparr>]\<rparr>)"
| background: "\<not> sv_dead sv \<Longrightarrow> background sv a \<Longrightarrow> step (sv_sys sv) a s' \<Longrightarrow>
    server_step tx sv (Background a) (sv\<lparr>sv_sys := s'\<rparr>)"
| restart: "db = sy_db (sv_sys sv) \<Longrightarrow> plain_write w \<Longrightarrow> torn_at w m \<Longrightarrow>
    server_start tx no_dfaults coins None port (o_Dir (db_opts db)) syncMode memMB (db_disk db)
      (Some (wal_data (db_walLog db) @ take m (encode_record (record_of w)))) = Serves out db' \<Longrightarrow>
    server_step tx sv Restart
      (sv\<lparr>sv_sys := start db' (sy_logged (sv_sys sv)),
          sv_clients := map (\<lambda>c. c\<lparr>cl_open := False, cl_task := Waiting\<rparr>) (sv_clients sv),
          sv_listening := True, sv_accepting := True, sv_dead := False, sv_shown := sv_shown sv @ out,
          sv_history := sv_history sv @ map Unanswered (sy_pending (sv_sys sv))\<rparr>)"

text \<open>Calm runs of a server that was first started on an empty directory: calm work in the background; no failing call in a request; no
  reader that is closed while a request reads it, and no \<^verbatim>\<open>Close\<close> that ends before a read gets to the files; and a restart finds the writes of
  each key in the log in the order in which they took effect.\<close>

definition in_order :: "Sys \<Rightarrow> bool" where
  "in_order s \<longleftrightarrow> (\<forall>k. filter (\<lambda>w. fst w = k) (sy_logged s) = filter (\<lambda>w. fst w = k) (sy_applied s @ sy_pending s))"

fun calm_event :: "ServerState \<Rightarrow> event \<Rightarrow> bool" where
  "calm_event sv (BeginRequest i env) \<longleftrightarrow> re_wal env = no_faults"
| "calm_event sv (FinishRequest i env shut j) \<longleftrightarrow> re_read env = (\<lambda>_. no_rfaults) \<and> shut = (\<lambda>_. False) \<and>
     (case cl_task (sv_clients sv ! i) of Busy _ (Missed _) _ \<Rightarrow> \<not> ended (sv_sys sv) | _ \<Rightarrow> True)"
| "calm_event sv (Background a) \<longleftrightarrow> calm (sv_sys sv) a"
| "calm_event sv Restart \<longleftrightarrow> in_order (sv_sys sv)"
| "calm_event sv _ \<longleftrightarrow> True"

inductive server_runs :: "texts \<Rightarrow> ServerState \<Rightarrow> bool" for tx where
  first: "dataDir \<noteq> '''' \<Longrightarrow> server_start tx no_dfaults coins None port dataDir syncMode memMB fmempty None = Serves out db \<Longrightarrow>
    server_runs tx (server_init out (start db []))"
| step: "server_runs tx sv \<Longrightarrow> server_step tx sv ev sv' \<Longrightarrow> calm_event sv ev \<Longrightarrow> server_runs tx sv'"

subsection \<open>The abstract server\<close>

text \<open>It keeps a map, and refuses requests once it is shut.  The result is its answer and the new map; \<^verbatim>\<open>STAT\<close> may reply
  anything.\<close>

definition spec_line :: "texts \<Rightarrow> bool \<Rightarrow> bytes \<Rightarrow> (bytes \<Rightarrow> slice) \<Rightarrow> outcome option \<times> (bytes \<Rightarrow> slice)" where
  "spec_line tx shut raw m =
     (let line = TrimRight raw; parts = SplitN line 3; cmd = ToUpper tx (parts ! 0);
          reply = (\<lambda>r. Some (Reply (r @ crlf)))
      in if line = [] then (Some Skipped, m)
         else if cmd = str ''SET'' then
           if length parts < 3 then (reply (str ''-ERR SET requires key and value''), m)
           else if shut then (reply (str ''-ERR '' @ tx_error tx errClosed), m)
           else if parts ! 1 = [] then (reply (str ''-ERR '' @ tx_error tx errEmptyKey), m)
           else (reply (str ''+OK''), m(parts ! 1 \<mapsto> parts ! 2))
         else if cmd = str ''GET'' then
           if length parts < 2 then (reply (str ''-ERR GET requires key''), m)
           else if shut then (reply (str ''-ERR '' @ tx_error tx errClosed), m)
           else (reply (case m (parts ! 1) of None \<Rightarrow> str ''-ERR not found'' | Some v \<Rightarrow> str ''+'' @ v), m)
         else if cmd = str ''DEL'' then
           if length parts < 2 then (reply (str ''-ERR DEL requires key''), m)
           else if shut then (reply (str ''-ERR '' @ tx_error tx errClosed), m)
           else if parts ! 1 = [] then (reply (str ''-ERR '' @ tx_error tx errEmptyKey), m)
           else (reply (str ''+OK''), m(parts ! 1 := None))
         else if cmd = str ''PING'' then (reply (str ''+PONG''), m)
         else if cmd = str ''STAT'' then (None, m)
         else (reply (str ''-ERR unknown command '' @ Quote tx cmd), m))"

definition answers :: "outcome option \<Rightarrow> outcome \<Rightarrow> bool" where
  "answers r out \<longleftrightarrow> (case r of None \<Rightarrow> (\<exists>x. out = Reply x) | Some x \<Rightarrow> out = x)"

definition is_get :: "texts \<Rightarrow> bytes \<Rightarrow> bool" where
  "is_get tx raw \<longleftrightarrow> ToUpper tx (SplitN (TrimRight raw) 3 ! 0) = str ''GET''"

text \<open>The map after a history: each request changes it when it is answered, and a write that was not answered when the process dies.\<close>

fun spec_step :: "texts \<Rightarrow> handled \<Rightarrow> (bytes \<Rightarrow> slice) \<Rightarrow> bytes \<Rightarrow> slice" where
  "spec_step tx (Answered i shut raw out n) m = snd (spec_line tx shut raw m)"
| "spec_step tx (Unanswered w) m = m(fst w := visible (Some (write_cell (snd w))))"

definition spec_map :: "texts \<Rightarrow> handled list \<Rightarrow> bytes \<Rightarrow> slice" where
  "spec_map tx hist = fold (spec_step tx) hist Map.empty"

text \<open>A history is linearised: every request got the answer of the abstract server at one moment between its beginning and its end; for all
  requests but \<^verbatim>\<open>GET\<close> this is the end.\<close>

definition linearised_at :: "texts \<Rightarrow> handled list \<Rightarrow> nat \<Rightarrow> bool" where
  "linearised_at tx hist p \<longleftrightarrow>
     (case hist ! p of
        Answered i shut raw out n \<Rightarrow>
          \<exists>q. n \<le> q \<and> q \<le> p \<and> (q = p \<or> is_get tx raw) \<and> answers (fst (spec_line tx shut raw (spec_map tx (take q hist)))) out
      | Unanswered w \<Rightarrow> True)"

definition linearised :: "texts \<Rightarrow> handled list \<Rightarrow> bool" where
  "linearised tx hist \<longleftrightarrow> (\<forall>p < length hist. linearised_at tx hist p)"

fun reply_to :: "nat \<Rightarrow> handled \<Rightarrow> bytes list" where
  "reply_to i (Answered j shut raw out n) = (if j = i then replied out else [])"
| "reply_to i (Unanswered w) = []"

definition replies_to :: "nat \<Rightarrow> handled list \<Rightarrow> bytes list" where
  "replies_to i hist = concat (map (reply_to i) hist)"


subsection \<open>How a request begins\<close>

abbreviation map_now :: "Sys \<Rightarrow> bytes \<Rightarrow> slice" where
  "map_now s \<equiv> (\<lambda>k. value_now k s)"

text \<open>What is left to do of a line, as the abstract server sees it.\<close>

fun means :: "texts \<Rightarrow> bytes \<Rightarrow> begun \<Rightarrow> bool" where
  "means tx raw (Done out) \<longleftrightarrow> False"
| "means tx raw (Logged w) \<longleftrightarrow> plain_write w \<and>
     (\<forall>m. spec_line tx False raw m = (Some (Reply (str ''+OK'' @ crlf)), m(fst w := visible (Some (write_cell (snd w))))))"
| "means tx raw (Missed k) \<longleftrightarrow> is_get tx raw \<and> (\<forall>m. spec_line tx False raw m = (Some (get_reply tx (Inr (m k))), m))"

text \<open>The beginning of a request in a calm state.\<close>

definition begins_ok :: "texts \<Rightarrow> bytes \<Rightarrow> Sys \<Rightarrow> begun \<times> DB \<Rightarrow> bool" where
  "begins_ok tx raw s b_db \<longleftrightarrow>
     (case b_db of
        (Done out, db) \<Rightarrow> db = sy_db s \<and>
          (case spec_line tx (db_closed (sy_db s)) raw (map_now s) of (r, m) \<Rightarrow> answers r out \<and> m = map_now s)
      | (Logged w, db) \<Rightarrow> means tx raw (Logged w) \<and> write_log no_faults w (sy_db s) = (None, db)
      | (Missed k, db) \<Rightarrow> means tx raw (Missed k) \<and> db = sy_db s \<and> get_tables k (sy_db s) = None)"

lemma log_cases:
  assumes "calm_reach s"
  obtains (closed) "db_closed (sy_db s)" "write_log no_faults w (sy_db s) = (Some errClosed, sy_db s)"
    | (empty) "\<not> db_closed (sy_db s)" "fst w = []" "write_log no_faults w (sy_db s) = (Some errEmptyKey, sy_db s)"
    | (ok) db where "\<not> db_closed (sy_db s)" "fst w \<noteq> []" "write_log no_faults w (sy_db s) = (None, db)"
proof -
  have wal: "\<not> db_closed (sy_db s) \<Longrightarrow> \<not> wal_closed (db_walLog (sy_db s))"
    using calm_reach_inv [OF assms] by (simp add: sys_inv_def log_ok_inv_def)
  show thesis
  proof (cases "db_closed (sy_db s) \<or> fst w = []")
    case True
    then show thesis using closed empty
      by (cases w rule: record_of.cases) (auto simp: write_log_def set_log_def delete_log_def split: if_splits)
  next
    case False
    then show thesis using write_log_ok [of "sy_db s" w] wal ok by blast
  qed
qed

lemma errors_reply: "reply_error tx errClosed = Reply (str ''-ERR '' @ tx_error tx errClosed @ crlf)"
  "reply_error tx errEmptyKey = Reply (str ''-ERR '' @ tx_error tx errEmptyKey @ crlf)"
  by (simp_all add: reply_error_def errClosed_def errEmptyKey_def)

lemma command_names [simp]: "str ''SET'' \<noteq> str ''GET''" "str ''SET'' \<noteq> str ''DEL''" "str ''GET'' \<noteq> str ''DEL''"
  by (simp_all add: str_def)

lemma part_bound:
  assumes "length raw < maxTokenSize" "j < length (SplitN (TrimRight raw) 3)"
  shows "length (SplitN (TrimRight raw) 3 ! j) < maxTokenSize"
  using SplitN_part [of "SplitN (TrimRight raw) 3 ! j" "TrimRight raw" 3] nth_mem [OF assms(2)] assms(1)
    length_dropWhile_le [of "\<lambda>c. c = CR \<or> c = LF" "rev raw"] by (simp add: TrimRight_def)

text \<open>A write: \<open>w\<close> is what \<^verbatim>\<open>SET\<close> or \<^verbatim>\<open>DEL\<close> asks for.\<close>

lemma begin_write:
  assumes reach: "calm_reach s" and plain: "fst w \<noteq> [] \<Longrightarrow> plain_write w"
    and beg: "begin_line tx env raw (sy_db s) = (case write_log no_faults w (sy_db s) of
      (Some e, db) \<Rightarrow> (Done (reply_error tx e), db) | (None, db) \<Rightarrow> (Logged w, db))"
    and spec: "\<And>sh m. spec_line tx sh raw m = (if sh then (Some (Reply (str ''-ERR '' @ tx_error tx errClosed @ crlf)), m)
      else if fst w = [] then (Some (Reply (str ''-ERR '' @ tx_error tx errEmptyKey @ crlf)), m)
      else (Some (Reply (str ''+OK'' @ crlf)), m(fst w := visible (Some (write_cell (snd w))))))"
  shows "begins_ok tx raw s (begin_line tx env raw (sy_db s))"
  using reach
proof (cases rule: log_cases [where w = w, consumes 1, case_names closed empty ok])
  case closed
  then show ?thesis by (simp add: beg begins_ok_def spec errors_reply answers_def)
next
  case empty
  then show ?thesis by (simp add: beg begins_ok_def spec errors_reply answers_def)
next
  case (ok db)
  then show ?thesis using plain by (simp add: beg begins_ok_def spec)
qed

lemma begin_set:
  assumes "calm_reach s" "length raw < maxTokenSize" "re_wal env = no_faults" "TrimRight raw \<noteq> []"
    and "ToUpper tx (SplitN (TrimRight raw) 3 ! 0) = str ''SET''" "3 \<le> length (SplitN (TrimRight raw) 3)"
  shows "begins_ok tx raw s (begin_line tx env raw (sy_db s))"
proof (rule begin_write [OF assms(1)])
  let ?parts = "SplitN (TrimRight raw) 3"
  let ?w = "(?parts ! 1, Some (Some (?parts ! 2)))"
  have "length (?parts ! 1) < maxTokenSize" "length (?parts ! 2) < maxTokenSize"
    using part_bound [OF assms(2)] assms(6) by simp_all
  then show "plain_write ?w" if "fst ?w \<noteq> []" using that by (simp add: plain_write_def wf_record_def maxTokenSize_def)
  show "begin_line tx env raw (sy_db s) = (case write_log no_faults ?w (sy_db s) of
      (Some e, db) \<Rightarrow> (Done (reply_error tx e), db) | (None, db) \<Rightarrow> (Logged ?w, db))"
    using assms(3-6) by (simp add: begin_line_def Let_def write_log_def)
qed (use assms(4-6) in \<open>simp add: spec_line_def Let_def\<close>)

lemma begin_del:
  assumes "calm_reach s" "length raw < maxTokenSize" "re_wal env = no_faults" "TrimRight raw \<noteq> []"
    and "ToUpper tx (SplitN (TrimRight raw) 3 ! 0) = str ''DEL''" "2 \<le> length (SplitN (TrimRight raw) 3)"
  shows "begins_ok tx raw s (begin_line tx env raw (sy_db s))"
proof (rule begin_write [OF assms(1)])
  let ?parts = "SplitN (TrimRight raw) 3"
  let ?w = "(?parts ! 1, None) :: kv_write"
  have "length (?parts ! 1) < maxTokenSize" using part_bound [OF assms(2)] assms(6) by simp
  then show "plain_write ?w" if "fst ?w \<noteq> []" using that by (simp add: plain_write_def wf_record_def maxTokenSize_def)
  show "begin_line tx env raw (sy_db s) = (case write_log no_faults ?w (sy_db s) of
      (Some e, db) \<Rightarrow> (Done (reply_error tx e), db) | (None, db) \<Rightarrow> (Logged ?w, db))"
    using assms(3-6) by (simp add: begin_line_def Let_def write_log_def)
qed (use assms(4-6) in \<open>simp add: spec_line_def Let_def\<close>)

lemma begin_get:
  assumes "calm_reach s" "TrimRight raw \<noteq> []"
    and "ToUpper tx (SplitN (TrimRight raw) 3 ! 0) = str ''GET''" "2 \<le> length (SplitN (TrimRight raw) 3)"
  shows "begins_ok tx raw s (begin_line tx env raw (sy_db s))"
proof -
  let ?k = "SplitN (TrimRight raw) 3 ! 1"
  have spec: "spec_line tx sh raw m = (Some (if sh then Reply (str ''-ERR '' @ tx_error tx errClosed @ crlf)
      else get_reply tx (Inr (m ?k))), m)" for sh m
    using assms(2-4) by (simp add: spec_line_def get_reply_def Let_def split: option.split)
  have beg: "begin_line tx env raw (sy_db s) = (case get_memory ?k (sy_db s) of
      Some r \<Rightarrow> (Done (get_reply tx r), sy_db s) | None \<Rightarrow> (Missed ?k, sy_db s))"
    using assms(2-4) by (simp add: begin_line_def Let_def)
  have closed: "get_reply tx (Inl errClosed) = Reply (str ''-ERR '' @ tx_error tx errClosed @ crlf)"
    by (simp add: get_reply_def errors_reply)
  show ?thesis
  proof (cases "get_tables ?k (sy_db s)")
    case None
    then show ?thesis using assms(3) closed by (simp add: beg begins_ok_def spec get_memory_def answers_def is_get_def)
  next
    case (Some r)
    then show ?thesis
      using get_tables_calm(2) [OF assms(1) Some] closed by (simp add: beg begins_ok_def spec get_memory_def answers_def)
  qed
qed

lemma begin_line_ok:
  assumes "calm_reach s" "length raw < maxTokenSize" "re_wal env = no_faults"
  shows "begins_ok tx raw s (begin_line tx env raw (sy_db s))"
proof -
  let ?parts = "SplitN (TrimRight raw) 3"
  let ?cmd = "ToUpper tx (?parts ! 0)"
  consider (set) "TrimRight raw \<noteq> []" "?cmd = str ''SET''" "3 \<le> length ?parts"
    | (get) "TrimRight raw \<noteq> []" "?cmd = str ''GET''" "2 \<le> length ?parts" | (del) "TrimRight raw \<noteq> []" "?cmd = str ''DEL''" "2 \<le> length ?parts"
    | (other) "TrimRight raw = [] \<or> ?cmd \<noteq> str ''SET'' \<and> ?cmd \<noteq> str ''GET'' \<and> ?cmd \<noteq> str ''DEL'' \<or>
        ?cmd = str ''SET'' \<and> length ?parts < 3 \<or> ?cmd = str ''GET'' \<and> length ?parts < 2 \<or> ?cmd = str ''DEL'' \<and> length ?parts < 2"
    by linarith
  then show ?thesis
  proof cases
    case other
    then show ?thesis by (elim disjE conjE) (simp_all add: begins_ok_def begin_line_def spec_line_def answers_def Let_def)
  qed (use begin_set begin_get begin_del assms in blast)+
qed


subsection \<open>Histories\<close>

lemma spec_map_nil [simp]: "spec_map tx [] = Map.empty"
  by (simp add: spec_map_def)

lemma spec_map_snoc [simp]: "spec_map tx (hist @ [e]) = spec_step tx e (spec_map tx hist)"
  by (simp add: spec_map_def)

lemma spec_map_unanswered:
  assumes "spec_map tx hist = (\<lambda>k. visible (map_writes ws Map.empty k))"
  shows "spec_map tx (hist @ map Unanswered us) = (\<lambda>k. visible (map_writes (ws @ us) Map.empty k))"
proof (induction us rule: rev_induct)
  case (snoc u us)
  have "spec_map tx (hist @ map Unanswered (us @ [u])) = spec_step tx (Unanswered u) (spec_map tx (hist @ map Unanswered us))"
    using spec_map_snoc [of tx "hist @ map Unanswered us" "Unanswered u"] by simp
  then show ?case
    using map_writes_snoc [of "ws @ us" "fst u" "snd u" Map.empty] by (simp add: snoc.IH fun_eq_iff)
qed (simp add: assms)

lemma linearised_at_append: "p < length hist \<Longrightarrow> linearised_at tx (hist @ es) p \<longleftrightarrow> linearised_at tx hist p"
  by (auto simp: linearised_at_def nth_append split: handled.split)

lemma linearised_snoc: "linearised tx hist \<Longrightarrow> linearised_at tx (hist @ [e]) (length hist) \<Longrightarrow> linearised tx (hist @ [e])"
  by (auto simp: linearised_def linearised_at_append less_Suc_eq)

lemma linearised_unanswered: "linearised tx hist \<Longrightarrow> linearised tx (hist @ map Unanswered us)"
proof -
  assume "linearised tx hist"
  moreover have "linearised_at tx (hist @ map Unanswered us) p" if "length hist \<le> p" "p < length (hist @ map Unanswered us)" for p
    using that by (auto simp: linearised_at_def nth_append)
  ultimately show ?thesis by (metis linearised_at_append linearised_def not_less)
qed

lemma replies_to_append [simp]:
  "replies_to i [] = []" "replies_to i (hist @ hist') = replies_to i hist @ replies_to i hist'"
  "replies_to i [e] = reply_to i e" "replies_to i (map Unanswered us) = []"
  by (induction us) (simp_all add: replies_to_def)

text \<open>The values that the abstract server gave a key since a moment of the history.\<close>

definition spec_values :: "texts \<Rightarrow> nat \<Rightarrow> handled list \<Rightarrow> bytes \<Rightarrow> slice set" where
  "spec_values tx n hist k = (\<lambda>q. spec_map tx (take q hist) k) ` {n..length hist}"

lemma spec_values_now: "n \<le> length hist \<Longrightarrow> spec_map tx hist k \<in> spec_values tx n hist k"
  by (auto simp: spec_values_def intro: image_eqI [of _ _ "length hist"])

lemma spec_values_append: "spec_values tx n hist k \<subseteq> spec_values tx n (hist @ es) k"
  by (auto simp: spec_values_def intro!: image_eqI)

subsection \<open>The invariant\<close>

text \<open>A request under way: what is left of it, and if it is a read, that the files hold a value of some moment since it began.\<close>

definition task_ok :: "texts \<Rightarrow> handled list \<Rightarrow> Sys \<Rightarrow> task \<Rightarrow> bool" where
  "task_ok tx hist s t \<longleftrightarrow>
     (case t of
        Waiting \<Rightarrow> True
      | Busy raw b n \<Rightarrow> n \<le> length hist \<and> means tx raw b \<and> (case b of Missed k \<Rightarrow> reading k (spec_values tx n hist k) s | _ \<Rightarrow> True))"

lemma task_ok_waiting [simp]: "task_ok tx hist s Waiting"
  by (simp add: task_ok_def)

lemma task_ok_append: "task_ok tx hist s t \<Longrightarrow> task_ok tx (hist @ es) s t"
  using reading_mono [OF _ spec_values_append] by (auto simp: task_ok_def split: task.splits begun.splits)

lemma task_ok_step:
  assumes "task_ok tx hist s t" "calm_reach s" "step s a s'" "calm s a" "map_now s = spec_map tx hist"
  shows "task_ok tx hist s' t"
proof -
  have "value_now k s \<in> spec_values tx n hist k" if "n \<le> length hist" for k n
    using spec_values_now [OF that, of tx k] fun_cong [OF assms(5), of k] by simp
  then show ?thesis
    using assms(1) reading_step [OF _ assms(2-4)] by (auto simp: task_ok_def split: task.splits begun.splits)
qed

definition server_inv :: "texts \<Rightarrow> ServerState \<Rightarrow> bool" where
  "server_inv tx sv \<longleftrightarrow> calm_reach (sv_sys sv) \<and> \<not> sv_dead sv \<and> map_now (sv_sys sv) = spec_map tx (sv_history sv) \<and>
     linearised tx (sv_history sv) \<and> (\<forall>c \<in> set (sv_clients sv). task_ok tx (sv_history sv) (sv_sys sv) (cl_task c)) \<and>
     (\<forall>i < length (sv_clients sv). cl_replies (sv_clients sv ! i) = replies_to i (sv_history sv)) \<and>
     (\<forall>i. length (sv_clients sv) \<le> i \<longrightarrow> replies_to i (sv_history sv) = [])"

lemma server_inv_clients:
  assumes "server_inv tx sv" "i < length (sv_clients sv)" "cl_replies c = cl_replies (sv_clients sv ! i)"
    "task_ok tx (sv_history sv) (sv_sys sv) (cl_task c)"
  shows "server_inv tx (sv\<lparr>sv_clients := (sv_clients sv)[i := c]\<rparr>)"
  using assms by (auto simp: server_inv_def nth_list_update dest!: set_update_subset_insert [THEN subsetD])

lemma server_inv_step:
  assumes "server_inv tx sv" "step (sv_sys sv) a s'" "calm (sv_sys sv) a" "sy_applied s' = sy_applied (sv_sys sv)"
  shows "server_inv tx (sv\<lparr>sv_sys := s'\<rparr>)"
proof -
  have "calm_reach s'" using assms(1-3) calm_reach.step by (auto simp: server_inv_def)
  then show ?thesis using assms task_ok_step by (auto simp: server_inv_def value_now_def)
qed

text \<open>The answer to a request: the abstract server gives it at some moment \<open>q\<close>.\<close>

lemma server_inv_answer:
  assumes inv: "server_inv tx sv" "i < length (sv_clients sv)" and n: "n \<le> q" "q \<le> length (sv_history sv)"
    and q: "q = length (sv_history sv) \<or> is_get tx raw" "answers (fst (spec_line tx shut raw (spec_map tx (take q (sv_history sv))))) out"
    and sys: "calm_reach s'" "\<And>c. c \<in> set (sv_clients sv) \<Longrightarrow> task_ok tx (sv_history sv) s' (cl_task c)"
      "map_now s' = snd (spec_line tx shut raw (spec_map tx (sv_history sv)))"
  shows "server_inv tx (answer i shut raw out n (sv\<lparr>sv_sys := s'\<rparr>))"
proof -
  let ?e = "Answered i shut raw out n" and ?hist = "sv_history sv"
  have "out \<noteq> Crash" using q(2) by (auto simp: spec_line_def answers_def Let_def split: if_splits)
  moreover have "linearised_at tx (?hist @ [?e]) (length ?hist)" using n q by (auto simp: linearised_at_def)
  then have "linearised tx (?hist @ [?e])" using inv(1) linearised_snoc by (auto simp: server_inv_def)
  ultimately show ?thesis
    using inv sys task_ok_append
    by (auto simp: server_inv_def answer_def Let_def nth_list_update dest!: set_update_subset_insert [THEN subsetD])
qed


lemma begin_request_inv:
  assumes inv: "server_inv tx sv" and i: "i < length (sv_clients sv)" and raw: "length raw < maxTokenSize" and env: "re_wal env = no_faults"
  shows "server_inv tx (begin_request tx i env raw rest sv)"
proof -
  let ?s = "sv_sys sv" and ?hist = "sv_history sv" and ?c = "sv_clients sv ! i"
  obtain b db where b: "begin_line tx env raw (sy_db ?s) = (b, db)" by fastforce
  have reach: "calm_reach ?s" and now: "map_now ?s = spec_map tx ?hist" using inv by (simp_all add: server_inv_def)
  have ok: "begins_ok tx raw ?s (b, db)" using begin_line_ok [OF reach raw env, of tx] b by simp
  show ?thesis
  proof (cases b)
    case (Done out)
    let ?sv = "set_task i rest Waiting sv"
    have db: "begun_sys b db ?s = ?s" using ok Done by (simp add: begins_ok_def begun_sys_def)
    have "server_inv tx ?sv" using server_inv_clients [OF inv i] by (simp add: set_task_def)
    moreover have "answers (fst (spec_line tx (db_closed (sy_db ?s)) raw (spec_map tx ?hist))) out"
      "map_now ?s = snd (spec_line tx (db_closed (sy_db ?s)) raw (spec_map tx ?hist))"
      using ok Done now by (auto simp: begins_ok_def split: prod.splits)
    ultimately have "server_inv tx (answer i (db_closed (sy_db ?s)) raw out (length ?hist) (?sv\<lparr>sv_sys := ?s\<rparr>))"
      using i reach by (intro server_inv_answer [where q = "length ?hist"]) (auto simp: set_task_def server_inv_def)
    then show ?thesis using b Done db by (simp add: begin_request_def Let_def set_task_def)
  next
    case (Logged w)
    let ?s' = "begun_sys b db ?s"
    have w: "means tx raw b" "plain_write w" "write_log no_faults w (sy_db ?s) = (None, db)" using ok Logged by (simp_all add: begins_ok_def)
    have "step ?s (LogWrite no_faults w) ?s'" using step.log_ok [OF w(3)] Logged by (simp add: begun_sys_def)
    then have "server_inv tx (sv\<lparr>sv_sys := ?s'\<rparr>)"
      using server_inv_step [OF inv] w(2) Logged by (simp add: begun_sys_def)
    then show ?thesis
      using server_inv_clients [of tx "sv\<lparr>sv_sys := ?s'\<rparr>" i "?c\<lparr>cl_input := rest, cl_task := Busy raw b (length ?hist)\<rparr>"] i b w(1) Logged
      by (simp add: begin_request_def Let_def set_task_def task_ok_def)
  next
    case (Missed k)
    have k: "means tx raw b" "begun_sys b db ?s = ?s" "get_tables k (sy_db ?s) = None" using ok Missed by (simp_all add: begins_ok_def begun_sys_def)
    have "value_now k ?s \<in> spec_values tx (length ?hist) ?hist k"
      using spec_values_now [of "length ?hist" ?hist tx k] fun_cong [OF now, of k] by simp
    then have "reading k (spec_values tx (length ?hist) ?hist k) ?s" by (rule reading_start [OF reach k(3)])
    then show ?thesis
      using server_inv_clients [OF inv i, of "?c\<lparr>cl_input := rest, cl_task := Busy raw b (length ?hist)\<rparr>"] b k Missed
      by (simp add: begin_request_def Let_def set_task_def task_ok_def)
  qed
qed

lemma finish_request_inv:
  assumes inv: "server_inv tx sv" and i: "i < length (sv_clients sv)" and busy: "cl_task (sv_clients sv ! i) = Busy raw b n"
    and j: "case b of Logged w \<Rightarrow> j < length (sy_pending (sv_sys sv)) \<and> sy_pending (sv_sys sv) ! j = w | _ \<Rightarrow> True"
    and calm: "calm_event sv (FinishRequest i env shut j)"
  shows "server_inv tx (finish_request tx i env shut j raw b n sv)"
proof -
  let ?s = "sv_sys sv" and ?hist = "sv_history sv"
  have reach: "calm_reach ?s" and now: "map_now ?s = spec_map tx ?hist" using inv by (simp_all add: server_inv_def)
  have tasks: "task_ok tx ?hist ?s (cl_task c)" if "c \<in> set (sv_clients sv)" for c using inv that by (simp add: server_inv_def)
  have ok: "n \<le> length ?hist" "means tx raw b" "case b of Missed k \<Rightarrow> reading k (spec_values tx n ?hist k) ?s | _ \<Rightarrow> True"
    using tasks [OF nth_mem [OF i]] busy by (simp_all add: task_ok_def)
  show ?thesis
  proof (cases b)
    case (Logged w)
    have "mem_ok (sy_applied ?s) (db_active (sy_db ?s))" "snd w \<noteq> Some None"
      using calm_reach_inv [OF reach] ok(2) Logged by (simp_all add: sys_inv_def plain_write_def)
    then obtain db where db: "write_apply (re_coin env) w (sy_db ?s) = (None, db)" using write_apply_ok by metis
    let ?s' = "finished_sys b j db ?s"
    have st: "step ?s (ApplyWrite j (re_coin env)) ?s'"
      using step.apply_write [of j ?s "re_coin env" db] db j Logged by (simp add: finished_sys_def)
    then have reach': "calm_reach ?s'" using calm_reach.step [OF reach] by simp
    have "map_now ?s' = (map_now ?s)(fst w := visible (Some (write_cell (snd w))))"
      using map_writes_snoc [of "sy_applied ?s" "fst w" "snd w"] Logged by (simp add: value_now_def finished_sys_def fun_eq_iff)
    then have "server_inv tx (answer i False raw (Reply (str ''+OK'' @ crlf)) n (sv\<lparr>sv_sys := ?s'\<rparr>))"
      using ok Logged reach' task_ok_step [OF tasks reach st _ now] i inv now
      by (intro server_inv_answer [where q = "length ?hist"]) (auto simp: answers_def)
    then show ?thesis using db Logged by (simp add: finish_request_def finish_line_def)
  next
    case (Missed k)
    have open_s: "\<not> ended ?s" and env: "re_read env = (\<lambda>_. no_rfaults)" "shut = (\<lambda>_. False)" using calm busy Missed by simp_all
    have "reading k (spec_values tx n ?hist k) ?s" using ok(3) Missed by simp
    then obtain v where "v \<in> spec_values tx n ?hist k" and v: "get_files (\<lambda>_. no_rfaults) (\<lambda>_. False) k (db_readers (sy_db ?s)) = Inr v"
      using open_s by (rule reading_end)
    then obtain q where q: "n \<le> q" "q \<le> length ?hist" "v = spec_map tx (take q ?hist) k" by (auto simp: spec_values_def)
    have "server_inv tx (answer i False raw (get_reply tx (Inr v)) n (sv\<lparr>sv_sys := ?s\<rparr>))"
      using ok(2) Missed reach tasks i inv now q by (intro server_inv_answer [where q = q]) (auto simp: answers_def)
    then show ?thesis using v Missed env by (simp add: finish_request_def finish_line_def finished_sys_def)
  qed (use ok(2) in simp)
qed

lemma Scan_bound: "Scan input = Some (raw, rest) \<Longrightarrow> length raw < maxTokenSize"
  by (auto simp: Scan_def Let_def dropCR_def split: if_splits)

lemma server_start_opens:
  assumes "server_start tx df coins listen port dataDir syncMode memMB d log = Serves out db"
  obtains sm where "db_Open df coins (server_options dataDir sm memMB) d log = Inr db"
  using assms by (auto simp: server_start_def Let_def split: option.splits sum.splits prod.splits)

lemma server_dir [simp]: "o_Dir (server_options dataDir sm memMB) = dataDir"
  by (simp add: server_options_def)

lemma background_writes: "step s a s' \<Longrightarrow> background sv a \<Longrightarrow> sy_applied s' = sy_applied s"
  by (induction rule: step.induct) simp_all

lemma in_order_map:
  assumes "in_order s"
  shows "map_writes (sy_logged s) Map.empty = map_writes (sy_applied s @ sy_pending s) Map.empty"
proof
  have key: "map_writes ws m k = map_writes (filter (\<lambda>w. fst w = k) ws) m k" for ws m and k :: bytes
    by (induction ws rule: rev_induct) (auto simp: map_writes_def)
  show "map_writes (sy_logged s) Map.empty k = map_writes (sy_applied s @ sy_pending s) Map.empty k" for k
    using assms key [of "sy_logged s" _ k] key [of "sy_applied s @ sy_pending s" _ k] by (simp add: in_order_def)
qed

lemma restart_inv:
  assumes inv: "server_inv tx sv" and w: "plain_write w" "torn_at w m" and order: "in_order (sv_sys sv)"
    and start: "server_start tx no_dfaults coins None port (o_Dir (db_opts (sy_db (sv_sys sv)))) syncMode memMB (db_disk (sy_db (sv_sys sv)))
      (Some (wal_data (db_walLog (sy_db (sv_sys sv))) @ take m (encode_record (record_of w)))) = Serves out db'"
  shows "server_inv tx (sv\<lparr>sv_sys := start db' (sy_logged (sv_sys sv)),
      sv_clients := map (\<lambda>c. c\<lparr>cl_open := False, cl_task := Waiting\<rparr>) (sv_clients sv),
      sv_listening := True, sv_accepting := True, sv_dead := False, sv_shown := sv_shown sv @ out,
      sv_history := sv_history sv @ map Unanswered (sy_pending (sv_sys sv))\<rparr>)"
proof -
  let ?s = "sv_sys sv"
  have r: "calm_reach ?s" using inv by (simp add: server_inv_def)
  then have log: "wal_data (db_walLog (sy_db ?s)) @ take m (encode_record (record_of w)) = log_of (sy_logged ?s) w m"
    using calm_reach_inv [OF r] by (simp add: sys_inv_def log_ok_inv_def log_of_def)
  obtain sm where "db_Open no_dfaults coins (server_options (o_Dir (db_opts (sy_db ?s))) sm memMB) (db_disk (sy_db ?s))
      (Some (log_of (sy_logged ?s) w m)) = Inr db'"
    using server_start_opens [OF start] log by metis
  from calm_reach.restart [OF r _ w this] have reach: "calm_reach (start db' (sy_logged ?s))" by simp
  have "spec_map tx (sv_history sv) = (\<lambda>k. visible (map_writes (sy_applied ?s) Map.empty k))"
    using inv by (simp add: server_inv_def value_now_def)
  from spec_map_unanswered [OF this, of "sy_pending ?s"] reach show ?thesis
    using inv linearised_unanswered in_order_map [OF order] by (auto simp: server_inv_def start_def value_now_def)
qed

lemma server_step_inv: "server_step tx sv ev sv' \<Longrightarrow> server_inv tx sv \<Longrightarrow> calm_event sv ev \<Longrightarrow> server_inv tx sv'"
proof (induction rule: server_step.induct)
  case (begin_request sv i c raw rest env)
  then show ?case using begin_request_inv Scan_bound by simp
next
  case (finish_request sv i raw b n j env shut)
  then show ?case using finish_request_inv by blast
next
  case (background sv a s')
  then show ?case using server_inv_step background_writes by simp
next
  case (restart db sv w m coins port syncMode memMB out db')
  then show ?case using restart_inv by simp
next
  case (accept sv)
  then show ?case by (auto simp: server_inv_def nth_append less_Suc_eq)
next
  case (arrive i sv c bs)
  then show ?case by (intro server_inv_clients) (auto simp: server_inv_def)
next
  case (hang_up i sv c)
  then show ?case by (intro server_inv_clients) (auto simp: server_inv_def)
next
  case (end_conn sv i c)
  then show ?case by (intro server_inv_clients) (auto simp: server_inv_def)
qed (auto simp: server_inv_def)

lemma server_runs_inv: "server_runs tx sv \<Longrightarrow> server_inv tx sv"
proof (induction rule: server_runs.induct)
  case (first dataDir coins port syncMode memMB out db)
  obtain sm where "db_Open no_dfaults coins (server_options dataDir sm memMB) fmempty None = Inr db"
    by (rule server_start_opens [OF first(2)])
  then have "calm_reach (start db [])" by (rule calm_reach.fresh [rotated]) (simp add: first(1))
  then show ?case by (simp add: server_inv_def server_init_def start_def value_now_def linearised_def fun_eq_iff)
qed (use server_step_inv in blast)




subsection \<open>An example\<close>

text \<open>Two connections: the first logs a \<^verbatim>\<open>SET\<close>; before it is applied, the second sends a \<^verbatim>\<open>GET\<close> of the key and is answered.\<close>

abbreviation set_ka :: bytes where "set_ka \<equiv> set_request [107] [97]"
abbreviation get_k :: bytes where "get_k \<equiv> get_request [107]"

abbreviation with_input :: "bytes \<Rightarrow> task \<Rightarrow> client" where
  "with_input bs t \<equiv> \<lparr>cl_input = bs, cl_eof = False, cl_open = True, cl_task = t, cl_replies = []\<rparr>"

lemma example_lines:
  "Scan (set_ka @ crlf) = Some (set_ka, [])" "Scan (get_k @ crlf) = Some (get_k, [])"
  "TrimRight set_ka = set_ka" "TrimRight get_k = get_k" "set_ka \<noteq> []" "get_k \<noteq> []"
  "SplitN set_ka 3 = [str ''SET'', [107], [97]]" "SplitN get_k 3 = [str ''GET'', [107]]"
proof -
  have lines: "LF \<notin> set set_ka" "LF \<notin> set get_k" "length set_ka + 1 < maxTokenSize" "length get_k + 1 < maxTokenSize"
    by (simp_all add: set_request_def get_request_def maxTokenSize_def) (simp_all add: LF_def SP_def)
  show "Scan (set_ka @ crlf) = Some (set_ka, [])" "Scan (get_k @ crlf) = Some (get_k, [])"
    using Scan_line [OF lines(1,3), of "[]"] Scan_line [OF lines(2,4), of "[]"] by simp_all
  show "TrimRight set_ka = set_ka" "TrimRight get_k = get_k" "set_ka \<noteq> []" "get_k \<noteq> []"
    by (simp_all add: TrimRight_same set_request_def get_request_def CR_def LF_def)
  have "SP \<notin> set [107 :: byte]" by (simp add: SP_def)
  then show "SplitN set_ka 3 = [str ''SET'', [107], [97]]" "SplitN get_k 3 = [str ''GET'', [107]]"
    using SplitN_words(3) [of "str ''SET''" "[107]" "[97]"] SplitN_words(2) [of "str ''GET''" "[107]"]
    by (simp_all add: set_request_def get_request_def)
qed

lemma example_start:
  obtains sv db where "server_runs tx sv" "sv_clients sv = [with_input (set_ka @ crlf) Waiting, with_input (get_k @ crlf) Waiting]"
    "sv_sys sv = start db []" "sv_history sv = []" "opened (server_options ''data'' SyncFull 4) [] (\<lambda>_. None) fmempty db"
proof -
  obtain db where db: "db_Open no_dfaults (\<lambda>_ _. True) (server_options ''data'' SyncFull 4) fmempty None = Inr db"
    and o: "opened (server_options ''data'' SyncFull 4) [] (\<lambda>_. None) fmempty db"
    using fresh_ok [of "server_options ''data'' SyncFull 4"] by auto
  then obtain out where st: "server_start tx no_dfaults (\<lambda>_ _. True) None ''6380'' ''data'' ''full'' 4 fmempty None = Serves out db"
    by (simp add: server_start_def sync_flag_def Let_def)
  define sv where "sv = server_init out (start db [])"
  have r0: "server_runs tx sv" unfolding sv_def by (rule server_runs.first [OF _ st]) simp
  have r1: "server_runs tx (sv\<lparr>sv_clients := [with_input [] Waiting]\<rparr>)"
    using server_runs.step [OF r0 server_step.accept] by (simp add: sv_def server_init_def)
  have r2: "server_runs tx (sv\<lparr>sv_clients := [with_input [] Waiting, with_input [] Waiting]\<rparr>)"
    using server_runs.step [OF r1 server_step.accept] by (simp add: sv_def server_init_def)
  have r3: "server_runs tx (sv\<lparr>sv_clients := [with_input (set_ka @ crlf) Waiting, with_input [] Waiting]\<rparr>)"
    using server_runs.step [OF r2 server_step.arrive [of 0 _ "with_input [] Waiting" tx "set_ka @ crlf"]] by simp
  have "server_runs tx (sv\<lparr>sv_clients := [with_input (set_ka @ crlf) Waiting, with_input (get_k @ crlf) Waiting]\<rparr>)"
    using server_runs.step [OF r3 server_step.arrive [of 1 _ "with_input [] Waiting" tx "get_k @ crlf"]] by simp
  then show thesis by (rule that) (use o in \<open>simp_all add: sv_def server_init_def\<close>)
qed

lemma example_begun:
  obtains sv db where "server_runs tx sv" "\<not> db_closed (sy_db (sv_sys sv))" "sv_history sv = []"
    "sv_clients sv = [with_input [] (Busy set_ka (Logged ([107], Some (Some [97]))) 0), with_input [] (Busy get_k (Missed [107]) 0)]"
    "sy_pending (sv_sys sv) = [([107], Some (Some [97]))]"
proof -
  obtain sv0 db where r0: "server_runs tx sv0" and sv0: "sv_clients sv0 = [with_input (set_ka @ crlf) Waiting, with_input (get_k @ crlf) Waiting]"
    "sv_sys sv0 = start db []" "sv_history sv0 = []" and o: "opened (server_options ''data'' SyncFull 4) [] (\<lambda>_. None) fmempty db"
    by (rule example_start)
  let ?w = "([107], Some (Some [97])) :: kv_write" and ?env = "calm_env 0"
  have db: "\<not> db_closed db" "\<not> wal_closed (db_walLog db)" "db_immutable db = None" "mt_inv (db_active db)" "map_of (mt_table (db_active db)) = Map.empty"
    using o by (simp_all add: opened_def loaded_def map_writes_def)
  obtain wl where wl: "write_log no_faults ?w db = (None, db\<lparr>db_walLog := wl\<rparr>)" using write_log_ok [of db ?w] db by auto
  have b0: "begin_line tx ?env set_ka db = (Logged ?w, db\<lparr>db_walLog := wl\<rparr>)"
    using wl by (simp add: begin_line_def example_lines Let_def calm_env_def write_log_def)
  have b1: "begin_line tx ?env get_k (db\<lparr>db_walLog := wl\<rparr>) = (Missed [107], db\<lparr>db_walLog := wl\<rparr>)"
    using db mt_Get_table [OF db(4), of "[107]"] by (simp add: begin_line_def example_lines Let_def get_memory_def get_tables_def)
  define sv1 where "sv1 = begin_request tx 0 ?env set_ka [] sv0"
  have "\<not> sv_dead sv0" using server_runs_inv [OF r0] by (simp add: server_inv_def)
  then have r1: "server_runs tx sv1" unfolding sv1_def
    by (intro server_runs.step [OF r0 server_step.begin_request [OF _ _ HOL.refl]]) (use sv0 example_lines in \<open>simp_all add: calm_env_def crlf_def\<close>)
  have sv1: "sv_clients sv1 = [with_input [] (Busy set_ka (Logged ?w) 0), with_input (get_k @ crlf) Waiting]" "sv_history sv1 = []"
    "sv_sys sv1 = (start db [])\<lparr>sy_db := db\<lparr>db_walLog := wl\<rparr>, sy_pending := [?w], sy_logged := [?w]\<rparr>"
    using sv0 b0 by (simp_all add: sv1_def begin_request_def set_task_def begun_sys_def start_def Let_def)
  have "\<not> sv_dead sv1" using server_runs_inv [OF r1] by (simp add: server_inv_def)
  then have r2: "server_runs tx (begin_request tx 1 ?env get_k [] sv1)"
    by (intro server_runs.step [OF r1 server_step.begin_request [OF _ _ HOL.refl]]) (use sv1 example_lines in \<open>simp_all add: calm_env_def crlf_def\<close>)
  from r2 show thesis
    by (rule that) (use sv1 b1 db(1) in \<open>simp_all add: begin_request_def set_task_def begun_sys_def start_def Let_def\<close>)
qed

lemma finished_history:
  "\<exists>out. sv_history (finish_request tx i env shut j raw b n sv) = sv_history sv @ [Answered i False raw out n] \<and>
    length (sv_clients (finish_request tx i env shut j raw b n sv)) = length (sv_clients sv)"
  by (auto simp: finish_request_def answer_def Let_def split: prod.split)

lemma example_run:
  "\<exists>sv out1 out2. server_runs tx sv \<and> length (sv_clients sv) = 2 \<and>
    sv_history sv = [Answered 1 False get_k out1 0, Answered 0 False set_ka out2 0]"
proof -
  let ?w = "([107], Some (Some [97])) :: kv_write" and ?env = "calm_env 0"
  obtain sv where r: "server_runs tx sv" and sv: "\<not> db_closed (sy_db (sv_sys sv))" "sv_history sv = []"
    "sv_clients sv = [with_input [] (Busy set_ka (Logged ?w) 0), with_input [] (Busy get_k (Missed [107]) 0)]"
    "sy_pending (sv_sys sv) = [?w]"
    by (rule example_begun)
  have inv: "server_inv tx sv" using r by (rule server_runs_inv)
  then have "\<not> ended (sv_sys sv)" using open_not_ended sv(1) by (simp add: server_inv_def)
  then have r1: "server_runs tx (finish_request tx 1 ?env (\<lambda>_. False) 0 get_k (Missed [107]) 0 sv)" (is "server_runs tx ?sv1")
    using sv inv by (intro server_runs.step [OF r server_step.finish_request]) (simp_all add: calm_env_def server_inv_def)
  obtain out1 where sv1: "sv_clients ?sv1 ! 0 = with_input [] (Busy set_ka (Logged ?w) 0)" "length (sv_clients ?sv1) = 2"
    "sv_sys ?sv1 = sv_sys sv" "sv_history ?sv1 = [Answered 1 False get_k out1 0]"
    using sv by (simp add: finish_request_def finish_line_def answer_def finished_sys_def Let_def)
  have "\<not> sv_dead ?sv1" using server_runs_inv [OF r1] by (simp add: server_inv_def)
  then have r2: "server_runs tx (finish_request tx 0 ?env (\<lambda>_. False) 0 set_ka (Logged ?w) 0 ?sv1)" (is "server_runs tx ?sv2")
    using sv1 sv(4) by (intro server_runs.step [OF r1 server_step.finish_request]) (simp_all add: calm_env_def)
  moreover obtain out2 where "sv_history ?sv2 = sv_history ?sv1 @ [Answered 0 False set_ka out2 0]" "length (sv_clients ?sv2) = length (sv_clients ?sv1)"
    using finished_history [of tx 0 ?env _ 0 set_ka "Logged ?w" 0 ?sv1] by auto
  ultimately show ?thesis using sv1(2,4) by (intro exI [of _ ?sv2]) auto
qed


end
