(* ===== verification/Compaction_Faults.thy ===== *)
theory Compaction_Faults
  imports Compaction_Round
begin

text \<open>
  Compaction when calls fail and files are damaged.  Whatever the files contain and whatever calls fail, the iterators
  move forward through a bounded number of bytes, so that every merge and every round ends.
\<close>

subsection \<open>Progress of an iterator\<close>

text \<open>How much an iterator may still have before it: the bytes left in the block that is loaded, and the lengths that
  the index gives for the blocks after it.\<close>

definition blocks_rank :: "indexEntry list \<Rightarrow> nat" where
  "blocks_rank ies = (\<Sum>ie\<leftarrow>ies. Suc (unat (ie_blockLen ie)))"

definition si_rank :: "Reader \<Rightarrow> SSTableIterator \<Rightarrow> nat" where
  "si_rank r it =
     (case si_blockData it of
        None \<Rightarrow> blocks_rank (drop (si_blockIndex it) (rd_index r))
      | Some data \<Rightarrow> length data - si_offset it + blocks_rank (drop (Suc (si_blockIndex it)) (rd_index r)))"

lemma readBlock_length: "readBlock ft r off len = Inr data \<Longrightarrow> length data \<le> unat len"
  by (auto simp: readBlock_def ReadAt_def sub_def Let_def split: sum.splits if_splits)

lemma next_entry_progress:
  assumes "next_entry data it = Some it'" "si_blockData it = Some data"
  shows "si_rank r it' \<le> si_rank r it" "si_valid it' \<Longrightarrow> si_rank r it' < si_rank r it"
  using assms by (auto simp: next_entry_def Let_def entryHeaderSize_def si_rank_def split: if_splits)

lemma advance_progress:
  "si_rank r (advance ft r it) \<le> si_rank r it \<and> (si_valid (advance ft r it) \<longrightarrow> si_rank r (advance ft r it) < si_rank r it)"
proof (induction ft r it rule: advance.induct)
  case (1 ft r it)
  let ?next = "it\<lparr>si_blockIndex := si_blockIndex it + 1, si_blockData := None, si_offset := 0\<rparr>"
  let ?ie = "rd_index r ! si_blockIndex it"
  note adv = advance.simps [of ft r it]
  consider (loaded) data where "si_blockData it = Some data"
    | (finished) "si_blockData it = None" "length (rd_index r) \<le> si_blockIndex it"
    | (failed) e where "si_blockData it = None" "si_blockIndex it < length (rd_index r)"
        "readBlock ft r (ie_blockOffset ?ie) (ie_blockLen ?ie) = Inl e"
    | (read) data where "si_blockData it = None" "si_blockIndex it < length (rd_index r)"
        "readBlock ft r (ie_blockOffset ?ie) (ie_blockLen ?ie) = Inr data"
    by (metis not_less not_None_eq sum.exhaust)
  then show ?case
  proof cases
    case loaded
    show ?thesis
    proof (cases "next_entry data it")
      case None
      have "si_rank r ?next \<le> si_rank r it" using loaded by (simp add: si_rank_def)
      with 1(2) [OF loaded None] None loaded adv show ?thesis by auto
    next
      case (Some it')
      then show ?thesis using next_entry_progress [OF Some loaded, of r] loaded adv by simp
    qed
  next
    case read
    let ?it = "it\<lparr>si_blockData := Some data, si_offset := 0\<rparr>"
    have "si_rank r it = Suc (unat (ie_blockLen ?ie)) + blocks_rank (drop (Suc (si_blockIndex it)) (rd_index r))"
      using read by (simp add: si_rank_def blocks_rank_def Cons_nth_drop_Suc [symmetric])
    then have less: "si_rank r ?it < si_rank r it" "si_rank r ?next < si_rank r it"
      using readBlock_length [OF read(3)] by (simp_all add: si_rank_def)
    show ?thesis
    proof (cases "next_entry data ?it")
      case None
      have "si_rank r (advance ft r ?next) \<le> si_rank r ?next" using 1(1) [OF read(1) _ refl read(3) None] read(2) by simp
      then show ?thesis using less(2) None read adv by (simp add: Let_def)
    next
      case (Some it')
      have "si_rank r it' \<le> si_rank r ?it" using next_entry_progress(1) [OF Some] by simp
      then show ?thesis using less(1) Some read adv by (simp add: Let_def)
    qed
  qed (use adv in \<open>simp_all add: si_rank_def Let_def\<close>)
qed

subsection \<open>The merge ends\<close>

text \<open>The items of the heap belong to open iterators.\<close>

definition merging :: "Reader list \<Rightarrow> merge_state \<Rightarrow> bool" where
  "merging rs st \<longleftrightarrow> length (ms_its st) = length rs \<and> heap Less (ms_heap st) \<and>
     (\<forall>x \<in> set (ms_heap st). hi_fileIdx x < length rs)"

definition merge_rank :: "Reader list \<Rightarrow> merge_state \<Rightarrow> nat" where
  "merge_rank rs st = length (ms_heap st) + (\<Sum>i < length rs. si_rank (rs ! i) (ms_its st ! i))"

lemma pop_next_progress:
  assumes m: "merging rs st" "ms_heap st \<noteq> []" and pop: "pop_next cf files rs st = (item, st')"
  shows "merging rs st' \<and> merge_rank rs st' < merge_rank rs st"
proof -
  obtain h where h: "heap_Pop Less (ms_heap st) = (item, h)"
    using pop by (auto simp: pop_next_def Let_def split: prod.splits)
  let ?i = "hi_fileIdx item"
  define it where "it = si_Next (cf_read cf (fm_Path (files ! ?i))) (rs ! ?i) (ms_its st ! ?i)"
  define x where "x = item_of ?i (fm_FileID (files ! ?i)) it"
  have st': "st' = st\<lparr>ms_heap := (if si_valid it then heap_Push Less x h else h), ms_its := (ms_its st)[?i := it]\<rparr>"
    using pop h by (auto simp: pop_next_def Let_def it_def x_def)
  have heap: "heap Less (ms_heap st)" using m(1) by (simp add: merging_def)
  note ok = mh.heap_Pop_ok(1,2) [OF heap h m(2)]
  have items: "set (ms_heap st) = insert item (set h)" and len: "length (ms_heap st) = Suc (length h)"
    using arg_cong [OF ok(2), of set_mset] arg_cong [OF ok(2), of size] by simp_all
  have i: "?i < length rs" "length (ms_its st) = length rs" using m(1) items by (simp_all add: merging_def)
  have push: "heap Less (heap_Push Less x h)" "set (heap_Push Less x h) = insert x (set h)" "length (heap_Push Less x h) = Suc (length h)"
    using mh.heap_Push_ok(1) [OF ok(1), of x] arg_cong [OF mh.heap_Push_ok(2) [OF ok(1), of x], of set_mset]
      arg_cong [OF mh.heap_Push_ok(2) [OF ok(1), of x], of size] by simp_all
  have merging': "merging rs st'" using m(1) i items ok(1) push by (auto simp: merging_def st' x_def item_of_def)
  let ?rank = "\<lambda>its. \<Sum>j < length rs. si_rank (rs ! j) (its ! j)"
  have others: "?rank its = si_rank (rs ! ?i) (its ! ?i) + (\<Sum>j \<in> {..<length rs} - {?i}. si_rank (rs ! j) (its ! j))" for its
    using i(1) by (intro sum.remove) auto
  have same: "(\<Sum>j \<in> {..<length rs} - {?i}. si_rank (rs ! j) ((ms_its st)[?i := it] ! j)) =
      (\<Sum>j \<in> {..<length rs} - {?i}. si_rank (rs ! j) (ms_its st ! j))"
    by (rule sum.cong) auto
  have "si_rank (rs ! ?i) it \<le> si_rank (rs ! ?i) (ms_its st ! ?i)"
    "si_valid it \<Longrightarrow> si_rank (rs ! ?i) it < si_rank (rs ! ?i) (ms_its st ! ?i)"
    unfolding it_def si_Next_def using advance_progress by blast+
  then have "merge_rank rs st' < merge_rank rs st"
    unfolding merge_rank_def st' using others [of "ms_its st"] others [of "(ms_its st)[?i := it]"] same i len push(3) by auto
  with merging' show ?thesis ..
qed

lemma write_item_same:
  "write_item cf b item st = (e, st') \<Longrightarrow> ms_heap st' = ms_heap st \<and> ms_its st' = ms_its st"
  by (auto simp: write_item_def Let_def split: if_splits option.splits prod.splits)

lemma merge_loop_ends:
  assumes "merging rs st"
  shows "\<exists>res. merge_loop cf files rs b st = Some res"
  using assms
proof (induction "merge_rank rs st" arbitrary: st rule: less_induct)
  case less
  show ?case
  proof (cases "ms_heap st = []")
    case True
    then show ?thesis by (subst merge_loop.simps) simp
  next
    case False
    obtain item st1 where pop: "pop_next cf files rs st = (item, st1)" by fastforce
    obtain e st2 where w: "write_item cf b item st1 = (e, st2)" by fastforce
    have turn: "merge_turn cf files rs b st = (e, st2)" using pop w by (simp add: merge_turn_def)
    have "merging rs st2" "merge_rank rs st2 < merge_rank rs st"
      using pop_next_progress [OF less.prems False pop] write_item_same [OF w] by (simp_all add: merging_def merge_rank_def)
    then show ?thesis using less.hyps [of st2] turn False by (subst merge_loop.simps) (auto split: option.split)
  qed
qed

lemma open_all_length: "open_all rf d fs = Inr ris \<Longrightarrow> length ris = length fs"
  by (induction fs arbitrary: ris) (auto simp: Let_def split: sum.splits)

lemma push_heads_merging:
  assumes "length fs = length its"
  shows "heap Less (heap_Init Less (push_heads 0 fs its []))"
    "\<forall>x \<in> set (heap_Init Less (push_heads 0 fs its [])). hi_fileIdx x < length its"
proof -
  show "heap Less (heap_Init Less (push_heads 0 fs its []))" by (rule mh.heap_Init_ok)
  have nil: "heap Less []" by (simp add: heap_from_def)
  have "set (heap_Init Less (push_heads 0 fs its [])) = set (push_heads 0 fs its [])"
    by (metis mh.heap_Init_ok(2) set_mset_mset)
  moreover have "set (fold (heap_Push Less) xs []) = set xs" for xs
    using mh.pq.push_all [OF nil, of xs] by (metis add_cancel_right_left mset_zero_iff_right set_mset_mset)
  ultimately show "\<forall>x \<in> set (heap_Init Less (push_heads 0 fs its [])). hi_fileIdx x < length its"
    using assms by (auto simp: push_heads_fold item_of_def)
qed

lemma merge_files_ends: "merge_files cf d e files outputID \<noteq> None"
proof (cases "open_all (cf_read cf) d (sort_key fm_FileID files)")
  case (Inr ris)
  let ?fs = "sort_key fm_FileID files"
  let ?st = "\<lambda>w. \<lparr>ms_heap = heap_Init Less (push_heads 0 ?fs (map snd ris) []), ms_its = map snd ris, ms_w = w,
      ms_lastKey = None, ms_numEntries = 0, ms_minKey = None, ms_maxKey = None\<rparr>"
  have len: "length ?fs = length (map snd ris)" using open_all_length [OF Inr] by simp
  have ends: "(merge_loop cf ?fs (map fst ris) b (?st w) = None) = False" for b w
    using push_heads_merging [OF len] merge_loop_ends [of "map fst ris" "?st w" cf ?fs b] by (auto simp: merging_def)
  show ?thesis
    unfolding merge_files_def Let_def Inr by (simp add: ends split: sum.split option.split prod.split)
qed (simp add: merge_files_def Let_def)

lemma RunOnce_ends:
  "\<exists>result e' d'. RunOnce cf d e outputID = Some (result, e', d') \<and> en_running e' = en_running e"
  using merge_files_ends [of cf d "e\<lparr>en_running := True\<rparr>" "select_tier (en_threshold e) (groupBySize (en_files e)) []" outputID]
  by (cases "en_running e") (auto simp: RunOnce_def Let_def split: sum.split)

subsection \<open>Files that cannot be read\<close>

lemma newest_filter: "newest (map (\<lambda>f. if P f then [] else c f) fs) k = newest (map c (filter (\<lambda>f. \<not> P f) fs)) k"
  by (induction fs) (auto split: option.split)

lemma merged_filter: "merged (\<lambda>f. if P f then [] else c f) fs k = merged c (filter (\<lambda>f. \<not> P f) fs) k"
  by (simp add: merged_def newest_filter filter_sort)

text \<open>C33. A file that cannot be read is lost: if the first block of a selected file cannot be read, because the read
  fails, the round reports success all the same, deletes every selected file, and the new
  file answers as if the entries of the unreadable one had never been written.\<close>

theorem compaction_loses_unreadable_file:
  assumes "\<not> en_running e" "0 < en_threshold e" "NeedsCompaction e" "stored d c e"
    and "outputID \<notin> fm_FileID ` set (en_files e)"
    and "(\<Sum>f\<leftarrow>selected_files e. weight (c f)) + 4 < 2 ^ 32"
    and "cf_write cf = no_wfaults" "\<not> cf_stat cf" "cf_remove cf = (\<lambda>_. False)"
    and "\<forall>f \<in> set (selected_files e). cf_read cf (fm_Path f) = no_rfaults \<or> lost cf d f"
  shows "\<exists>e' d' meta r. RunOnce cf d e outputID = Some (Inr (length (selected_files e)), e', d') \<and>
    en_files e' = rest_files e @ [meta] \<and> fm_FileID meta = outputID \<and>
    (\<forall>f \<in> set (selected_files e). fmlookup d' (fm_Path f) = None) \<and>
    rd_Open no_rfaults (fmlookup d' (fm_Path meta)) = Inr r \<and>
    (\<forall>k. rd_Get no_rfaults r k =
      Inr (sst_result (keep (rest_files e = []) (merged c (filter (\<lambda>f. \<not> lost cf d f) (selected_files e)) k))))"
proof -
  let ?c = "\<lambda>f. if lost cf d f then [] else c f"
  have ids: "distinct (map fm_FileID (en_files e))" using assms(4) by (simp add: stored_def)
  have ne: "selected_files e \<noteq> []" using assms(2,3) needs_selected by blast
  have "holds d c f" if "f \<in> set (selected_files e)" for f
    using that assms(4) selected_filesD(1) [OF ids] by (auto simp: stored_def)
  then have files: "\<forall>f \<in> set (selected_files e). supplies cf d ?c f"
    using assms(10) by (auto simp: supplies_def holds_def)
  have "(\<Sum>f\<leftarrow>selected_files e. weight (?c f)) \<le> (\<Sum>f\<leftarrow>selected_files e. weight (c f))"
    by (rule sum_list_mono) (simp add: weight_def)
  then have weights: "(\<Sum>f\<leftarrow>selected_files e. weight (?c f)) + 4 < 2 ^ 32" using assms(6) by linarith
  obtain img out e' d' where r:
    "RunOnce cf d e outputID = Some (Inr (length (selected_files e)), e', d')"
    "e' = e\<lparr>en_files := rest_files e @ [output_meta outputID (sst_path (en_dir e) outputID) img out]\<rparr>"
    "sst_image img out"
    "\<forall>k. map_of (entries_table out) k = map_option plain_cell (keep (rest_files e = []) (merged ?c (selected_files e) k))"
    "\<forall>p. fmlookup d' p = (if p \<in> fm_Path ` set (selected_files e) then None
        else if p = sst_path (en_dir e) outputID then Some img else fmlookup d p)"
    by (rule RunOnce_supplied [OF assms(1) ne ids files assms(7-9) weights])
  show ?thesis using round_result [OF assms(4,5) r] by (simp only: merged_filter)
qed

text \<open>A disk on which the first bytes of one file cannot be read.\<close>

definition bad_start :: "string \<Rightarrow> cfaults" where
  "bad_start path = no_cfaults\<lparr>cf_read := (\<lambda>p. if p = path
     then no_rfaults\<lparr>rf_read := (\<lambda>off n. off = 0)\<rparr> else no_rfaults)\<rparr>"

lemma bad_start_lost:
  assumes "holds d c f" "c f \<noteq> []"
  shows "lost (bad_start (fm_Path f)) d f"
proof -
  let ?ft = "no_rfaults\<lparr>rf_read := (\<lambda>off n. off = 0)\<rparr>"
  obtain bls b where img: "fmlookup d (fm_Path f) = Some (data_bytes bls @ sst_tail bls b)" and bls: "tidy_blocks bls" "concat bls = c f"
    and b: "Build (map fst (concat bls)) bitsPerKey = Inr b"
    using assms(1) by (auto simp: holds_def sst_image_def sst_bytes_def)
  obtain es rest where cons: "bls = es # rest" using bls(2) assms(2) by (cases bls) auto
  have len: "0 < length (data_bytes bls)" by (simp add: cons data_bytes_def block_bytes_def)
  then have "rd_Open ?ft (Some (data_bytes bls @ sst_tail bls b)) = Inr ((reader_of bls b)\<lparr>rd_file := data_bytes bls @ sst_tail bls b\<rparr>)"
    by (intro rd_Open_reads [OF bls(1) b]) auto
  moreover have "\<not> si_valid (SeekToFirst ?ft ((reader_of bls b)\<lparr>rd_file := data_bytes bls @ sst_tail bls b\<rparr>) it)" for it
  proof -
    have "readBlock ?ft r 0 len \<noteq> Inr x" for r len x by (simp add: readBlock_def ReadAt_def)
    then show ?thesis
      unfolding SeekToFirst_def by (subst advance.simps) (simp add: reader_of_def cons Let_def split: sum.split)
  qed
  ultimately show ?thesis by (simp add: lost_def bad_start_def img no_cfaults_def)
qed

theorem compaction_loses_unreadable_file_witness:
  "\<exists>d cf. \<not> en_running engine_example \<and> 0 < en_threshold engine_example \<and> NeedsCompaction engine_example \<and>
    stored d content_example engine_example \<and> 5 \<notin> fm_FileID ` set (en_files engine_example) \<and>
    (\<Sum>f\<leftarrow>selected_files engine_example. weight (content_example f)) + 4 < 2 ^ 32 \<and>
    cf_write cf = no_wfaults \<and> \<not> cf_stat cf \<and> cf_remove cf = (\<lambda>_. False) \<and>
    (\<forall>f \<in> set (selected_files engine_example). cf_read cf (fm_Path f) = no_rfaults \<or> lost cf d f) \<and>
    lost cf d (file_example 4 50) \<and> content_example (file_example 4 50) = [([1], None, True), ([2], Some [5], False)] \<and>
    (\<exists>e' d' meta r. RunOnce cf d engine_example 5 = Some (Inr 2, e', d') \<and> en_files e' = [file_example 3 90, meta] \<and>
      fmlookup d' (fm_Path (file_example 4 50)) = None \<and> rd_Open no_rfaults (fmlookup d' (fm_Path meta)) = Inr r \<and>
      rd_Get no_rfaults r [2] \<noteq> Inr (Some [5], False))"
proof -
  obtain d where d: "stored d content_example engine_example" using stored_example by blast
  let ?f = "file_example 4 50" and ?g = "file_example 2 40"
  define cf where "cf = bad_start (fm_Path ?f)"
  have cf: "cf_write cf = no_wfaults" "\<not> cf_stat cf" "cf_remove cf = (\<lambda>_. False)"
    by (simp_all add: cf_def bad_start_def no_cfaults_def)
  have c: "content_example ?f = [([1], None, True), ([2], Some [5], False)]" by (simp add: content_example_def file_example_def)
  have h: "holds d content_example ?f" "holds d content_example ?g" using d by (simp_all add: stored_def engine_example_def)
  have lost: "lost cf d ?f" unfolding cf_def using bad_start_lost [OF h(1)] c by simp
  have path: "fm_Path ?g \<noteq> fm_Path ?f" using d by (auto simp: stored_def engine_example_def)
  have files: "\<forall>f \<in> set (selected_files engine_example). cf_read cf (fm_Path f) = no_rfaults \<or> lost cf d f"
    using lost path by (simp add: selected_example cf_def bad_start_def)
  have n: "length (selected_files engine_example) = 2" "rest_files engine_example \<noteq> []" "?f \<in> set (selected_files engine_example)"
    by (simp_all add: selected_example)
  define M where "M = merged content_example (filter (\<lambda>f. \<not> lost cf d f) (selected_files engine_example)) [2]"
  have "sst_result M \<noteq> (Some [5], False)"
    using lost by (cases "lost cf d ?g")
      (simp_all add: M_def selected_example merged_def content_example_def file_example_def entries_example_def entry_cell_def)
  then have get: "Inr (sst_result (keep (rest_files engine_example = []) M)) \<noteq> Inr (Some [5], False)"
    using n(2) by (simp add: keep_def)
  from compaction_loses_unreadable_file [OF example_ready(1-3) d example_ready(4,5) cf files] obtain e' d' meta r where r:
    "RunOnce cf d engine_example 5 = Some (Inr (length (selected_files engine_example)), e', d')" "en_files e' = rest_files engine_example @ [meta]"
    "\<forall>f \<in> set (selected_files engine_example). fmlookup d' (fm_Path f) = None"
    "rd_Open no_rfaults (fmlookup d' (fm_Path meta)) = Inr r"
    "\<forall>k. rd_Get no_rfaults r k = Inr (sst_result (keep (rest_files engine_example = [])
        (merged content_example (filter (\<lambda>f. \<not> lost cf d f) (selected_files engine_example)) k)))"
    by blast
  have "rd_Get no_rfaults r [2] \<noteq> Inr (Some [5], False)" using get spec [OF r(5), of "[2]"] unfolding M_def by simp
  moreover have "RunOnce cf d engine_example 5 = Some (Inr 2, e', d')" "fmlookup d' (fm_Path ?f) = None"
    "en_files e' = [file_example 3 90, meta]"
    using r(1-3) n by (auto simp: selected_example)
  ultimately show ?thesis using d example_ready cf files lost c r(4) by blast
qed

end
