(* ===== verification/Spec2Isabelle.thy ===== *)
theory Spec2Isabelle
  imports Server_Process Compaction_Faults
begin

text \<open>
  A verification development of the embedded key-value store \<^verbatim>\<open>vaultkv\<close>, an LSM tree in Go with a TCP server and a
  command-line client.

  \<^bold>\<open>The program.\<close>  \<^verbatim>\<open>db.go\<close> is the store.  A \<^verbatim>\<open>Set\<close> or \<^verbatim>\<open>Delete\<close> is appended to the write-ahead log
  (\<^verbatim>\<open>internal/wal\<close>) and then applied to the active MemTable (\<^verbatim>\<open>internal/memtable\<close>), a skip list behind a lock.  When
  the MemTable is large enough a flushing goroutine makes it immutable and writes it to an SSTable file
  (\<^verbatim>\<open>internal/sstable\<close>), which has checksummed blocks, a sparse index and a Bloom filter (\<^verbatim>\<open>internal/bloom\<close>).  A
  compacting goroutine merges files of similar size (\<^verbatim>\<open>internal/compaction\<close>).  \<^verbatim>\<open>Get\<close> asks the active MemTable, the
  immutable one and the files, newest first.  \<^verbatim>\<open>Open\<close> loads the files and replays the log.  \<^verbatim>\<open>cmd/server\<close> offers the
  store over a line protocol, and \<^verbatim>\<open>cmd/cli\<close> is a client of it.

  \<^bold>\<open>The theories\<close>, in the order in which they build on each other.

  \<^item> \<open>Vault_Prelude\<close>: byte strings and slices (a slice is an option, \<open>None\<close> being nil), errors as values with \<open>Panic\<close>
    among them, little-endian integers, \<^verbatim>\<open>bytes.Compare\<close>, sorted tables as abstract values, and the locale
    \<open>framed_scan\<close> of the loops that read length-framed records, with its interpretations in \<open>Wal\<close> and
    \<open>SSTable_Reader\<close>.
  \<^item> \<open>Go_Float\<close>: \<^verbatim>\<open>float64\<close> products, quotients and ceilings with their rounding.
  \<^item> \<open>Crc32\<close>: the checksum of \<^verbatim>\<open>hash/crc32\<close>; it separates messages that differ in one byte.
  \<^item> \<open>Bloom\<close> (\<^verbatim>\<open>bloom.go\<close>): MurmurHash3, \<open>Build\<close>, \<open>MayContain\<close>, \<open>Encode\<close>, \<open>Decode\<close>; the contract \<open>membership_filter\<close>
    (no false negatives, no panic) and the exact size of a filter.
  \<^item> \<open>Wal\<close> (\<^verbatim>\<open>wal.go\<close>): \<open>Open\<close>, \<open>Append\<close>, \<open>Sync\<close>, \<open>Replay\<close>, \<open>truncateAt\<close>, \<open>Close\<close> over a file of which a crash keeps some
    prefix with the synced bytes; round trip, durability, detection of damage, and two ways in which a torn record
    does harm.
  \<^item> \<open>Skip_List\<close>, \<open>Mem_Table\<close> (\<^verbatim>\<open>skiplist.go\<close>, \<^verbatim>\<open>memtable.go\<close>): the nodes with their forward pointers in a store; the contract
    \<open>ordered_store\<close>, which both satisfy: every operation returns, keeps the levels sorted and consistent, and acts
    as an update of a sorted table, for any outcomes of the random source.
  \<^item> \<open>SSTable_Writer\<close>, \<open>SSTable_Reader\<close> (\<^verbatim>\<open>writer.go\<close>, \<^verbatim>\<open>reader.go\<close>): the layout of a file as a function of the blocks,
    lookup and iteration; the contract \<open>table_file\<close>; a written table is read back, a damaged block is refused.
  \<^item> \<open>Heap_Queue\<close>: \<^verbatim>\<open>container/heap\<close>, as the contract \<open>heap_order\<close> on \<^verbatim>\<open>Less\<close>, which gives a \<open>priority_queue\<close>.
  \<^item> \<open>File_Name\<close>: the names of the files and their order.
  \<^item> \<open>Compaction\<close>, \<open>Compaction_Round\<close> (\<^verbatim>\<open>compaction.go\<close>): file list, size tiers, the merge over the heap, and a round:
    it merges the newest entries, shrinks the list, and an error keeps the inputs.  \<open>Compaction_Faults\<close>: a round ends
    whatever fails, and loses the entries of a file that cannot be read.
  \<^item> \<open>Options\<close> (\<^verbatim>\<open>options.go\<close>): types, defaults and \<open>withDefaults\<close>.
  \<^item> \<open>Database\<close> (\<^verbatim>\<open>db.go\<close>): one definition for each method, cut where the code gives up its locks.
    \<open>Database_View\<close> says what the readers, the directory and a MemTable laid over them show of a key, and follows every
    operation through these views.  \<open>Database_Steps\<close> is the state machine \<open>step\<close> of clients, goroutines, \<^verbatim>\<open>Close\<close> and
    restarts, with the invariant \<open>sys_inv\<close> of the calm executions; \<open>Database_Runs\<close> builds such executions.  \<open>Database_Reads\<close> cuts
    \<^verbatim>\<open>Get\<close> into the parts between which other goroutines run, and shows what it returns; \<open>Database_Close\<close> follows \<^verbatim>\<open>Close\<close> through every
    schedule of the goroutines.
  \<^item> \<open>Server\<close>, \<open>Cli\<close> (\<^verbatim>\<open>cmd/server/main.go\<close>, \<^verbatim>\<open>cmd/cli/main.go\<close>): the line scanner, the handler of a request and the loop of a
    connection; the loop of the client against any \<open>line_peer\<close>, and the server as one.
  \<^item> \<open>Server_Process\<close> (\<^verbatim>\<open>main\<close> of \<^verbatim>\<open>cmd/server/main.go\<close>): startup and its exits, and the process as the state machine
    \<open>server_step\<close>: connections whose input arrives in pieces, requests that begin and finish in separate steps and so interleave, background
    work, signals, the way out and restarts; the abstract server \<open>spec_line\<close> over a map, and that the histories of the process are
    \<open>linearised\<close> with respect to it.
  \<^item> This theory: the properties of the whole store.

  \<^bold>\<open>What the theorems show.\<close>  The store refines a map from keys to values: in every state that calm executions reach,
  \<^verbatim>\<open>Get\<close> returns the last write that took effect, during flushes and compactions and after kills; a write that was acknowledged with
  \<^verbatim>\<open>SyncFull\<close> survives every later crash of the machine; \<^verbatim>\<open>Close\<close> puts everything into files.  The calm runs of the server are linearisable with respect to a server over
  a map, over restarts.  A \<^verbatim>\<open>Get\<close> among concurrent work fails or returns a value of some moment of its duration, unless \<^verbatim>\<open>Close\<close> overtakes
  it.  Below that, each component has its own functional,
  round-trip, error and bounds theorems, most of them with arbitrary failures of the operating system.  Some theorems
  show what goes wrong: a compaction that leaves a newer file behind brings old values back, a failed flush hides
  acknowledged writes, a torn header spoils the log, a log that lost its tail hides newer flushed values, concurrent
  writes of a key may be swapped by a restart, a \<^verbatim>\<open>Get\<close> that \<^verbatim>\<open>Close\<close> overtakes misses a value, a nil value turns into an empty one, and compaction drops a file that it cannot read.

  \<^bold>\<open>Calm executions.\<close>  \<open>calm\<close> names what the refinement needs of a step: no failing call; keys that are not empty, values
  that are not nil, each of them below 4 GiB; a MemTable and a round of compaction whose file stays
  below 4 GiB, where the 32-bit lengths of the format end; file identifiers below 2^64 - 2; a compaction that does not begin while
  a flush writes its file, and no flush that is installed between the opening and the installing of the new readers; and a round
  that leaves no file behind that is newer than one it merges.  Among calm executions are kills of the process between any two steps, after which the log is
  complete, perhaps with a torn record at its end that is longer than its header; the file of a flush is there as a whole or not at all, and so is the
  output of a round.  A crash of the machine that loses the end of the log, also with shorter torn records, is the subject of theorems of its own, here and in \<open>Wal\<close>.
  \<open>calm_event\<close> is the corresponding condition for the server.

  \<^bold>\<open>Modelling.\<close>  State is passed explicitly in records; errors are values of a sum or an option, and a Go panic is the
  error \<open>Panic\<close> or, in the skip list, \<open>None\<close>.  Failures of calls are arguments (\<open>faults\<close>, \<open>wfaults\<close>, \<open>rfaults\<close>, \<open>cfaults\<close>,
  \<open>dfaults\<close>), a predicate or flag for each call.  Integers keep their width where the code can overflow: identifiers,
  lengths and offsets are words; sizes of files and of MemTables are integers, which the code keeps in 64 bits.  Loops
  are recursive functions with a termination proof; the walks of the skip list and the merge, which do not end
  on every store, are partial functions with value \<open>None\<close> when they do not end, and it is proved that they return; there is
  no fuel.  The tiers are computed with rounded quotients, which are exact for files below 2^52 bytes.  A line of the
  protocol is below 64 KiB, the buffer of \<^verbatim>\<open>bufio.Scanner\<close>.

  Parameters stand for what the sources do not determine: the outcomes of the random source of the skip list, the texts
  of errors of the operating system, and upper case, lower case, white space and quotation of strings outside ASCII.

  \<^bold>\<open>Not modelled.\<close>  Interleaving below the size of a critical section: a method of the MemTable, an append to the
  log and a round of compaction are one step each, and so are two pieces of code that hold no lock throughout: the writing and installing of the
  file of a flush, and the question whether the database is closed with the append to the log that follows it.  A crash in the middle of a flush or of
  a round, which leaves a part of a file, is not modelled.  The channels hold at most one
  signal, as in the code, but the timing of the tickers is left open.  Sockets are the events of \<open>server_step\<close>; a
  reply that cannot be sent is dropped by the code and not modelled.  The parsing of the flags belongs to a library.  The options that no
  code reads have no effect.  Directory names are taken to be clean and free of the metacharacters of \<^verbatim>\<open>filepath.Glob\<close>, and
  file names free of leading blanks, which \<^verbatim>\<open>fmt.Sscanf\<close> would skip.
\<close>

subsection \<open>Properties of the database\<close>

text \<open>C1. The database refines a map: in every state that calm executions reach, in the middle of a flush or of a
  compaction and after any number of kills and restarts of the process, \<^verbatim>\<open>Get\<close> returns for every key the value of
  the last write that took effect, and nothing if that was a deletion or if there was none.\<close>

theorem database_reads_last_write:
  assumes "calm_reach s" "\<not> db_closed (sy_db s)"
  shows "db_Get (\<lambda>_. no_rfaults) k (sy_db s) = Inr (visible (map_writes (sy_applied s) Map.empty k))"
  using assms by (rule calm_reads)

text \<open>C19. A write succeeds and is seen at once: \<^verbatim>\<open>Set\<close> and \<^verbatim>\<open>Delete\<close> on an open database return no error, and the
  following \<^verbatim>\<open>Get\<close> of the key returns the new value, or nothing after a deletion, while every other key keeps
  its value.\<close>

theorem database_reads_own_writes:
  assumes "calm_reach s" "\<not> db_closed (sy_db s)" "plain_write (k, Some (Some v))"
  shows "\<exists>db db'. db_Set no_faults coin k (Some v) (sy_db s) = (None, db) \<and>
    (\<forall>x. db_Get (\<lambda>_. no_rfaults) x db = (if x = k then Inr (Some v) else db_Get (\<lambda>_. no_rfaults) x (sy_db s))) \<and>
    db_Delete no_faults coin k (sy_db s) = (None, db') \<and>
    (\<forall>x. db_Get (\<lambda>_. no_rfaults) x db' = (if x = k then Inr None else db_Get (\<lambda>_. no_rfaults) x (sy_db s)))"
proof -
  have del: "plain_write (k, None)" using assms(3) by (simp add: plain_write_def wf_record_def)
  have get: "db_Get (\<lambda>_. no_rfaults) x (sy_db s') =
      (if x = k then Inr (visible (Some (write_cell c))) else db_Get (\<lambda>_. no_rfaults) x (sy_db s))"
    if "calm_reach s'" "\<not> db_closed (sy_db s')" "sy_applied s' = sy_applied s @ [(k, c)]" for s' c x
    using calm_reads [OF that(1,2), of x] calm_reads [OF assms(1,2), of x] that(3) by (simp add: map_writes_snoc)
  obtain d1 d2 s1 where 1: "write_log no_faults (k, Some (Some v)) (sy_db s) = (None, d1)"
    "write_apply coin (k, Some (Some v)) d1 = (None, d2)" "calm_reach s1" "sy_db s1 = d2" "\<not> db_closed d2"
    "sy_applied s1 = sy_applied s @ [(k, Some (Some v))]"
    by (rule calm_write [OF assms])
  obtain d3 d4 s2 where 2: "write_log no_faults (k, None) (sy_db s) = (None, d3)"
    "write_apply coin (k, None) d3 = (None, d4)" "calm_reach s2" "sy_db s2 = d4" "\<not> db_closed d4"
    "sy_applied s2 = sy_applied s @ [(k, None)]"
    by (rule calm_write [OF assms(1,2) del])
  show ?thesis
    using 1(1,2) 2(1,2) get [OF 1(3) _ 1(6)] get [OF 2(3) _ 2(6)] 1(4,5) 2(4,5)
    by (intro exI [of _ d2] exI [of _ d4]) (simp add: db_Set_log db_Delete_log)
qed

theorem database_reads_last_write_witness:
  "\<exists>s. calm_reach s \<and> \<not> db_closed (sy_db s) \<and> sy_applied s = writes_example \<and>
    db_Get (\<lambda>_. no_rfaults) [1] (sy_db s) = Inr None \<and> db_Get (\<lambda>_. no_rfaults) [2] (sy_db s) = Inr (Some [9]) \<and>
    db_Get (\<lambda>_. no_rfaults) [3] (sy_db s) = Inr None"
proof -
  obtain s where s: "wrote opts_example writes_example s" using wrote_example ..
  then have "calm_reach s" "\<not> db_closed (sy_db s)" by (simp_all add: wrote_def)
  note database_reads_last_write [OF this]
  with s show ?thesis by (intro exI [of _ s]) (simp add: wrote_def writes_example_def)
qed

theorem database_reads_own_writes_witness:
  "\<exists>s. calm_reach s \<and> \<not> db_closed (sy_db s) \<and> plain_write ([2], Some (Some [5])) \<and>
    (\<exists>db db'. db_Set no_faults (\<lambda>_. True) [2] (Some [5]) (sy_db s) = (None, db) \<and>
      (\<forall>x. db_Get (\<lambda>_. no_rfaults) x db = (if x = [2] then Inr (Some [5]) else db_Get (\<lambda>_. no_rfaults) x (sy_db s))) \<and>
      db_Delete no_faults (\<lambda>_. True) [2] (sy_db s) = (None, db') \<and>
      (\<forall>x. db_Get (\<lambda>_. no_rfaults) x db' = (if x = [2] then Inr None else db_Get (\<lambda>_. no_rfaults) x (sy_db s))))"
proof -
  obtain s where s: "wrote opts_example writes_example s" using wrote_example ..
  then have r: "calm_reach s" "\<not> db_closed (sy_db s)" by (simp_all add: wrote_def)
  have w: "plain_write ([2], Some (Some [5]))" by (simp add: plain_write_def wf_record_def)
  from database_reads_own_writes [OF r w, of "\<lambda>_. True"] r w show ?thesis by blast
qed

lemma recovered_reads:
  assumes "calm_reach s" "o_Dir opts = o_Dir (db_opts (sy_db s))" "plain_write w" "torn_at w m"
  shows "\<exists>db. db_Open no_dfaults coins opts (db_disk (sy_db s)) (Some (log_of (sy_logged s) w m)) = Inr db \<and>
    (\<forall>k. db_Get (\<lambda>_. no_rfaults) k db = Inr (visible (map_writes (sy_logged s) Map.empty k)))"
proof -
  obtain db where db: "db_Open no_dfaults coins opts (db_disk (sy_db s)) (Some (log_of (sy_logged s) w m)) = Inr db"
    "\<not> db_closed db" "sys_inv (start db (sy_logged s))"
    using recover_ok [OF calm_reach_inv [OF assms(1)] assms(2-4)] by blast
  from get_view [OF db(3)] db(1,2) show ?thesis by (auto simp: start_def)
qed

text \<open>Where a cut of the log falls: behind everything, or into one of the records.\<close>

lemma log_cut:
  obtains (whole) "take n (log_bytes (map record_of ws)) = log_bytes (map record_of ws)"
  | (inside) vs u us i where "ws = vs @ u # us" "i < length (encode_record (record_of u))" "n = length (log_bytes (map record_of vs)) + i"
      "take n (log_bytes (map record_of ws)) = log_of vs u i"
proof -
  have "take n (log_bytes (map record_of ws)) = log_bytes (map record_of ws) \<or>
      (\<exists>vs u us i. ws = vs @ u # us \<and> i < length (encode_record (record_of u)) \<and> n = length (log_bytes (map record_of vs)) + i)"
  proof (induction ws arbitrary: n)
    case (Cons w ws)
    let ?l = "length (encode_record (record_of w))"
    show ?case
    proof (cases "n < ?l")
      case True
      then show ?thesis by (intro disjI2 exI [of _ "[]"] exI [of _ w] exI [of _ ws] exI [of _ n]) simp
    next
      case False
      from Cons.IH [of "n - ?l"] show ?thesis
      proof (elim disjE exE conjE)
        fix vs u us i
        assume "ws = vs @ u # us" "i < length (encode_record (record_of u))" "n - ?l = length (log_bytes (map record_of vs)) + i"
        then show ?thesis using False by (intro disjI2 exI [of _ "w # vs"] exI [of _ u] exI [of _ us] exI [of _ i]) simp
      qed (use False in simp)
    qed
  qed simp
  then show thesis using whole inside by (auto simp: log_of_def)
qed

lemma cut_keeps:
  assumes "prefix ws us" "us = vs @ u # rest" "length (log_bytes (map record_of ws)) \<le> length (log_bytes (map record_of vs)) + i"
    "i < length (encode_record (record_of u))"
  shows "prefix ws vs"
proof (rule ccontr)
  assume "\<not> prefix ws vs"
  moreover have "prefix vs us" using assms(2) by simp
  ultimately obtain x xs where ws: "ws = vs @ x # xs"
    using prefix_same_cases [OF assms(1)] by (metis append_Nil2 list.exhaust prefix_def)
  then have "x = u" using assms(1,2) by (auto simp: prefix_def)
  then show False using assms(3,4) ws by simp
qed

text \<open>C3. A write that was acknowledged under \<^verbatim>\<open>SyncFull\<close> survives every later crash.  Let a database that is opened with \<^verbatim>\<open>SyncFull\<close> append the
  write \<open>w\<close> to its log; let calm steps follow, and any number of kills and new starts of the process, also with other sync modes, up to
  state \<open>t\<close>.  Then the machine crashes, perhaps while one more record is appended, and the log keeps its first \<open>n\<close> bytes, for any \<open>n\<close> that
  includes what the \<^verbatim>\<open>fsync\<close> of \<open>w\<close> covered; only a cut exactly behind the 13 bytes of a header is left out, for which \<open>Wal\<close> has a theorem of its own.  \<^verbatim>\<open>Open\<close>
  succeeds and recovers some first part of all the writes that were logged, up to \<open>w\<close> at least, and \<^verbatim>\<open>Get\<close> returns for each of their keys the last of them.\<close>

theorem acknowledged_writes_survive:
  assumes "calm_reach s" "o_SyncMode (db_opts (sy_db s)) = SyncFull" "plain_write w"
    and "step s (LogWrite no_faults w) s1" "sy_logged s1 = sy_logged s @ [w]"
    and "calm_later s1 t" "plain_write w'" "o_Dir opts = o_Dir (db_opts (sy_db t))"
    and "wal_synced (db_walLog (sy_db s1)) \<le> n"
    and "\<forall>vs u. prefix (vs @ [u]) (sy_logged t @ [w']) \<longrightarrow> n \<noteq> length (log_bytes (map record_of vs)) + 13"
  shows "\<exists>vs db. prefix (sy_logged s @ [w]) vs \<and> prefix vs (sy_logged t @ [w']) \<and>
    db_Open no_dfaults coins opts (db_disk (sy_db t))
      (Some (take n (wal_data (db_walLog (sy_db t)) @ encode_record (record_of w')))) = Inr db \<and>
    (\<forall>k \<in> fst ` set vs. db_Get (\<lambda>_. no_rfaults) k db = Inr (visible (map_writes vs Map.empty k)))"
proof -
  let ?all = "sy_logged t @ [w']"
  have inv: "sys_inv s" using assms(1) by (rule calm_reach_inv)
  have reach1: "calm_reach s1" using calm_reach.step [OF assms(1,4)] assms(3) by simp
  then have reach: "calm_reach t" using calm_later_reach assms(6) by blast
  then have inv_t: "sys_inv t" by (rule calm_reach_inv)
  have all: "list_all plain_write ?all" using inv_t assms(7) by (simp add: sys_inv_def log_ok_inv_def)
  have data: "wal_data (db_walLog (sy_db t)) @ encode_record (record_of w') = log_bytes (map record_of ?all)"
    using inv_t by (simp add: sys_inv_def log_ok_inv_def)
  have "\<not> db_closed (sy_db s)"
    using assms(4,5) write_log_rejected [of "sy_db s" w no_faults] by (auto simp: step_simps)
  then obtain wl where "write_log no_faults w (sy_db s) = (None, (sy_db s)\<lparr>db_walLog := wl\<rparr>)"
    "wal_SyncOnAppend wl = wal_SyncOnAppend (db_walLog (sy_db s))" "wal_SyncOnAppend wl \<longrightarrow> wal_synced wl = length (wal_data wl)"
    using write_log_ok [of "sy_db s" w] inv assms(3) by (auto simp: sys_inv_def log_ok_inv_def plain_write_def)
  then have "wal_synced (db_walLog (sy_db s1)) = length (wal_data (db_walLog (sy_db s1)))"
    using assms(2,4) inv by (auto simp: step_simps sys_inv_def log_ok_inv_def)
  then have n: "length (log_bytes (map record_of (sy_logged s @ [w]))) \<le> n"
    using calm_reach_inv [OF reach1] assms(5,9) by (simp add: sys_inv_def log_ok_inv_def)
  have pre: "prefix (sy_logged s @ [w]) ?all" using calm_later_logged [OF assms(6)] assms(5) by (simp add: prefix_prefix)
  obtain S c where disk: "disk_holds (o_Dir opts) (db_nextFileID (sy_db t)) (db_compact (sy_db t)) c (db_disk (sy_db t)) S"
    using inv_t assms(8) by (auto simp: sys_inv_def view_ok_def Let_def)
  have dir: "o_Dir opts \<noteq> ''''" using inv_t assms(8) by (simp add: sys_inv_def)
  have opens: ?thesis if vs: "prefix vs ?all" "prefix (sy_logged s @ [w]) vs" and u: "plain_write u" "i \<noteq> 13" "i < length (encode_record (record_of u))"
    and cut: "take n (log_bytes (map record_of ?all)) = log_of vs u i" for vs u i
  proof -
    have plain: "list_all plain_write vs" using all set_mono_prefix [OF vs(1)] by (auto simp: list_all_iff)
    obtain db where "db_Open no_dfaults coins opts (db_disk (sy_db t)) (Some (log_of vs u i)) = Inr db" "loaded opts vs S (db_disk (sy_db t)) db"
      by (rule db_Open_loads [OF dir disk plain u, of "Some (log_of vs u i)" coins]) simp_all
    then show ?thesis using vs loaded_get [OF _ plain] cut data by (intro exI [of _ vs] exI [of _ db]) simp
  qed
  show ?thesis
  proof (cases rule: log_cut [of n ?all])
    case whole
    have "plain_write ([0], None)" by (simp add: plain_write_def wf_record_def)
    then show ?thesis
      using opens [of ?all "([0], None)" 0] pre whole by (simp add: log_of_def plain_write_def length_encode_record)
  next
    case (inside vs u us i)
    have "prefix (vs @ [u]) ?all" using inside(1) by (simp add: prefix_def)
    then have "i \<noteq> 13" using assms(10) inside(3) by blast
    moreover have "plain_write u" using all inside(1) by (simp add: list_all_iff)
    ultimately show ?thesis using opens [of vs u i] cut_keeps [OF pre inside(1) _ inside(2)] n inside by simp
  qed
qed

lemma plain_record_length: "plain_write x \<Longrightarrow> 14 \<le> length (encode_record (record_of x))"
  by (cases x rule: record_of.cases) (auto simp: plain_write_def length_encode_record Suc_le_eq)

theorem acknowledged_writes_survive_witness:
  "\<exists>s s1. calm_reach s \<and> o_SyncMode (db_opts (sy_db s)) = SyncFull \<and> plain_write ([2], Some (Some [5])) \<and>
    step s (LogWrite no_faults ([2], Some (Some [5]))) s1 \<and> sy_logged s1 = sy_logged s @ [([2], Some (Some [5]))] \<and>
    calm_later s1 s1 \<and> plain_write ([3], Some (Some [6, 7])) \<and> o_Dir opts_example = o_Dir (db_opts (sy_db s1)) \<and>
    (\<exists>vs db. prefix (sy_logged s @ [([2], Some (Some [5]))]) vs \<and> prefix vs (sy_logged s1 @ [([3], Some (Some [6, 7]))]) \<and>
      db_Open no_dfaults (\<lambda>_ _. True) opts_example (db_disk (sy_db s1))
        (Some (take (wal_synced (db_walLog (sy_db s1))) (wal_data (db_walLog (sy_db s1)) @ encode_record (record_of ([3], Some (Some [6, 7])))))) = Inr db)"
proof -
  obtain s where s: "wrote opts_example writes_example s" using wrote_example ..
  then have r: "calm_reach s" "o_SyncMode (db_opts (sy_db s)) = SyncFull" "\<not> db_closed (sy_db s)"
    by (simp_all add: wrote_def opts_example_def default_simps)
  let ?w = "([2], Some (Some [5])) :: kv_write" and ?v = "([3], Some (Some [6, 7])) :: kv_write"
  have w: "plain_write ?w" "plain_write ?v" by (simp_all add: plain_write_def wf_record_def)
  have inv: "log_ok_inv s" using calm_reach_inv [OF r(1)] by (simp add: sys_inv_def)
  obtain wl where wl: "write_log no_faults ?w (sy_db s) = (None, (sy_db s)\<lparr>db_walLog := wl\<rparr>)"
    "wal_data wl = wal_data (db_walLog (sy_db s)) @ encode_record (record_of ?w)" "wal_synced wl = length (wal_data wl)"
    using write_log_ok [of "sy_db s" ?w] inv r(2,3) by (auto simp: log_ok_inv_def)
  define s1 where "s1 = s\<lparr>sy_db := (sy_db s)\<lparr>db_walLog := wl\<rparr>, sy_pending := sy_pending s @ [?w], sy_logged := sy_logged s @ [?w]\<rparr>"
  have st: "step s (LogWrite no_faults ?w) s1" using step.log_ok [OF wl(1)] by (simp add: s1_def)
  have l: "sy_logged s1 = sy_logged s @ [?w]" "o_Dir opts_example = o_Dir (db_opts (sy_db s1))" using s by (simp_all add: s1_def wrote_def)
  have len: "wal_synced (db_walLog (sy_db s1)) = length (log_bytes (map record_of (sy_logged s1)))"
    using wl(2,3) inv by (simp add: s1_def log_ok_inv_def)
  have "\<forall>vs u. prefix (vs @ [u]) (sy_logged s1 @ [?v]) \<longrightarrow> wal_synced (db_walLog (sy_db s1)) \<noteq> length (log_bytes (map record_of vs)) + 13"
  proof (intro allI impI)
    fix vs u
    assume pre: "prefix (vs @ [u]) (sy_logged s1 @ [?v])"
    then obtain rest where rest: "sy_logged s1 = vs @ rest" by (auto simp: prefix_def append_eq_append_conv2 Cons_eq_append_conv)
    have "list_all plain_write (sy_logged s1)" using inv w(1) l(1) by (simp add: log_ok_inv_def)
    then have "length (encode_record (record_of x)) \<ge> 14" if "x \<in> set rest" for x
      using that rest plain_record_length by (simp add: list_all_iff)
    then have "length (log_bytes (map record_of rest)) \<noteq> 13" by (cases rest) (auto, force)
    then show "wal_synced (db_walLog (sy_db s1)) \<noteq> length (log_bytes (map record_of vs)) + 13" by (simp add: len rest)
  qed
  from acknowledged_writes_survive [OF r(1,2) w(1) st l(1) calm_later.refl w(2) l(2) le_refl this, of "\<lambda>_ _. True"] r w st l
  show ?thesis by blast
qed

text \<open>C20. A crash in the middle of an append: if the header of one more record and some but not all of its payload
  reached the file, \<^verbatim>\<open>Open\<close> cuts that record off, succeeds, and \<^verbatim>\<open>Get\<close> returns for every key the last write
  that was appended completely.\<close>

theorem torn_append_is_dropped:
  assumes "calm_reach s" "o_Dir opts = o_Dir (db_opts (sy_db s))" "plain_write w"
    and "13 < m" "m < length (encode_record (record_of w))"
  shows "\<exists>db. db_Open no_dfaults coins opts (db_disk (sy_db s))
      (Some (wal_data (db_walLog (sy_db s)) @ take m (encode_record (record_of w)))) = Inr db \<and>
    (\<forall>k. db_Get (\<lambda>_. no_rfaults) k db = Inr (visible (map_writes (sy_logged s) Map.empty k)))"
proof -
  have "wal_data (db_walLog (sy_db s)) @ take m (encode_record (record_of w)) = log_of (sy_logged s) w m"
    using calm_reach_inv [OF assms(1)] by (simp add: sys_inv_def log_ok_inv_def log_of_def)
  then show ?thesis using recovered_reads [OF assms(1-3), of m] assms(4,5) by (simp add: torn_at_def)
qed

theorem torn_append_is_dropped_witness:
  "\<exists>s. calm_reach s \<and> o_Dir opts_example = o_Dir (db_opts (sy_db s)) \<and> plain_write ([2], Some (Some [5, 6])) \<and>
    13 < (15 :: nat) \<and> 15 < length (encode_record (record_of ([2], Some (Some [5, 6])))) \<and>
    (\<exists>db. db_Open no_dfaults (\<lambda>_ _. True) opts_example (db_disk (sy_db s))
        (Some (wal_data (db_walLog (sy_db s)) @ take 15 (encode_record (record_of ([2], Some (Some [5, 6])))))) = Inr db \<and>
      (\<forall>k. db_Get (\<lambda>_. no_rfaults) k db = Inr (visible (map_writes writes_example Map.empty k))))"
proof -
  obtain s where s: "wrote opts_example writes_example s" using wrote_example ..
  then have r: "calm_reach s" and d: "o_Dir opts_example = o_Dir (db_opts (sy_db s))" and l: "sy_logged s = writes_example"
    by (simp_all add: wrote_def)
  have w: "plain_write ([2], Some (Some [5, 6]))" by (simp add: plain_write_def wf_record_def)
  have n: "15 < length (encode_record (record_of ([2], Some (Some [5, 6]))))"
    using w by (simp add: plain_write_def length_encode_record)
  from torn_append_is_dropped [OF r d w _ n, of "\<lambda>_ _. True"] r d w n l show ?thesis by auto
qed

text \<open>C37. A closed database refuses everything: \<^verbatim>\<open>Set\<close>, \<^verbatim>\<open>Delete\<close>, \<^verbatim>\<open>Get\<close> and a second \<^verbatim>\<open>Close\<close> return an error and
  change nothing, whatever calls would fail; and an open one rejects the empty key without writing to the log.\<close>

theorem closed_database_refuses:
  "(if db_closed db then db_Set ft coin k v db = (Some (Err ''vaultkv: database is closed''), db) \<and>
      db_Delete ft coin k db = (Some (Err ''vaultkv: database is closed''), db) \<and>
      db_Get rf k db = Inl (Err ''vaultkv: database is closed'') \<and>
      db_Close df db = (Some (Err ''vaultkv: already closed''), db)
    else db_Set ft coin [] v db = (Some (Err ''vaultkv: empty key not allowed''), db) \<and>
      db_Delete ft coin [] db = (Some (Err ''vaultkv: empty key not allowed''), db) \<and>
      db_closed (snd (db_Close df db)))"
  by (auto simp: db_Set_def set_log_def db_Delete_def delete_log_def db_Get_def db_Close_def close_begin_def
      close_end_def errClosed_def errEmptyKey_def case_prod_beta)

subsection \<open>A log that lost its tail\<close>

text \<open>C22. What is left after a crash that lost the end of the log, as one may without \<^verbatim>\<open>SyncFull\<close>: whatever number of whole
  records is left, perhaps with a torn one behind them, \<^verbatim>\<open>Open\<close> succeeds; a key that occurs in the records left has
  the value of the last of them, and every other key the value that the files held.  So a flushed value, which is
  durable, is hidden by an older value of the same key when the log kept the older record and lost the newer.\<close>

theorem lost_log_tail_reads:
  assumes "calm_reach s" "sy_compact s \<noteq> CDone" "o_Dir opts = o_Dir (db_opts (sy_db s))" "plain_write w" "torn_at w m"
  shows "\<exists>db. db_Open no_dfaults coins opts (db_disk (sy_db s)) (Some (log_of (take n (sy_logged s)) w m)) = Inr db \<and>
    (\<forall>k. db_Get (\<lambda>_. no_rfaults) k db =
      (if k \<in> fst ` set (take n (sy_logged s)) then Inr (visible (map_writes (take n (sy_logged s)) Map.empty k))
       else get_readers (\<lambda>_. no_rfaults) (db_readers (sy_db s)) k))"
proof -
  have inv: "sys_inv s" using assms(1) by (rule calm_reach_inv)
  then obtain S c where rs: "readers_show (db_readers (sy_db s)) S"
    and disk: "disk_holds (o_Dir opts) (db_nextFileID (sy_db s)) (db_compact (sy_db s)) c (db_disk (sy_db s)) S"
    using assms(2,3) by (auto simp: sys_inv_def view_ok_def Let_def)
  have dir: "o_Dir opts \<noteq> ''''" and ws: "list_all plain_write (take n (sy_logged s))"
    using inv assms(3) by (auto simp: sys_inv_def log_ok_inv_def list_all_iff dest: in_set_takeD)
  obtain db where "db_Open no_dfaults coins opts (db_disk (sy_db s)) (Some (log_of (take n (sy_logged s)) w m)) = Inr db"
    "opened opts (take n (sy_logged s)) S (db_disk (sy_db s)) db"
    by (rule db_Open_shows [OF dir disk ws assms(4,5), of "Some (log_of (take n (sy_logged s)) w m)" coins]) simp_all
  moreover from this have "loaded opts (take n (sy_logged s)) S (db_disk (sy_db s)) db" by (simp add: opened_def)
  ultimately show ?thesis using loaded_get [OF _ ws] get_readers_show [OF rs] by (intro exI [of _ db]) simp
qed

theorem lost_log_tail_reads_witness:
  "\<exists>s. calm_reach s \<and> sy_compact s \<noteq> CDone \<and> o_Dir opts_example = o_Dir (db_opts (sy_db s)) \<and>
    plain_write ([0], None) \<and> torn_at ([0], None) 0 \<and>
    get_readers (\<lambda>_. no_rfaults) (db_readers (sy_db s)) [2] = Inr (Some [9]) \<and>
    (\<exists>db. db_Open no_dfaults (\<lambda>_ _. True) opts_example (db_disk (sy_db s))
        (Some (log_of (take 2 (sy_logged s)) ([0], None) 0)) = Inr db \<and>
      db_Get (\<lambda>_. no_rfaults) [2] db = Inr (Some [8]))"
proof -
  obtain s0 where s0: "wrote opts_example writes_example s0" "quiet s0" "db_nextFileID (sy_db s0) < - 2"
    "16 * mt_Len (db_active (sy_db s0)) + mt_ByteSize (db_active (sy_db s0)) + 4 < 2 ^ 32"
    using example_fits by blast
  obtain s where s: "calm_reach s" "sy_db s = flushIfNeeded no_dfaults (snd (close_begin (sy_db s0)))"
    "sy_applied s = sy_applied s0" "sy_logged s = sy_logged s0" "sy_compact s = CIdle"
    "mt_table (db_active (sy_db s)) = []" "db_immutable (sy_db s) = None"
    by (rule closing_flush [OF s0(2-4)])
  have l: "sy_logged s = writes_example" "sy_applied s = writes_example" "o_Dir opts_example = o_Dir (db_opts (sy_db s))"
    using s0(1) s(2-4) by (simp_all add: wrote_def close_begin_def)
  obtain S where S: "readers_show (db_readers (sy_db s)) S" "S = (\<lambda>k. visible (map_writes writes_example Map.empty k))"
    using calm_reach_inv [OF s(1)] s(5-7) l(2) by (auto simp: sys_inv_def view_ok_def Let_def)
  have r: "get_readers (\<lambda>_. no_rfaults) (db_readers (sy_db s)) [2] = Inr (Some [9])"
    using get_readers_show [OF S(1)] S(2) by (simp add: writes_example_def)
  have w: "plain_write ([0], None)" "torn_at ([0], None) 0" by (simp_all add: plain_write_def torn_at_def wf_record_def)
  have c: "sy_compact s \<noteq> CDone" using s(5) by simp
  from lost_log_tail_reads [OF s(1) c l(3) w, of "\<lambda>_ _. True" 2] have
    "\<exists>db. db_Open no_dfaults (\<lambda>_ _. True) opts_example (db_disk (sy_db s))
        (Some (log_of (take 2 (sy_logged s)) ([0], None) 0)) = Inr db \<and> db_Get (\<lambda>_. no_rfaults) [2] db = Inr (Some [8])"
    using l(1) by (auto simp: writes_example_def)
  with s(1) c l(3) w r show ?thesis by blast
qed

subsection \<open>Compaction and failed flushes\<close>

text \<open>C25. What a turn of the compacting goroutine does to lookups: it ends, and for a key that is not in the MemTable
  \<^verbatim>\<open>Get\<close> then answers from the merged files if one of them has the key (unless a tombstone was dropped with
  everything merged) and from the files left behind otherwise.  This is what it answered before for every key of
  which no file left behind has a newer entry than a merged file.\<close>

theorem compaction_turn_lookups:
  assumes "disk_holds (o_Dir (db_opts db)) (db_nextFileID db) (db_compact db) c (db_disk db) S"
    and "NeedsCompaction (db_compact db)" "(\<Sum>f\<leftarrow>selected_files (db_compact db). weight (c f)) + 4 < 2 ^ 32"
    and "db_nextFileID db < - 2"
    and "\<not> db_closed db" "mt_inv (db_active db)" "db_immutable db = None"
  shows "\<exists>db'. compact_turn no_dfaults db = Some db' \<and>
    (\<forall>k. map_of (mt_table (db_active db)) k = None \<longrightarrow>
       db_Get (\<lambda>_. no_rfaults) k db' = Inr (after_round c (db_compact db) k) \<and>
       (safe_key c (db_compact db) k \<longrightarrow> db_Get (\<lambda>_. no_rfaults) k db' = Inr (S k)))"
proof -
  let ?e = "db_compact db"
  obtain e d c' where r:
    "compact_run no_cfaults db = Some (True, db\<lparr>db_nextFileID := db_nextFileID db + 1, db_compact := e, db_disk := d\<rparr>)"
    "disk_holds (o_Dir (db_opts db)) (db_nextFileID db + 1) e c' d (after_round c ?e)"
    by (rule compact_run_effect [OF assms(1-4)])
  let ?db = "db\<lparr>db_nextFileID := db_nextFileID db + 1, db_compact := e, db_disk := d\<rparr>"
  let ?db' = "reloadReaders (\<lambda>_. no_rfaults) ?db"
  have "readers_show (reload_open (\<lambda>_. no_rfaults) ?db) (after_round c ?e)"
    using reload_open_shows [of ?db "db_nextFileID db + 1" e c'] r(2) by simp
  then have "db_Get (\<lambda>_. no_rfaults) k ?db' = Inr (after_round c ?e k)" if "map_of (mt_table (db_active db)) k = None" for k
    using that assms(5-7) get_readers_show
    by (simp add: db_Get_def reloadReaders_def reload_swap_def Let_def mt_Get_table)
  moreover have "after_round c ?e k = S k" if "safe_key c ?e k" for k
    using after_safe_round [OF _ that] assms(1) by (simp add: disk_holds_def stored_def)
  moreover have "compact_turn no_dfaults db = Some ?db'" using r(1) by (simp add: compact_turn_def)
  ultimately show ?thesis by auto
qed

text \<open>C34. A failed flush hides acknowledged writes: when the MemTable is due and its file cannot be created, the flush
  drops it all the same, and from then on \<^verbatim>\<open>Get\<close> answers as if none of its writes had happened.\<close>

theorem failed_flush_hides_writes:
  assumes "mt_Len (db_active db) \<noteq> 0" "mt_ByteSize (db_active db) \<ge> o_MemTableSize (db_opts db)"
    and "wf_create (df_write df)" "\<not> db_closed db"
  shows "db_Get rf k (flushIfNeeded df db) = get_readers rf (db_readers db) k"
proof -
  have "WriteFromMemTable (df_write df) mt bsz = (Some (Wrap ''sstable writer: create '' wio), None)" for mt bsz
    using assms(3) by (simp add: WriteFromMemTable_def NewWriter_def)
  then have "\<exists>e. flushMemTable df mt i d = (Some e, d)" for mt i d
    by (simp add: flushMemTable_def Let_def)
  then have "\<exists>e. flushMemTable df (db_active db) (db_nextFileID db + 1)
      (db\<lparr>db_immutable := Some (db_active db), db_active := New, db_nextFileID := db_nextFileID db + 1\<rparr>) =
      (Some e, db\<lparr>db_immutable := Some (db_active db), db_active := New, db_nextFileID := db_nextFileID db + 1\<rparr>)" .
  then have "flushIfNeeded df db = db\<lparr>db_immutable := None, db_active := New, db_nextFileID := db_nextFileID db + 1,
      db_compactChan := True\<rparr>"
    using assms(1,2) by (auto simp: flushIfNeeded_def flush_rotate_def nextSSTableID_def Let_def flush_clear_def)
  moreover have "mt_Get k New = Some (\<lparr>e_Key = [], e_Value = None, e_Deleted = False\<rparr>, False)"
    using mt_Get_table [OF mem.inv_empty] mem.tab_empty by simp
  ultimately show ?thesis using assms(4) by (simp add: db_Get_def)
qed

definition small_example :: Options where
  "small_example = DefaultOptions\<lparr>o_Dir := ''data'', o_MemTableSize := 1\<rparr>"

definition disk_full :: dfaults where
  "disk_full = no_dfaults\<lparr>df_write := no_wfaults\<lparr>wf_create := True\<rparr>\<rparr>"

theorem failed_flush_hides_writes_witness:
  "\<exists>db. mt_Len (db_active db) \<noteq> 0 \<and> mt_ByteSize (db_active db) \<ge> o_MemTableSize (db_opts db) \<and>
    wf_create (df_write disk_full) \<and> \<not> db_closed db \<and> db_Get (\<lambda>_. no_rfaults) [1] db = Inr (Some [7]) \<and>
    db_Get (\<lambda>_. no_rfaults) [1] (flushIfNeeded disk_full db) = Inr None"
proof -
  have "list_all plain_write [([1], Some (Some [7]))]" by (simp add: plain_write_def wf_record_def)
  moreover have "o_Dir small_example \<noteq> ''''" by (simp add: small_example_def)
  ultimately obtain s where s: "wrote small_example [([1], Some (Some [7]))] s" using calm_run by blast
  let ?db = "sy_db s"
  have mt: "mt_inv (db_active ?db)" using calm_reach_inv [of s] s by (simp add: wrote_def sys_inv_def mem_ok_def)
  have "mt_table (db_active ?db) = [([1], Val (Some [7]))]"
    using s mem.tab_sorted [OF mt] by (intro sorted_table_unique) (auto simp: wrote_def fun_eq_iff)
  then have h: "mt_Len (db_active ?db) \<noteq> 0" "mt_ByteSize (db_active ?db) \<ge> o_MemTableSize (db_opts ?db)"
    "wf_create (df_write disk_full)" "\<not> db_closed ?db"
    using mt_sizes [OF mt] s by (simp_all add: table_bytes_def cell_bytes_def wrote_def small_example_def disk_full_def)
  have "db_Get (\<lambda>_. no_rfaults) [1] ?db = Inr (Some [7])"
    using calm_reads [of s "[1]"] s h(4) by (simp add: wrote_def)
  moreover have "get_readers (\<lambda>_. no_rfaults) (db_readers ?db) [1] = Inr None"
    using get_readers_show [of _ "\<lambda>_. None"] s by (simp add: wrote_def)
  ultimately show ?thesis using failed_flush_hides_writes [OF h, of "\<lambda>_. no_rfaults" "[1]"] h by auto
qed

text \<open>A state with two old files of equal size, a newer large one, and nothing in memory.\<close>

definition stale_engine :: Engine where
  "stale_engine = \<lparr>en_dir = ''data'', en_files = [file_example 2 40, file_example 3 50, file_example 4 900],
     en_threshold = 2, en_running = False\<rparr>"

definition stale_content :: "FileMetadata \<Rightarrow> entry list" where
  "stale_content f = (if fm_FileID f = 2 then [([1], Some [8], False)]
     else if fm_FileID f = 3 then [([2], Some [6], False)] else [([1], Some [9], False)])"

definition stale_db :: "dir_map \<Rightarrow> DB" where
  "stale_db d = \<lparr>db_opts = opts_example,
     db_walLog = \<lparr>wal_data = [], wal_synced = 0, wal_closed = False, wal_path = '''', wal_SyncOnAppend = True\<rparr>,
     db_active = New, db_immutable = None, db_nextFileID = 4, db_readers = [], db_compact = stale_engine,
     db_flushChan = False, db_compactChan = True, db_closeChan = False, db_closed = False, db_disk = d\<rparr>"

lemma stale_selected: "selected_files stale_engine = [file_example 2 40, file_example 3 50]"
  "rest_files stale_engine = [file_example 4 900]"
proof -
  have "list_all tame_size (en_files stale_engine)" by (simp add: stale_engine_def tame_size_def file_example_def)
  moreover have "sort_key fm_Size (en_files stale_engine) = [file_example 2 40, file_example 3 50, file_example 4 900]"
    by (simp add: stale_engine_def file_example_def)
  moreover have "tiers_of [file_example 2 40, file_example 3 50, file_example 4 900] = [[file_example 2 40, file_example 3 50], [file_example 4 900]]"
    by (simp add: joins_def file_example_def)
  ultimately have "groupBySize (en_files stale_engine) = [[file_example 2 40, file_example 3 50], [file_example 4 900]]"
    using groupBySize_tiers by simp
  then show "selected_files stale_engine = [file_example 2 40, file_example 3 50]"
    by (simp add: selected_files_def stale_engine_def)
  then show "rest_files stale_engine = [file_example 4 900]"
    by (simp add: rest_files_def stale_engine_def file_example_def)
qed

theorem compaction_turn_lookups_witness:
  "\<exists>d db'. let db = stale_db d; S = (\<lambda>k. visible (merged stale_content (en_files stale_engine) k)) in
    disk_holds (o_Dir (db_opts db)) (db_nextFileID db) (db_compact db) stale_content (db_disk db) S \<and>
    NeedsCompaction (db_compact db) \<and> (\<Sum>f\<leftarrow>selected_files (db_compact db). weight (stale_content f)) + 4 < 2 ^ 32 \<and>
    db_nextFileID db < - 2 \<and> \<not> db_closed db \<and> mt_inv (db_active db) \<and> db_immutable db = None \<and>
    compact_turn no_dfaults db = Some db' \<and>
    S [2] = Some [6] \<and> db_Get (\<lambda>_. no_rfaults) [2] db' = Inr (Some [6]) \<and>
    S [1] = Some [9] \<and> db_Get (\<lambda>_. no_rfaults) [1] db' = Inr (Some [8])"
proof -
  let ?S = "\<lambda>k. visible (merged stale_content (en_files stale_engine) k)"
  have "\<forall>f \<in> set (en_files stale_engine). writable (stale_content f) \<and> sorted_table (stale_content f)"
    by (simp add: stale_engine_def stale_content_def file_example_def writable_def entry_weight_def)
  then obtain d where d: "stored d stale_content stale_engine" "fmdom' d = fm_Path ` set (en_files stale_engine)"
    using stored_exists [of stale_engine stale_content] by (auto simp: stale_engine_def file_example_def)
  let ?db = "stale_db d"
  have "0 < en_threshold stale_engine" by (simp add: stale_engine_def)
  then have needs: "NeedsCompaction (db_compact ?db)" using needs_selected stale_selected by (simp add: stale_db_def)
  have ids: "(4 :: u64) < - 1" "(4 :: u64) < - 2" by (simp_all add: word_less_nat_alt unat_top_u64)
  then have "\<forall>f \<in> set (en_files stale_engine). fm_FileID f \<le> 4 \<and> fm_FileID f < - 1"
    by (simp add: stale_engine_def file_example_def word_less_nat_alt unat_top_u64)
  then have disk: "disk_holds (o_Dir (db_opts ?db)) (db_nextFileID ?db) (db_compact ?db) stale_content (db_disk ?db) ?S"
    using d by (simp add: disk_holds_def stale_db_def opts_example_def stale_engine_def)
  have w: "(\<Sum>f\<leftarrow>selected_files (db_compact ?db). weight (stale_content f)) + 4 < 2 ^ 32"
    by (simp add: stale_db_def stale_selected stale_content_def file_example_def weight_def entry_weight_def)
  have q: "db_nextFileID ?db < - 2" "\<not> db_closed ?db" "mt_inv (db_active ?db)" "db_immutable ?db = None"
    using ids mem.inv_empty by (simp_all add: stale_db_def)
  obtain db' where db': "compact_turn no_dfaults ?db = Some db'"
    "\<forall>k. db_Get (\<lambda>_. no_rfaults) k db' = Inr (after_round stale_content stale_engine k)"
    using compaction_turn_lookups [OF disk needs w q] mem.tab_empty by (auto simp: stale_db_def)
  have "after_round stale_content stale_engine [2] = Some [6]" "after_round stale_content stale_engine [1] = Some [8]"
    unfolding after_round_def merged_def stale_selected
    by (simp_all add: keep_def stale_content_def file_example_def entry_cell_def)
  moreover have "?S [2] = Some [6]" "?S [1] = Some [9]"
    unfolding merged_def by (simp_all add: stale_engine_def stale_content_def file_example_def entry_cell_def)
  ultimately show ?thesis
    using disk needs w q db' unfolding Let_def by (intro exI [of _ d] exI [of _ db']) simp
qed


subsection \<open>The process\<close>

text \<open>C24. A turn of the compacting goroutine ends whatever happens: for every list of files, every directory, also one with missing
  or damaged files, and every failure of its calls, a round of compaction returns and leaves the engine ready for
  another round, and so does the turn with the reload of the readers.\<close>

theorem compaction_always_ends:
  "(\<exists>result e' d'. RunOnce cf d e outputID = Some (result, e', d') \<and> en_running e' = en_running e) \<and>
   (\<exists>db'. compact_turn df db = Some db')"
proof -
  obtain id db1 where "nextSSTableID db = (id, db1)" by fastforce
  then show ?thesis
    using RunOnce_ends [of cf d e outputID] RunOnce_ends [of "df_compact df" "db_disk db1" "db_compact db1" id]
    by (auto simp: compact_turn_def compact_run_def split: option.split)
qed

text \<open>C7. A shutdown and a new start keep everything: when the server stops with its database quiet and its writes were logged in the
  order in which they took effect, what it prints last is its
  message, its database is closed, and a server that is started on the same directory with a known sync mode
  serves a database in which \<^verbatim>\<open>Get\<close> returns for every key what it returned before.\<close>

theorem server_restart_keeps_data:
  assumes "quiet s" "db_nextFileID (sy_db s) < - 2"
    and "16 * mt_Len (db_active (sy_db s)) + mt_ByteSize (db_active (sy_db s)) + 4 < 2 ^ 32"
    and "sy_logged s = sy_applied s" "sync_flag syncMode = Some sm"
  shows "\<exists>db out db'. server_stop no_dfaults (sy_db s) = ([Stdout (str ''VaultKV stopped.'' @ [LF])], db) \<and> db_closed db \<and>
    server_start tx no_dfaults coins None port (o_Dir (db_opts (sy_db s))) syncMode memMB (db_disk db)
      (Some (wal_data (db_walLog db))) = Serves out db' \<and>
    (\<forall>k. db_Get (\<lambda>_. no_rfaults) k db' = db_Get (\<lambda>_. no_rfaults) k (sy_db s))"
proof -
  let ?w = "([0], None) :: kv_write" and ?db1 = "snd (close_begin (sy_db s))" and ?opts = "server_options (o_Dir (db_opts (sy_db s))) sm memMB"
  have s: "calm_reach s" "\<not> db_closed (sy_db s)" using assms(1) by (simp_all add: quiet_def)
  obtain s2 where s2: "calm_reach s2" "sy_db s2 = flushIfNeeded no_dfaults ?db1" "sy_applied s2 = sy_applied s"
    "sy_logged s2 = sy_logged s" "sy_compact s2 = CIdle" "mt_table (db_active (sy_db s2)) = []" "db_immutable (sy_db s2) = None"
    by (rule closing_flush [OF assms(1-3)])
  let ?db = "snd (db_Close no_dfaults (sy_db s))"
  have same: "db_disk ?db = db_disk (sy_db s2)" "wal_data (db_walLog ?db) = wal_data (db_walLog (sy_db s2))" "db_closed ?db"
    "db_opts (sy_db s2) = db_opts (sy_db s)"
    using s(2) by (auto simp: s2(2) db_Close_def close_begin_def close_end_def Close_def file_Sync_def file_Close_def case_prod_beta)
  have w: "plain_write ?w" "torn_at ?w 0" by (simp_all add: plain_write_def torn_at_def wf_record_def)
  have log: "wal_data (db_walLog ?db) = log_of (sy_logged s2) ?w 0"
    using calm_reach_inv [OF s2(1)] same(2) by (simp add: sys_inv_def log_ok_inv_def log_of_def)
  obtain db' where db': "db_Open no_dfaults coins ?opts (db_disk ?db) (Some (wal_data (db_walLog ?db))) = Inr db'"
    "\<forall>k. db_Get (\<lambda>_. no_rfaults) k db' = Inr (visible (map_writes (sy_logged s) Map.empty k))"
    using recovered_reads [OF s2(1) _ w, of ?opts coins] same log s2(4) by auto
  then obtain out where "server_start tx no_dfaults coins None port (o_Dir (db_opts (sy_db s))) syncMode memMB (db_disk ?db)
      (Some (wal_data (db_walLog ?db))) = Serves out db'"
    using assms(5) by (simp add: server_start_def Let_def)
  moreover have "db_Get (\<lambda>_. no_rfaults) k db' = db_Get (\<lambda>_. no_rfaults) k (sy_db s)" for k
    using db'(2) calm_reads [OF s] assms(4) by simp
  ultimately show ?thesis
    using same(3) by (intro exI [of _ ?db] exI [of _ out] exI [of _ db']) (simp add: server_stop_def)
qed

theorem server_restart_keeps_data_witness:
  "\<exists>s. quiet s \<and> db_nextFileID (sy_db s) < - 2 \<and>
    16 * mt_Len (db_active (sy_db s)) + mt_ByteSize (db_active (sy_db s)) + 4 < 2 ^ 32 \<and>
    sy_logged s = sy_applied s \<and> sync_flag ''batched'' = Some SyncBatched \<and> sy_applied s = writes_example \<and>
    (\<exists>db out db'. server_stop no_dfaults (sy_db s) = ([Stdout (str ''VaultKV stopped.'' @ [LF])], db) \<and> db_closed db \<and>
      server_start \<lparr>tx_upper = id, tx_quote = id, tx_error = (\<lambda>_. [])\<rparr> no_dfaults (\<lambda>_ _. True) None ''6380''
        (o_Dir (db_opts (sy_db s))) ''batched'' 4 (db_disk db) (Some (wal_data (db_walLog db))) = Serves out db' \<and>
      (\<forall>k. db_Get (\<lambda>_. no_rfaults) k db' = db_Get (\<lambda>_. no_rfaults) k (sy_db s)))"
proof -
  obtain s where s: "wrote opts_example writes_example s" "quiet s" "db_nextFileID (sy_db s) < - 2"
    "16 * mt_Len (db_active (sy_db s)) + mt_ByteSize (db_active (sy_db s)) + 4 < 2 ^ 32"
    using example_fits by blast
  then have l: "sy_logged s = sy_applied s" "sy_applied s = writes_example" by (simp_all add: wrote_def)
  have f: "sync_flag ''batched'' = Some SyncBatched" by (simp add: sync_flag_def)
  from server_restart_keeps_data [OF s(2-4) l(1) f, of "\<lparr>tx_upper = id, tx_quote = id, tx_error = (\<lambda>_. [])\<rparr>" "\<lambda>_ _. True" "''6380''" 4]
    s(2-4) l f show ?thesis by blast
qed


subsection \<open>Concurrent writes\<close>

text \<open>Either half of a write, as a calm step.\<close>

lemma calm_log:
  assumes "calm_reach s" "\<not> db_closed (sy_db s)" "plain_write w"
  obtains s' where "calm_steps s s'" "\<not> db_closed (sy_db s')" "sy_pending s' = sy_pending s @ [w]" "sy_logged s' = sy_logged s @ [w]"
    "sy_applied s' = sy_applied s" "db_opts (sy_db s') = db_opts (sy_db s)"
proof -
  obtain wl where "write_log no_faults w (sy_db s) = (None, (sy_db s)\<lparr>db_walLog := wl\<rparr>)"
    using write_log_ok [of "sy_db s" w] calm_reach_inv [OF assms(1)] assms(2,3)
    by (auto simp: sys_inv_def log_ok_inv_def plain_write_def)
  from calm_steps.snoc [OF calm_steps.refl step.log_ok [OF this]] assms(2,3) show thesis
    by (intro that [of "s\<lparr>sy_db := (sy_db s)\<lparr>db_walLog := wl\<rparr>, sy_pending := sy_pending s @ [w], sy_logged := sy_logged s @ [w]\<rparr>"]) simp_all
qed

lemma calm_apply:
  assumes "calm_reach s" "\<not> db_closed (sy_db s)" "i < length (sy_pending s)" "plain_write (sy_pending s ! i)"
  obtains s' where "calm_steps s s'" "\<not> db_closed (sy_db s')" "sy_pending s' = take i (sy_pending s) @ drop (Suc i) (sy_pending s)"
    "sy_logged s' = sy_logged s" "sy_applied s' = sy_applied s @ [sy_pending s ! i]" "db_opts (sy_db s') = db_opts (sy_db s)"
proof -
  have "mem_ok (sy_applied s) (db_active (sy_db s))" using calm_reach_inv [OF assms(1)] by (simp add: sys_inv_def)
  then obtain mt b where "write_apply (\<lambda>_. True) (sy_pending s ! i) (sy_db s) = (None, (sy_db s)\<lparr>db_active := mt, db_flushChan := b\<rparr>)"
    using write_apply_ok [of "sy_applied s" "sy_db s" "sy_pending s ! i"] assms(4) by (metis plain_write_def)
  from calm_steps.snoc [OF calm_steps.refl step.apply_write [OF assms(3) this]] assms(2) show thesis
    by (intro that [of "s\<lparr>sy_db := (sy_db s)\<lparr>db_active := mt, db_flushChan := b\<rparr>,
        sy_pending := take i (sy_pending s) @ drop (Suc i) (sy_pending s), sy_applied := sy_applied s @ [sy_pending s ! i]\<rparr>"]) simp_all
qed

text \<open>C26. Two writes of one key at the same time may be swapped by a restart: \<^verbatim>\<open>Set\<close> and \<^verbatim>\<open>Delete\<close> give up every lock between the log and
  the MemTable, so the writes may reach the MemTable in the opposite order.  Both are acknowledged and \<^verbatim>\<open>Get\<close> returns
  the one that was logged first; after a restart, with nothing lost, it returns the other.\<close>

theorem concurrent_writes_swap_on_restart:
  assumes "calm_reach s" "\<not> db_closed (sy_db s)" "sy_pending s = []" "plain_write (k, v)" "plain_write (k, v')"
    and "o_Dir opts = o_Dir (db_opts (sy_db s))"
  shows "\<exists>s' db. calm_steps s s' \<and> sy_pending s' = [] \<and> sy_applied s' = sy_applied s @ [(k, v'), (k, v)] \<and>
    db_Get (\<lambda>_. no_rfaults) k (sy_db s') = Inr (visible (Some (write_cell v))) \<and>
    db_Open no_dfaults coins opts (db_disk (sy_db s')) (Some (wal_data (db_walLog (sy_db s')))) = Inr db \<and>
    db_Get (\<lambda>_. no_rfaults) k db = Inr (visible (Some (write_cell v')))"
proof -
  obtain s1 where 1: "calm_steps s s1" "\<not> db_closed (sy_db s1)" "sy_pending s1 = [(k, v)]" "sy_logged s1 = sy_logged s @ [(k, v)]"
    "sy_applied s1 = sy_applied s" "db_opts (sy_db s1) = db_opts (sy_db s)"
    using calm_log [OF assms(1,2,4)] assms(3) by auto
  have r1: "calm_reach s1" using calm_steps_reach 1(1) assms(1) by blast
  obtain s2 where 2: "calm_steps s1 s2" "\<not> db_closed (sy_db s2)" "sy_pending s2 = [(k, v), (k, v')]"
    "sy_logged s2 = sy_logged s @ [(k, v), (k, v')]" "sy_applied s2 = sy_applied s" "db_opts (sy_db s2) = db_opts (sy_db s)"
    using calm_log [OF r1 1(2) assms(5)] 1(3-) by auto
  have r2: "calm_reach s2" using calm_steps_reach 2(1) r1 by blast
  obtain s3 where 3: "calm_steps s2 s3" "\<not> db_closed (sy_db s3)" "sy_pending s3 = [(k, v)]" "sy_logged s3 = sy_logged s2"
    "sy_applied s3 = sy_applied s @ [(k, v')]" "db_opts (sy_db s3) = db_opts (sy_db s)"
    using calm_apply [OF r2 2(2), of 1] assms(5) 2(3-) by auto
  have r3: "calm_reach s3" using calm_steps_reach 3(1) r2 by blast
  obtain s4 where 4: "calm_steps s3 s4" "\<not> db_closed (sy_db s4)" "sy_pending s4 = []" "sy_logged s4 = sy_logged s @ [(k, v), (k, v')]"
    "sy_applied s4 = sy_applied s @ [(k, v'), (k, v)]" "db_opts (sy_db s4) = db_opts (sy_db s)"
    using calm_apply [OF r3 3(2), of 0] assms(4) 3(3-) 2(4) by auto
  have r4: "calm_reach s4" using calm_steps_reach 4(1) r3 by blast
  have run: "calm_steps s s4" using 1(1) 2(1) 3(1) 4(1) calm_steps_trans by blast
  let ?w = "([0], None) :: kv_write"
  have w: "plain_write ?w" "torn_at ?w 0" by (simp_all add: plain_write_def torn_at_def wf_record_def)
  have log: "wal_data (db_walLog (sy_db s4)) = log_of (sy_logged s4) ?w 0"
    using calm_reach_inv [OF r4] by (simp add: sys_inv_def log_ok_inv_def log_of_def)
  obtain db where "db_Open no_dfaults coins opts (db_disk (sy_db s4)) (Some (wal_data (db_walLog (sy_db s4)))) = Inr db"
    "db_Get (\<lambda>_. no_rfaults) k db = Inr (visible (map_writes (sy_logged s4) Map.empty k))"
    using recovered_reads [OF r4 _ w, of opts coins] assms(6) 4(6) log by auto
  moreover have "map_writes (ws @ [x, (k, y)]) Map.empty k = Some (write_cell y)" for ws x y
    using map_writes_snoc [of "ws @ [x]" k y Map.empty] by simp
  ultimately show ?thesis
    using calm_reads [OF r4 4(2), of k] run 4(3-5) by (intro exI [of _ s4] exI [of _ db]) simp
qed

theorem concurrent_writes_swap_on_restart_witness:
  "\<exists>s. calm_reach s \<and> \<not> db_closed (sy_db s) \<and> sy_pending s = [] \<and> plain_write ([2], Some (Some [5])) \<and> plain_write ([2], None) \<and>
    o_Dir opts_example = o_Dir (db_opts (sy_db s)) \<and>
    (\<exists>s' db. calm_steps s s' \<and> sy_pending s' = [] \<and> db_Get (\<lambda>_. no_rfaults) [2] (sy_db s') = Inr (Some [5]) \<and>
      db_Open no_dfaults (\<lambda>_ _. True) opts_example (db_disk (sy_db s')) (Some (wal_data (db_walLog (sy_db s')))) = Inr db \<and>
      db_Get (\<lambda>_. no_rfaults) [2] db = Inr None)"
proof -
  obtain s where s: "wrote opts_example writes_example s" using wrote_example ..
  then have r: "calm_reach s" "\<not> db_closed (sy_db s)" "sy_pending s = []" "o_Dir opts_example = o_Dir (db_opts (sy_db s))"
    by (simp_all add: wrote_def)
  have w: "plain_write ([2], Some (Some [5]))" "plain_write ([2], None)" by (simp_all add: plain_write_def wf_record_def)
  from concurrent_writes_swap_on_restart [OF r(1-3) w r(4), of "\<lambda>_ _. True"] have
    "\<exists>s' db. calm_steps s s' \<and> sy_pending s' = [] \<and> db_Get (\<lambda>_. no_rfaults) [2] (sy_db s') = Inr (Some [5]) \<and>
      db_Open no_dfaults (\<lambda>_ _. True) opts_example (db_disk (sy_db s')) (Some (wal_data (db_walLog (sy_db s')))) = Inr db \<and>
      db_Get (\<lambda>_. no_rfaults) [2] db = Inr None"
    by auto
  with r w show ?thesis by blast
qed


subsection \<open>Nil values\<close>

text \<open>C35. A nil value does not stay one: after \<^verbatim>\<open>Set\<close> of a key to nil, \<^verbatim>\<open>Get\<close> returns nil, as for a missing key, but once the MemTable is
  flushed it returns an empty value that is not nil, so the key is there again.\<close>

theorem nil_value_becomes_empty:
  assumes "mt_inv (db_active db)" "db_immutable db = None" "db_Set ft coin k None db = (None, db')"
    and "flushable (db_active db')" "mt_ByteSize (db_active db') \<ge> o_MemTableSize (db_opts db')"
  shows "db_Get (\<lambda>_. no_rfaults) k db' = Inr None \<and>
    db_Get (\<lambda>_. no_rfaults) k (flushIfNeeded no_dfaults db') = Inr (Some [])"
proof -
  obtain mt where mt: "mt_Set coin k None (db_active db) = Some mt" "mt_inv mt" "mt_table mt = table_upd k (Val None) (mt_table (db_active db))"
    using mem.put_ok [OF assms(1), of coin k None] by blast
  have db': "db_active db' = mt" "db_immutable db' = None" "\<not> db_closed db'"
    using assms(2,3) mt(1) by (auto simp: db_Set_def set_log_def set_apply_def Let_def split: option.splits prod.splits if_splits)
  have k: "map_of (mt_table mt) k = Some (Val None)"
    using mem.tab_sorted [OF assms(1)] by (simp add: mt(3) map_of_table_upd)
  then have len: "mt_Len mt \<noteq> 0" using mt_sizes(1) [OF mt(2)] by (cases "mt_table mt") auto
  have fl: "flushable mt" using assms(4) db'(1) by simp
  obtain out where out: "WriteFromMemTable no_wfaults mt (o_BlockSize (db_opts db')) = (None, Some out)"
    using flush_succeeds [OF mt(2) fl] flush_layout [OF mt(2) fl] by (metis (no_types))
  obtain r es where r: "rd_Open no_rfaults (Some out) = Inr r" "serves r es" "map entry_cell es = mt_table mt"
    by (rule flushed_reader [OF mt(2) fl out])
  have "rd_Get no_rfaults r k = Inr (Some [], False)" using sst.rep_get [OF r(2), of k] r(3) k by simp
  moreover have "mt_Get k New = Some (\<lparr>e_Key = [], e_Value = None, e_Deleted = False\<rparr>, False)"
    using mt_Get_table [OF mem.inv_empty] mem.tab_empty by simp
  ultimately have "db_Get (\<lambda>_. no_rfaults) k (flushIfNeeded no_dfaults db') = Inr (Some [])"
    using db' len assms(5) out r(1)
    by (simp add: flushIfNeeded_def flush_rotate_def nextSSTableID_def flushMemTable_def flush_clear_def Let_def db_Get_def)
  moreover have "db_Get (\<lambda>_. no_rfaults) k db' = Inr None" using db' k mt_Get_table [OF mt(2), of k] by (simp add: db_Get_def)
  ultimately show ?thesis by simp
qed


theorem nil_value_becomes_empty_witness:
  "\<exists>db db'. mt_inv (db_active db) \<and> db_immutable db = None \<and> db_Set no_faults (\<lambda>_. True) [2] None db = (None, db') \<and>
    flushable (db_active db') \<and> mt_ByteSize (db_active db') \<ge> o_MemTableSize (db_opts db') \<and>
    db_Get (\<lambda>_. no_rfaults) [2] db' = Inr None \<and> db_Get (\<lambda>_. no_rfaults) [2] (flushIfNeeded no_dfaults db') = Inr (Some [])"
proof -
  have "o_Dir small_example \<noteq> ''''" by (simp add: small_example_def)
  then obtain s where s: "wrote small_example [] s" using calm_run [of small_example "[]"] by auto
  let ?db = "sy_db s"
  have inv: "sys_inv s" using calm_reach_inv s by (simp add: wrote_def)
  have mt: "mt_inv (db_active ?db)" and imm: "db_immutable ?db = None"
    using inv s by (auto simp: sys_inv_def mem_ok_def wrote_def view_ok_def Let_def flusher_ok_def)
  have tab: "mt_table (db_active ?db) = []"
    using s mem.tab_sorted [OF mt] by (intro sorted_table_unique) (auto simp: wrote_def fun_eq_iff)
  obtain wl where log: "write_log no_faults ([2], Some None) ?db = (None, ?db\<lparr>db_walLog := wl\<rparr>)"
    using write_log_ok [of ?db "([2], Some None)"] inv s by (auto simp: sys_inv_def log_ok_inv_def wrote_def)
  obtain m where m: "mt_Set (\<lambda>_. True) [2] None (db_active ?db) = Some m" "mt_inv m" "mt_table m = [([2], Val None)]"
    using mem.put_ok [OF mt, of "\<lambda>_. True" "[2]" None] tab by auto
  have size: "mt_Len m = 1" "1 \<le> mt_ByteSize m" "mt_ByteSize m \<le> 100"
    using mt_sizes [OF m(2)] m(3) by (simp_all add: table_bytes_def cell_bytes_def)
  define db' where "db' = ?db\<lparr>db_walLog := wl, db_active := m, db_flushChan := True\<rparr>"
  have opts: "o_MemTableSize (db_opts ?db) = 1" using s by (simp add: wrote_def small_example_def)
  have set: "db_Set no_faults (\<lambda>_. True) [2] None ?db = (None, db')"
    using log m(1) size opts by (simp add: db_Set_log write_apply_def set_apply_def db'_def)
  have h: "flushable (db_active db')" "mt_ByteSize (db_active db') \<ge> o_MemTableSize (db_opts db')"
    using m(3) size opts by (simp_all add: flushable_def db'_def)
  from nil_value_becomes_empty [OF mt imm set h] mt imm set h show ?thesis by blast
qed

end
